(* ===== verification/Prelude.thy ===== *)
theory Prelude
  imports Main "HOL-Library.Word"
begin

unbundle bit_operations_syntax

text \<open>
  Shared foundations of the development: the machine integer types of \<^verbatim>\<open>types.h\<close>, the
  monad in which kernel code is written down, its loop combinators, a weakest-precondition
  calculus for it, and generic lemmas on lists.

  Kernel code is a function from the kernel state and a \<^emph>\<open>schedule\<close> to an outcome.
  The schedule is a list of state transformers: its head is what the rest of the machine does
  to the state the next time the running thread gives up the processor (\<^verbatim>\<open>swtch\<close>).  A thread
  that gives up the processor when the schedule is exhausted is never resumed.
\<close>

section \<open>Machine integers\<close>

type_synonym u8 = "8 word"
type_synonym u16 = "16 word"
type_synonym u32 = "32 word"

text \<open>A C \<^verbatim>\<open>int\<close> is kept as an \<^typ>\<open>int\<close>; arithmetic that may overflow goes through
  \<open>wrap32\<close>, the two's complement reduction the i386 instructions perform.\<close>

definition wrap32 :: "int \<Rightarrow> int" where
  "wrap32 x = (x + 2 ^ 31) mod 2 ^ 32 - 2 ^ 31"

lemma wrap32_id: "- (2 ^ 31) \<le> x \<Longrightarrow> x < 2 ^ 31 \<Longrightarrow> wrap32 x = x"
  by (simp add: wrap32_def)

lemma wrap32_bounds: "- (2 ^ 31) \<le> wrap32 x \<and> wrap32 x < 2 ^ 31"
  using pos_mod_bound [of "2 ^ 32" "x + 2 ^ 31"] pos_mod_sign [of "2 ^ 32" "x + 2 ^ 31"]
  by (simp add: wrap32_def)

lemma sint_small:
  assumes "unat (c :: u32) < 2 ^ 31"
  shows "sint c = int (unat c)"
proof -
  have lt: "int (unat c) < 2 ^ 31" using assms by (metis of_nat_less_iff of_nat_numeral of_nat_power)
  have "- (2 ^ 31) \<le> int (unat c)" by (rule order_trans [of _ 0]) (simp, rule of_nat_0_le_iff)
  from signed_take_bit_int_eq_self [OF this lt] show ?thesis by (simp add: sint_uint)
qed

lemma sint_word_of_int: "0 \<le> x \<Longrightarrow> x < 2 ^ 31 \<Longrightarrow> sint (word_of_int x :: u32) = x"
proof -
  assume x: "0 \<le> x" "x < 2 ^ 31"
  then have u: "int (unat (word_of_int x :: u32)) = x" by (simp add: uint_word_of_int_eq take_bit_int_eq_self)
  then have "unat (word_of_int x :: u32) < 2 ^ 31" using x(2) by (metis of_nat_less_iff of_nat_numeral of_nat_power)
  then show ?thesis using sint_small u by metis
qed

section \<open>Outcomes and the kernel monad\<close>

text \<open>
  \<open>Ret a s es\<close>: the code returned \<open>a\<close> in state \<open>s\<close> with schedule \<open>es\<close> left.
  \<open>Panic msg\<close>: it called \<^verbatim>\<open>panic(msg)\<close>.  \<open>Blocked s\<close>: it gave up the processor in \<open>s\<close>
  and the schedule never resumes it.  \<open>Spin\<close>: it busy-waits forever.
\<close>

datatype ('s, 'a) outcome =
    Ret 'a 's "('s \<Rightarrow> 's) list"
  | Panic string
  | Blocked 's
  | Spin

type_synonym ('s, 'a) kM = "'s \<Rightarrow> ('s \<Rightarrow> 's) list \<Rightarrow> ('s, 'a) outcome"

abbreviation ret :: "'a \<Rightarrow> ('s, 'a) kM" where
  "ret \<equiv> Ret"

definition bnd :: "('s, 'a) kM \<Rightarrow> ('a \<Rightarrow> ('s, 'b) kM) \<Rightarrow> ('s, 'b) kM" where
  "bnd m f = (\<lambda>s es. case m s es of
      Ret a s' es' \<Rightarrow> f a s' es'
    | Panic p \<Rightarrow> Panic p
    | Blocked s' \<Rightarrow> Blocked s'
    | Spin \<Rightarrow> Spin)"

definition seq :: "('s, 'a) kM \<Rightarrow> ('s, 'b) kM \<Rightarrow> ('s, 'b) kM" where
  "seq m n = bnd m (\<lambda>_. n)"

definition panic :: "string \<Rightarrow> ('s, 'a) kM" where
  "panic msg = (\<lambda>s es. Panic msg)"

definition spin :: "('s, 'a) kM" where
  "spin = (\<lambda>s es. Spin)"

definition get :: "('s \<Rightarrow> 'a) \<Rightarrow> ('s, 'a) kM" where
  "get f = (\<lambda>s es. Ret (f s) s es)"

definition upd :: "('s \<Rightarrow> 's) \<Rightarrow> ('s, unit) kM" where
  "upd f = (\<lambda>s es. Ret () (f s) es)"

definition whenM :: "bool \<Rightarrow> ('s, unit) kM \<Rightarrow> ('s, unit) kM" where
  "whenM b m = (if b then m else ret ())"

text \<open>Handing the processor over: the next entry of the schedule acts on the state.\<close>

definition handover :: "('s, unit) kM" where
  "handover = (\<lambda>s es. case es of [] \<Rightarrow> Blocked s | e # es' \<Rightarrow> Ret () (e s) es')"

text \<open>A block of statements, and the \<^verbatim>\<open>for\<close> loops of the code: \<open>forM\<close> runs the body for
  every element, \<open>firstM\<close> stops at the first iteration that yields a value (a \<^verbatim>\<open>return\<close>,
  \<^verbatim>\<open>break\<close> or \<^verbatim>\<open>goto\<close> out of the loop).\<close>

primrec stmts :: "('s, unit) kM list \<Rightarrow> ('s, unit) kM" where
  "stmts [] = ret ()"
| "stmts (m # ms) = seq m (stmts ms)"

primrec forM :: "'b list \<Rightarrow> ('b \<Rightarrow> ('s, unit) kM) \<Rightarrow> ('s, unit) kM" where
  "forM [] f = ret ()"
| "forM (x # xs) f = seq (f x) (forM xs f)"

primrec firstM :: "'b list \<Rightarrow> ('b \<Rightarrow> ('s, 'r option) kM) \<Rightarrow> ('s, 'r option) kM" where
  "firstM [] f = ret None"
| "firstM (x # xs) f =
     bnd (f x) (\<lambda>r. case r of None \<Rightarrow> firstM xs f | Some v \<Rightarrow> ret (Some v))"

text \<open>A \<^verbatim>\<open>for(;;)\<close> loop whose rounds end in a \<^verbatim>\<open>sleep\<close>, so that every round but the last uses up an
  entry of the schedule; a round yields \<open>None\<close> to go on and \<open>Some v\<close> to leave the loop.\<close>

primrec iterM :: "nat \<Rightarrow> ('s, 'r option) kM \<Rightarrow> ('s, 'r) kM" where
  "iterM 0 m = spin"
| "iterM (Suc n) m = bnd m (\<lambda>r. case r of Some v \<Rightarrow> ret v | None \<Rightarrow> iterM n m)"

definition forever :: "('s, 'r option) kM \<Rightarrow> ('s, 'r) kM" where
  "forever m = (\<lambda>s es. iterM (Suc (length es)) m s es)"

section \<open>Running monadic code\<close>

named_theorems krun \<open>equations that run kernel code\<close>

lemma panic_run [krun]: "panic p s es = Panic p"
  by (simp add: panic_def)

lemma spin_run [krun]: "spin s es = Spin"
  by (simp add: spin_def)

lemma get_run [krun]: "get f s es = Ret (f s) s es"
  by (simp add: get_def)

lemma upd_run [krun]: "upd f s es = Ret () (f s) es"
  by (simp add: upd_def)

lemma bnd_run [krun]:
  "bnd m f s es = (case m s es of
      Ret a s' es' \<Rightarrow> f a s' es'
    | Panic p \<Rightarrow> Panic p
    | Blocked s' \<Rightarrow> Blocked s'
    | Spin \<Rightarrow> Spin)"
  by (simp add: bnd_def)

lemma seq_run [krun]:
  "seq m n s es = (case m s es of
      Ret a s' es' \<Rightarrow> n s' es'
    | Panic p \<Rightarrow> Panic p
    | Blocked s' \<Rightarrow> Blocked s'
    | Spin \<Rightarrow> Spin)"
  by (simp add: seq_def bnd_run)

lemma whenM_run [krun]: "whenM b m s es = (if b then m s es else Ret () s es)"
  by (simp add: whenM_def)

lemma handover_Nil [krun]: "handover s [] = Blocked s"
  by (simp add: handover_def)

lemma handover_Cons [krun]: "handover s (e # es) = Ret () (e s) es"
  by (simp add: handover_def)

lemma forM_append:
  "forM (xs @ ys) f s es = seq (forM xs f) (forM ys f) s es"
  by (induction xs arbitrary: s es) (auto simp: krun split: outcome.splits)

text \<open>The rounds of \<open>forever\<close> are enough when each of them uses up an entry of the schedule.\<close>

definition consumes :: "('s, 'r option) kM \<Rightarrow> bool" where
  "consumes m \<longleftrightarrow> (\<forall>s es s' es'. m s es = Ret None s' es' \<longrightarrow> length es' < length es)"

lemma iterM_enough:
  "consumes m \<Longrightarrow> length es < n \<Longrightarrow> iterM n m s es = forever m s es"
proof (induction "length es" arbitrary: n s es rule: less_induct)
  case less
  from less.prems obtain k where n: "n = Suc k" "length es \<le> k" by (cases n) auto
  show ?case
  proof (cases "m s es")
    case (Ret r s' es')
    show ?thesis
    proof (cases r)
      case None
      then have lt: "length es' < length es"
        using less.prems(1) Ret unfolding consumes_def by blast
      have "iterM k m s' es' = forever m s' es'" "iterM (length es) m s' es' = forever m s' es'"
        using less.hyps [OF lt less.prems(1)] lt n by auto
      then show ?thesis using Ret None n by (simp add: forever_def bnd_run)
    qed (use Ret n in \<open>simp add: forever_def bnd_run\<close>)
  qed (use n in \<open>simp_all add: forever_def bnd_run\<close>)
qed

lemma forever_unfold:
  assumes "consumes m"
  shows "forever m s es = bnd m (\<lambda>r. case r of Some v \<Rightarrow> ret v | None \<Rightarrow> forever m) s es"
proof (cases "m s es")
  case (Ret r s' es')
  show ?thesis
  proof (cases r)
    case None
    then have "length es' < length es" using assms Ret unfolding consumes_def by blast
    then have "iterM (length es) m s' es' = forever m s' es'" by (intro iterM_enough assms)
    then show ?thesis using Ret None by (simp add: forever_def bnd_run)
  qed (use Ret in \<open>simp add: forever_def bnd_run\<close>)
qed (simp_all add: forever_def bnd_run)

text \<open>Code that never lengthens the schedule, and code that in addition uses up an entry of it
  whenever it returns.\<close>

definition keeps :: "('s, 'a) kM \<Rightarrow> bool" where
  "keeps m \<longleftrightarrow> (\<forall>s es a s' es'. m s es = Ret a s' es' \<longrightarrow> length es' \<le> length es)"

definition strict :: "('s, 'a) kM \<Rightarrow> bool" where
  "strict m \<longleftrightarrow> (\<forall>s es a s' es'. m s es = Ret a s' es' \<longrightarrow> length es' < length es)"

named_theorems uses \<open>how code uses up the schedule\<close>

lemma strict_keeps: "strict m \<Longrightarrow> keeps m"
  unfolding strict_def keeps_def by (meson less_imp_le)

lemma keeps_simps [uses, intro]:
  "keeps (ret a)" "keeps (get f)" "keeps (upd g)" "keeps (panic p)" "keeps spin"
  by (simp_all add: keeps_def krun)

lemma strict_panic [uses]: "strict (panic p)" "strict spin"
  by (simp_all add: strict_def krun)

lemma keeps_bnd [uses, intro]: "keeps m \<Longrightarrow> (\<And>a. keeps (f a)) \<Longrightarrow> keeps (bnd m f)"
  unfolding keeps_def by (fastforce simp: krun split: outcome.splits)

lemma keeps_seq [uses, intro]: "keeps m \<Longrightarrow> keeps n \<Longrightarrow> keeps (seq m n)"
  unfolding seq_def by (rule keeps_bnd)

lemma keeps_whenM [uses, intro]: "keeps m \<Longrightarrow> keeps (whenM b m)"
  by (auto simp: whenM_def)

lemma keeps_forM [uses, intro]: "(\<And>x. keeps (f x)) \<Longrightarrow> keeps (forM xs f)"
  by (induction xs) auto

lemma strict_handover [uses]: "strict handover"
  by (auto simp: strict_def handover_def split: list.splits)

lemma strict_bnd1: "strict m \<Longrightarrow> (\<And>a. keeps (f a)) \<Longrightarrow> strict (bnd m f)"
  unfolding strict_def keeps_def by (fastforce simp: krun split: outcome.splits)

lemma strict_bnd2: "keeps m \<Longrightarrow> (\<And>a. strict (f a)) \<Longrightarrow> strict (bnd m f)"
  unfolding strict_def keeps_def by (fastforce simp: krun split: outcome.splits)

lemma strict_seq1: "strict m \<Longrightarrow> keeps n \<Longrightarrow> strict (seq m n)"
  unfolding seq_def by (rule strict_bnd1)

lemma strict_seq2: "keeps m \<Longrightarrow> strict n \<Longrightarrow> strict (seq m n)"
  unfolding seq_def by (rule strict_bnd2)

text \<open>The rounds of a loop \<^verbatim>\<open>while(c) sleep(...)\<close>.\<close>

definition while_sleep :: "('s \<Rightarrow> bool) \<Rightarrow> ('s, unit) kM \<Rightarrow> ('s, unit) kM" where
  "while_sleep c m = forever (bnd (get c) (\<lambda>b. if b then seq m (ret None) else ret (Some ())))"

lemma while_sleep_unfold:
  assumes "strict m"
  shows "while_sleep c m s es = (if c s then seq m (while_sleep c m) s es else Ret () s es)"
proof -
  have "consumes (bnd (get c) (\<lambda>b. if b then seq m (ret None) else ret (Some ())))"
    using assms unfolding consumes_def strict_def by (auto simp: krun split: outcome.splits if_splits)
  from forever_unfold [OF this] show ?thesis
    unfolding while_sleep_def by (auto simp: krun split: outcome.splits)
qed

section \<open>Weakest preconditions\<close>

text \<open>
  \<open>wp m Q s\<close>: from \<open>s\<close>, under every schedule, \<open>m\<close> returns, without a panic and without giving up the
  processor, and in a state where \<open>Q\<close> holds of the result.
\<close>

definition wp :: "('s, 'a) kM \<Rightarrow> ('a \<Rightarrow> 's \<Rightarrow> bool) \<Rightarrow> 's \<Rightarrow> bool" where
  "wp m Q s \<longleftrightarrow> (\<forall>es. \<exists>a s'. m s es = Ret a s' es \<and> Q a s')"

named_theorems wps \<open>backward rules of the weakest-precondition calculus\<close>

lemma wpD: "wp m Q s \<Longrightarrow> \<exists>a s'. m s es = Ret a s' es \<and> Q a s'"
  by (simp add: wp_def)

lemma wp_runI: "(\<And>es. m s es = Ret a s' es) \<Longrightarrow> Q a s' \<Longrightarrow> wp m Q s"
  by (auto simp: wp_def krun)

lemma wp_ret [wps]: "wp (ret a) Q s \<longleftrightarrow> Q a s"
  by (auto simp: wp_def krun)

lemma wp_get [wps]: "wp (get f) Q s \<longleftrightarrow> Q (f s) s"
  by (auto simp: wp_def krun)

lemma wp_upd [wps]: "wp (upd f) Q s \<longleftrightarrow> Q () (f s)"
  by (auto simp: wp_def krun)

lemma wp_panic [wps]: "wp (panic p) Q s \<longleftrightarrow> False"
  by (auto simp: wp_def krun)

lemma wp_bnd: "wp m (\<lambda>a. wp (f a) Q) s \<Longrightarrow> wp (bnd m f) Q s"
  unfolding wp_def by (simp add: krun, metis outcome.case(1))

lemma wp_seq: "wp m (\<lambda>_. wp n Q) s \<Longrightarrow> wp (seq m n) Q s"
  unfolding seq_def by (rule wp_bnd)

lemma wp_whenM [wps]: "wp (whenM b m) Q s \<longleftrightarrow> (if b then wp m Q s else Q () s)"
  by (auto simp: wp_def krun)

lemma wp_mono: "wp m P s \<Longrightarrow> (\<And>a t. P a t \<Longrightarrow> Q a t) \<Longrightarrow> wp m Q s"
  unfolding wp_def by metis

text \<open>The forward forms: establish a postcondition of the first part, then run the second from it.\<close>

lemma wp_bndI: "wp m P s \<Longrightarrow> (\<And>a t. P a t \<Longrightarrow> wp (f a) Q t) \<Longrightarrow> wp (bnd m f) Q s"
  by (rule wp_bnd) (rule wp_mono)

lemma wp_seqI: "wp m P s \<Longrightarrow> (\<And>a t. P a t \<Longrightarrow> wp n Q t) \<Longrightarrow> wp (seq m n) Q s"
  by (rule wp_seq) (rule wp_mono)

text \<open>The rule for a \<^verbatim>\<open>for\<close> loop: an invariant indexed by the elements already visited.\<close>

lemma wp_forM:
  assumes "I [] s"
    and "\<And>xs x ys t. zs = xs @ x # ys \<Longrightarrow> I xs t \<Longrightarrow> wp (f x) (\<lambda>_. I (xs @ [x])) t"
  shows "wp (forM zs f) (\<lambda>_. I zs) s"
proof -
  have "wp (forM ys f) (\<lambda>_. I zs) t" if "zs = xs @ ys" "I xs t" for xs ys t
    using that
  proof (induction ys arbitrary: xs t)
    case Nil
    then show ?case by (simp add: wp_ret)
  next
    case (Cons y ys)
    have step: "wp (f y) (\<lambda>_. I (xs @ [y])) t"
      using assms(2) Cons.prems by blast
    have "wp (forM ys f) (\<lambda>_. I zs) u" if "I (xs @ [y]) u" for u
      using Cons.IH [of "xs @ [y]" u] Cons.prems that by simp
    then show ?case
      by (auto intro!: wp_seq wp_mono [OF step])
  qed
  from this [of "[]" zs s] assms(1) show ?thesis by simp
qed

lemma wp_for_upt:
  assumes "I 0 s" "\<And>k t. k < n \<Longrightarrow> I k t \<Longrightarrow> wp (f k) (\<lambda>_. I (Suc k)) t"
  shows "wp (forM [0..<n] f) (\<lambda>_. I n) s"
proof -
  have "wp (forM [0..<n] f) (\<lambda>_ t. I (length [0..<n]) t) s"
  proof (rule wp_forM [where I = "\<lambda>xs. I (length xs)"])
    fix xs x ys t assume *: "[0..<n] = xs @ x # ys" "I (length xs) t"
    have "x = [0..<n] ! length xs" "length xs < n" using *(1) by (metis nth_append_length, metis length_append length_upt less_add_same_cancel1 list.size(4) minus_nat.diff_0 zero_less_Suc add_Suc_right)
    then have "x = length xs" by simp
    then show "wp (f x) (\<lambda>_. I (length (xs @ [x]))) t" using assms(2) [of "length xs" t] * \<open>length xs < n\<close> by simp
  qed (use assms(1) in simp)
  then show ?thesis by simp
qed

lemma wp_same: "(\<And>es. m s es = m' s es) \<Longrightarrow> wp m' Q s \<Longrightarrow> wp m Q s"
  by (simp add: wp_def)

section \<open>Code that may block\<close>

text \<open>
  \<open>wpb E B m Q s\<close>: from \<open>s\<close>, under every schedule of steps of \<open>E\<close>, \<open>m\<close> neither panics nor spins; where
  it returns, \<open>Q\<close> holds of the result; where it gives up the processor for good, it does so in a
  state that satisfies \<open>B\<close>.
\<close>

definition wpb :: "('s \<Rightarrow> 's) set \<Rightarrow> ('s \<Rightarrow> bool) \<Rightarrow> ('s, 'a) kM \<Rightarrow> ('a \<Rightarrow> 's \<Rightarrow> bool) \<Rightarrow> 's \<Rightarrow> bool" where
  "wpb E B m Q s \<longleftrightarrow> (\<forall>es. set es \<subseteq> E \<longrightarrow>
     (case m s es of Ret a s' es' \<Rightarrow> Q a s' \<and> set es' \<subseteq> E | Panic p \<Rightarrow> False | Blocked s' \<Rightarrow> B s' | Spin \<Rightarrow> False))"

lemma wpb_wp: "wp m Q s \<Longrightarrow> wpb E B m Q s"
  unfolding wpb_def
proof (intro allI impI, goal_cases)
  case (1 es)
  from wpD [OF "1"(1), of es] "1"(2) show ?case by auto
qed

lemma wpb_bnd: "wpb E B m (\<lambda>a. wpb E B (f a) Q) s \<Longrightarrow> wpb E B (bnd m f) Q s"
  unfolding wpb_def [of _ _ "bnd m f"]
proof (intro allI impI, goal_cases)
  case (1 es)
  then have *: "case m s es of Ret a s' es' \<Rightarrow> wpb E B (f a) Q s' \<and> set es' \<subseteq> E
      | Panic p \<Rightarrow> False | Blocked s' \<Rightarrow> B s' | Spin \<Rightarrow> False"
    unfolding wpb_def [of _ _ m] by blast
  show ?case
    by (cases "m s es") (use * in \<open>simp_all add: bnd_run wpb_def\<close>)
qed

lemma wpb_seq: "wpb E B m (\<lambda>_. wpb E B n Q) s \<Longrightarrow> wpb E B (seq m n) Q s"
  unfolding seq_def by (rule wpb_bnd)

lemma wpb_mono: "wpb E B m P s \<Longrightarrow> (\<And>a t. P a t \<Longrightarrow> Q a t) \<Longrightarrow> wpb E B m Q s"
  unfolding wpb_def by (fastforce split: outcome.splits)

lemma wpb_bndI: "wpb E B m P s \<Longrightarrow> (\<And>a t. P a t \<Longrightarrow> wpb E B (f a) Q t) \<Longrightarrow> wpb E B (bnd m f) Q s"
  by (rule wpb_bnd) (rule wpb_mono)

lemma wpb_seqI: "wpb E B m P s \<Longrightarrow> (\<And>a t. P a t \<Longrightarrow> wpb E B n Q t) \<Longrightarrow> wpb E B (seq m n) Q s"
  by (rule wpb_seq) (rule wpb_mono)

lemma wpb_ret: "Q a s \<Longrightarrow> wpb E B (ret a) Q s"
  by (rule wpb_wp) (simp add: wp_ret)

lemma wpb_bnd_wp: "wp m (\<lambda>a. wpb E B (f a) Q) s \<Longrightarrow> wpb E B (bnd m f) Q s"
  by (rule wpb_bnd) (rule wpb_wp)

lemma wpb_seq_wp: "wp m (\<lambda>_. wpb E B n Q) s \<Longrightarrow> wpb E B (seq m n) Q s"
  by (rule wpb_seq) (rule wpb_wp)

text \<open>The rule for a loop that sleeps in every round: an invariant of the rounds.\<close>

lemma wpb_forever:
  assumes "consumes m" "I s"
    and "\<And>t. I t \<Longrightarrow> wpb E B m (\<lambda>r t'. case r of None \<Rightarrow> I t' | Some v \<Rightarrow> Q v t') t"
  shows "wpb E B (forever m) Q s"
proof -
  have "set es \<subseteq> E \<Longrightarrow> I s \<Longrightarrow> case forever m s es of Ret a s' es' \<Rightarrow> Q a s' \<and> set es' \<subseteq> E
      | Panic p \<Rightarrow> False | Blocked s' \<Rightarrow> B s' | Spin \<Rightarrow> False" for es s
  proof (induction "length es" arbitrary: s es rule: less_induct)
    case less
    have b: "case m s es of Ret r s' es' \<Rightarrow> (case r of None \<Rightarrow> I s' | Some v \<Rightarrow> Q v s') \<and> set es' \<subseteq> E
        | Panic p \<Rightarrow> False | Blocked s' \<Rightarrow> B s' | Spin \<Rightarrow> False"
      using assms(3) [OF less.prems(2)] less.prems(1) unfolding wpb_def by blast
    show ?case
    proof (cases "m s es")
      case (Ret r s' es')
      show ?thesis
      proof (cases r)
        case None
        then have "length es' < length es" using assms(1) Ret unfolding consumes_def by blast
        from less.hyps [OF this] b Ret None show ?thesis
          unfolding forever_unfold [OF assms(1), of s es] by (simp add: bnd_run)
      qed (use Ret b in \<open>simp add: forever_unfold [OF assms(1), of s es] bnd_run\<close>)
    qed (use b in \<open>simp_all add: forever_unfold [OF assms(1), of s es] bnd_run\<close>)
  qed
  then show ?thesis using assms(2) unfolding wpb_def by blast
qed

lemma consumes_ret: "consumes (ret (Some v))"
  by (simp add: consumes_def)

lemma consumes_bnd: "keeps m \<Longrightarrow> (\<And>a. consumes (f a)) \<Longrightarrow> consumes (bnd m f)"
  unfolding consumes_def keeps_def by (fastforce simp: krun split: outcome.splits)

lemma consumes_seq: "keeps m \<Longrightarrow> consumes n \<Longrightarrow> consumes (seq m n)"
  unfolding seq_def by (rule consumes_bnd)

lemma consumes_strict: "strict m \<Longrightarrow> consumes m"
  unfolding consumes_def strict_def by blast

lemma consumes_while_sleep:
  "strict m \<Longrightarrow> consumes (bnd (get c) (\<lambda>b. if b then seq m (ret None) else ret (Some ())))"
  by (intro consumes_bnd keeps_simps) (auto intro: consumes_ret consumes_strict strict_seq1)

lemma wpb_while_sleep:
  assumes "strict m" "I s"
    and "\<And>t. I t \<Longrightarrow> c t \<Longrightarrow> wpb E B m (\<lambda>_. I) t" "\<And>t. I t \<Longrightarrow> \<not> c t \<Longrightarrow> Q () t"
  shows "wpb E B (while_sleep c m) Q s"
  unfolding while_sleep_def
proof (rule wpb_forever [where I = I, OF consumes_while_sleep [OF assms(1)] assms(2)])
  fix t assume t: "I t"
  show "wpb E B (bnd (get c) (\<lambda>b. if b then seq m (ret None) else ret (Some ())))
      (\<lambda>r t'. case r of None \<Rightarrow> I t' | Some v \<Rightarrow> Q v t') t"
    by (rule wpb_bnd_wp) (auto simp: wp_get intro!: wpb_ret wpb_seqI [OF assms(3) [OF t]] assms(4) [OF t])
qed

lemma wpb_weaken: "wpb E B m Q s \<Longrightarrow> (\<And>t. B t \<Longrightarrow> B' t) \<Longrightarrow> wpb E B' m Q s"
  unfolding wpb_def by (fastforce split: outcome.splits)

text \<open>
  \<open>handed m s ds s1\<close>: with the steps \<open>ds\<close> of the schedule, \<open>m\<close> is given the processor for the last time in
  the state \<open>s1\<close>.  Without a step that is where it starts; otherwise it is what the last step makes of
  the state in which \<open>m\<close> waits when the schedule ends before that step.
\<close>

definition handed :: "('s, 'a) kM \<Rightarrow> 's \<Rightarrow> ('s \<Rightarrow> 's) list \<Rightarrow> 's \<Rightarrow> bool" where
  "handed m s ds s1 \<longleftrightarrow> (if ds = [] then s1 = s else \<exists>s0. m s (butlast ds) = Blocked s0 \<and> s1 = last ds s0)"

lemma handed_Nil [simp]: "handed m s [] s1 \<longleftrightarrow> s1 = s"
  by (simp add: handed_def)

text \<open>The first step, and the code around a part that waits.\<close>

lemma handed_first: "m s [] = Blocked s0 \<Longrightarrow> handed m s [e] (e s0)"
  by (simp add: handed_def)

lemma handed_later:
  "ds \<noteq> [] \<Longrightarrow> handed m t ds s1 \<Longrightarrow> (\<And>es. m s (e # es) = m t es) \<Longrightarrow> handed m s (e # ds) s1"
  by (simp add: handed_def)

lemma handed_around:
  "ds \<noteq> [] \<Longrightarrow> handed m t ds s1 \<Longrightarrow> (\<And>es. a s es = Ret () t es) \<Longrightarrow> handed (seq a (seq m n)) s ds s1"
  by (auto simp: handed_def seq_run)

section \<open>Lists\<close>

text \<open>The first index from \<open>i\<close> on whose element satisfies \<open>P\<close>: the table scans of the kernel.\<close>

fun find_from :: "('a \<Rightarrow> bool) \<Rightarrow> 'a list \<Rightarrow> nat \<Rightarrow> nat option" where
  "find_from P [] i = None"
| "find_from P (x # xs) i = (if P x then Some i else find_from P xs (Suc i))"

lemma find_from_Some:
  "find_from P xs i = Some k \<Longrightarrow>
     i \<le> k \<and> k - i < length xs \<and> P (xs ! (k - i)) \<and> (\<forall>j < k - i. \<not> P (xs ! j))"
proof (induction xs arbitrary: i)
  case (Cons x xs)
  show ?case
  proof (cases "P x")
    case False
    with Cons have *: "Suc i \<le> k \<and> k - Suc i < length xs \<and> P (xs ! (k - Suc i)) \<and>
        (\<forall>j < k - Suc i. \<not> P (xs ! j))" by simp
    then have k: "k - i = Suc (k - Suc i)" by arith
    have "\<not> P ((x # xs) ! j)" if "j < k - i" for j
      using that * False k by (cases j) auto
    with * k show ?thesis by simp
  qed (use Cons in simp)
qed simp

lemma find_from_None: "find_from P xs i = None \<longleftrightarrow> (\<forall>x \<in> set xs. \<not> P x)"
  by (induction xs arbitrary: i) auto

lemma find_from_0:
  "find_from P xs 0 = Some k \<longleftrightarrow> k < length xs \<and> P (xs ! k) \<and> (\<forall>j < k. \<not> P (xs ! j))"
proof
  assume "find_from P xs 0 = Some k"
  then show "k < length xs \<and> P (xs ! k) \<and> (\<forall>j < k. \<not> P (xs ! j))"
    using find_from_Some [of P xs 0 k] by simp
next
  assume *: "k < length xs \<and> P (xs ! k) \<and> (\<forall>j < k. \<not> P (xs ! j))"
  then have "find_from P xs 0 \<noteq> None"
    by (auto simp: find_from_None)
  then obtain k' where k': "find_from P xs 0 = Some k'" by blast
  with find_from_Some [OF k'] * have "k' = k"
    by (metis diff_zero linorder_neqE_nat)
  with k' show "find_from P xs 0 = Some k" by simp
qed

lemma find_from_map: "find_from P (map f xs) i = find_from (\<lambda>x. P (f x)) xs i"
  by (induction xs arbitrary: i) auto

lemma find_upt_find_from:
  "find (\<lambda>i. P (xs ! i)) [0..<length xs] = find_from P xs 0"
proof (cases "find_from P xs 0")
  case None
  then have "find (\<lambda>i. P (xs ! i)) [0..<length xs] = None"
    by (auto simp: find_from_None find_None_iff)
  with None show ?thesis by simp
next
  case (Some k)
  then have k: "k < length xs" "P (xs ! k)" "\<forall>j < k. \<not> P (xs ! j)"
    by (simp_all add: find_from_0)
  then have "find (\<lambda>i. P (xs ! i)) [0..<length xs] = Some k"
    by (auto simp: find_Some_iff intro!: exI [of _ k])
  with Some show ?thesis by simp
qed

text \<open>A loop that looks for an element and leaves at the first one it acts on.\<close>

lemma firstM_scan_None:
  "find (\<lambda>i. P (g s i)) xs = None \<Longrightarrow>
     firstM xs (\<lambda>i. bnd (get (\<lambda>s. g s i)) (\<lambda>p. if P p then m i p else ret None)) s es = Ret None s es"
  by (induction xs) (auto simp: krun split: if_splits)

lemma firstM_scan_Some:
  "find (\<lambda>i. P (g s i)) xs = Some i \<Longrightarrow> m i (g s i) s es = Ret (Some v) s' es' \<Longrightarrow>
     firstM xs (\<lambda>i. bnd (get (\<lambda>s. g s i)) (\<lambda>p. if P p then m i p else ret None)) s es = Ret (Some v) s' es'"
  by (induction xs) (auto simp: krun split: if_splits)

end
