(* ===== verification/Mem_String.thy ===== *)
theory Mem_String
  imports Prelude
begin

text \<open>
  Byte-addressed memory and the routines of \<^verbatim>\<open>string.c\<close> on it.  Memory is a function from
  32-bit addresses to bytes, so pointers into the same object alias exactly as they do in C;
  pointer arithmetic wraps at \<open>2 ^ 32\<close>.  \<^verbatim>\<open>load32\<close> and \<^verbatim>\<open>store32\<close> are the little-endian word
  accesses of the i386.
\<close>

type_synonym mem = "u32 \<Rightarrow> u8"

definition load32 :: "mem \<Rightarrow> u32 \<Rightarrow> u32" where
  "load32 m a =
     ucast (m a) OR push_bit 8 (ucast (m (a + 1)))
     OR push_bit 16 (ucast (m (a + 2))) OR push_bit 24 (ucast (m (a + 3)))"

definition store32 :: "mem \<Rightarrow> u32 \<Rightarrow> u32 \<Rightarrow> mem" where
  "store32 m a v = m(a := ucast v, a + 1 := ucast (drop_bit 8 v),
     a + 2 := ucast (drop_bit 16 v), a + 3 := ucast (drop_bit 24 v))"

section \<open>The routines of string.c\<close>

text \<open>The string instructions \<^verbatim>\<open>rep stosb\<close> and \<^verbatim>\<open>rep stosl\<close> of \<^verbatim>\<open>x86.h\<close>.\<close>

primrec stosb :: "mem \<Rightarrow> u32 \<Rightarrow> u8 \<Rightarrow> nat \<Rightarrow> mem" where
  "stosb m a c 0 = m"
| "stosb m a c (Suc n) = stosb (m(a := c)) (a + 1) c n"

primrec stosl :: "mem \<Rightarrow> u32 \<Rightarrow> u32 \<Rightarrow> nat \<Rightarrow> mem" where
  "stosl m a w 0 = m"
| "stosl m a w (Suc n) = stosl (store32 m a w) (a + 4) w n"

definition memset :: "mem \<Rightarrow> u32 \<Rightarrow> u32 \<Rightarrow> u32 \<Rightarrow> mem" where
  "memset m dst c n =
     (if dst mod 4 = 0 \<and> n mod 4 = 0 then
        (let c' = c AND 0xFF
         in stosl m dst (push_bit 24 c' OR push_bit 16 c' OR push_bit 8 c' OR c') (unat (n div 4)))
      else stosb m dst (ucast c) (unat n))"

primrec memcmp :: "mem \<Rightarrow> u32 \<Rightarrow> u32 \<Rightarrow> nat \<Rightarrow> int" where
  "memcmp m s1 s2 0 = 0"
| "memcmp m s1 s2 (Suc n) =
     (if m s1 \<noteq> m s2 then uint (m s1) - uint (m s2) else memcmp m (s1 + 1) (s2 + 1) n)"

primrec copy_down :: "mem \<Rightarrow> u32 \<Rightarrow> u32 \<Rightarrow> nat \<Rightarrow> mem" where
  "copy_down m d s 0 = m"
| "copy_down m d s (Suc n) = copy_down (m(d - 1 := m (s - 1))) (d - 1) (s - 1) n"

primrec copy_up :: "mem \<Rightarrow> u32 \<Rightarrow> u32 \<Rightarrow> nat \<Rightarrow> mem" where
  "copy_up m d s 0 = m"
| "copy_up m d s (Suc n) = copy_up (m(d := m s)) (d + 1) (s + 1) n"

definition memmove :: "mem \<Rightarrow> u32 \<Rightarrow> u32 \<Rightarrow> u32 \<Rightarrow> mem" where
  "memmove m dst src n =
     (if src < dst \<and> src + n > dst
      then copy_down m (dst + n) (src + n) (unat n)
      else copy_up m dst src (unat n))"

definition memcpy :: "mem \<Rightarrow> u32 \<Rightarrow> u32 \<Rightarrow> u32 \<Rightarrow> mem" where
  "memcpy m dst src n = memmove m dst src n"

primrec strncmp :: "mem \<Rightarrow> u32 \<Rightarrow> u32 \<Rightarrow> nat \<Rightarrow> int" where
  "strncmp m p q 0 = 0"
| "strncmp m p q (Suc n) =
     (if m p \<noteq> 0 \<and> m p = m q then strncmp m (p + 1) (q + 1) n
      else uint (m p) - uint (m q))"

text \<open>\<^verbatim>\<open>strncpy\<close>: the copying loop with the number of bytes left, then the zero padding.
  A non-positive \<open>n\<close> copies nothing.\<close>

primrec strncpy_loop :: "mem \<Rightarrow> u32 \<Rightarrow> u32 \<Rightarrow> nat \<Rightarrow> mem" where
  "strncpy_loop m s t 0 = m"
| "strncpy_loop m s t (Suc n) =
     (let m' = m(s := m t)
      in if m t \<noteq> 0 then strncpy_loop m' (s + 1) (t + 1) n
         else stosb m' (s + 1) 0 n)"

definition strncpy :: "mem \<Rightarrow> u32 \<Rightarrow> u32 \<Rightarrow> int \<Rightarrow> mem" where
  "strncpy m s t n = strncpy_loop m s t (nat n)"

text \<open>\<^verbatim>\<open>safestrcpy\<close>: \<open>k\<close> is the number of bytes the loop may still copy.\<close>

primrec safestrcpy_loop :: "mem \<Rightarrow> u32 \<Rightarrow> u32 \<Rightarrow> nat \<Rightarrow> mem" where
  "safestrcpy_loop m s t 0 = m(s := 0)"
| "safestrcpy_loop m s t (Suc k) =
     (let m' = m(s := m t)
      in if m t \<noteq> 0 then safestrcpy_loop m' (s + 1) (t + 1) k
         else m'(s + 1 := 0))"

definition safestrcpy :: "mem \<Rightarrow> u32 \<Rightarrow> u32 \<Rightarrow> int \<Rightarrow> mem" where
  "safestrcpy m s t n = (if n \<le> 0 then m else safestrcpy_loop m s t (nat n - 1))"

text \<open>\<^verbatim>\<open>strlen\<close> runs until it meets a zero byte; on a memory without one it does not return.\<close>

partial_function (option) strlen_loop :: "mem \<Rightarrow> u32 \<Rightarrow> nat \<Rightarrow> nat option" where
  "strlen_loop m s n = (if m (s + of_nat n) = 0 then Some n else strlen_loop m s (Suc n))"

definition strlen :: "mem \<Rightarrow> u32 \<Rightarrow> nat option" where
  "strlen m s = strlen_loop m s 0"

section \<open>Words in memory\<close>

lemma load32_store32_same: "load32 (store32 m a v) a = v"
proof (rule bit_word_eqI)
  fix n :: nat
  assume "n < LENGTH(32)"
  then consider "n < 8" | "8 \<le> n" "n < 16" | "16 \<le> n" "n < 24" | "24 \<le> n" "n < 32"
    by fastforce
  then show "bit (load32 (store32 m a v) a) n \<longleftrightarrow> bit v n"
    by cases (auto simp: load32_def store32_def bit_simps)
qed

lemma unat_u32: "unat (x :: u32) < 2 ^ 32" "unat (x :: u32) \<le> 2 ^ 32"
  using unsigned_less [of x, where ?'a = nat] by simp_all

lemma unat_of_nat_u32: "n < 2 ^ 32 \<Longrightarrow> unat (of_nat n :: u32) = n"
  by (simp add: unsigned_of_nat take_bit_nat_eq_self)

text \<open>Aligned blocks whose size divides the address space do not wrap.\<close>

lemma unat_add_block:
  fixes a i :: u32
  assumes "n dvd unat a" "n dvd 2 ^ 32" "unat i < n"
  shows "unat (a + i) = unat a + unat i"
proof -
  have "unat a < 2 ^ 32" by (rule unat_u32)
  moreover obtain k j where "unat a = n * k" "2 ^ 32 = n * j"
    using assms(1,2) by (elim dvdE)
  ultimately have "n * k < n * j" by simp
  then have "n * Suc k \<le> n * j" by (intro mult_le_mono2) simp
  then have "unat a + n \<le> 2 ^ 32"
    using \<open>unat a = n * k\<close> \<open>2 ^ 32 = n * j\<close> by simp
  with assms(3) have "unat a + unat i < 2 ^ LENGTH(32)" by simp
  then show ?thesis by (rule unat_add_lem [THEN iffD1])
qed

lemma block_offset_inj:
  fixes a b i j :: u32
  assumes "n dvd unat a" "n dvd unat b" "n dvd 2 ^ 32" "unat i < n" "unat j < n"
    and "a + i = b + j"
  shows "a = b"
proof -
  have "(unat a + unat i) div n = (unat b + unat j) div n"
    using assms by (metis unat_add_block)
  then have "unat a div n = unat b div n"
    using assms by (simp add: div_plus_div_distrib_dvd_left)
  with assms(1,2) have "unat a = unat b"
    by (metis dvd_div_mult_self)
  then show ?thesis by (simp add: word_unat_eq_iff)
qed

text \<open>Word accesses at different multiples of four do not overlap.\<close>

definition aligned4 :: "u32 \<Rightarrow> bool" where
  "aligned4 a \<longleftrightarrow> 4 dvd unat a"

lemma load32_store32_other:
  assumes "aligned4 a" "aligned4 b" "a \<noteq> b"
  shows "load32 (store32 m a v) b = load32 m b"
proof -
  have neq: "b + j \<noteq> a + i" if "unat i < 4" "unat j < 4" for i j
    using block_offset_inj [of 4 b a j i] assms that by (auto simp: aligned4_def)
  have "b + j \<noteq> a" if "unat j < 4" for j using neq [of 0 j] that by simp
  moreover have "b \<noteq> a + i" if "unat i < 4" for i using neq [of i 0] that by simp
  ultimately show ?thesis
    using neq assms(3) unfolding load32_def store32_def by simp
qed

section \<open>memset fills exactly its range\<close>

text \<open>\<open>in_range a d n\<close>: address \<open>a\<close> is one of the \<open>n\<close> bytes from \<open>d\<close> on.\<close>

definition in_range :: "u32 \<Rightarrow> u32 \<Rightarrow> nat \<Rightarrow> bool" where
  "in_range a d n \<longleftrightarrow> unat (a - d) < n"

lemma in_range_Suc:
  "n < 2 ^ 32 \<Longrightarrow> in_range a d (Suc n) \<longleftrightarrow> a = d \<or> in_range a (d + 1) n"
proof (cases "a = d")
  case False
  then have "a - d \<noteq> 0" by simp
  then have "unat (a - d - 1) = unat (a - d) - 1" "unat (a - d) \<noteq> 0"
    by (auto simp: unat_minus_one unat_eq_0)
  then show ?thesis
    using False by (auto simp: in_range_def diff_diff_eq [symmetric])
qed (simp add: in_range_def)

lemma not_in_range_start: "n < 2 ^ 32 \<Longrightarrow> \<not> in_range d (d + 1) n"
  by (simp add: in_range_def unsigned_minus_1_eq_mask mask_eq_exp_minus_1)

lemma stosb_apply:
  "n \<le> 2 ^ 32 \<Longrightarrow> stosb m d c n a = (if in_range a d n then c else m a)"
proof (induction n arbitrary: m d)
  case (Suc n)
  then show ?case by (auto simp: in_range_Suc)
qed (simp add: in_range_def)

lemma stosb_add: "stosb m a c (i + j) = stosb (stosb m a c i) (a + of_nat i) c j"
  by (induction i arbitrary: m a) (simp_all add: ac_simps)

abbreviation fill_word :: "u32 \<Rightarrow> u32" where
  "fill_word c \<equiv> push_bit 24 c OR push_bit 16 c OR push_bit 8 c OR c"

lemma fill_word_bytes:
  fixes c :: u32
  assumes "c' = c AND 0xFF"
  shows "ucast (fill_word c') = (ucast c :: u8)"
    and "ucast (drop_bit 8 (fill_word c')) = (ucast c :: u8)"
    and "ucast (drop_bit 16 (fill_word c')) = (ucast c :: u8)"
    and "ucast (drop_bit 24 (fill_word c')) = (ucast c :: u8)"
proof -
  have m: "0xFF = (mask 8 :: u32)" by (simp add: mask_eq_exp_minus_1)
  show "ucast (fill_word c') = (ucast c :: u8)"
    and "ucast (drop_bit 8 (fill_word c')) = (ucast c :: u8)"
    and "ucast (drop_bit 16 (fill_word c')) = (ucast c :: u8)"
    and "ucast (drop_bit 24 (fill_word c')) = (ucast c :: u8)"
    unfolding assms m by (rule bit_word_eqI, auto simp: bit_simps)+
qed

lemma stosl_stosb:
  "stosl m a (fill_word (c AND 0xFF)) n = stosb m a (ucast c) (4 * n)"
proof (induction n arbitrary: m a)
  case (Suc n)
  have four: "stosb m a (ucast c) 4 = store32 m a (fill_word (c AND 0xFF))"
    unfolding store32_def fill_word_bytes [OF refl, of c]
    by (simp add: numeral_eq_Suc add.assoc)
  have "stosb m a (ucast c) (4 * Suc n) = stosb (stosb m a (ucast c) 4) (a + 4) (ucast c) (4 * n)"
    using stosb_add [of m a "ucast c" 4 "4 * n"] by simp
  with Suc.IH [of "store32 m a (fill_word (c AND 0xFF))" "a + 4"] show ?case
    by (simp add: four)
qed simp

text \<open>Both branches of \<^verbatim>\<open>memset\<close>, the word fill and the byte fill, write the low byte of \<open>c\<close>
  to the \<open>n\<close> bytes from \<open>dst\<close> on and leave the rest of the memory alone.\<close>

lemma memset_apply:
  "memset m dst c n a = (if in_range a dst (unat n) then ucast c else m a)"
proof -
  have bound: "unat n \<le> 2 ^ 32" by (rule unat_u32)
  have "unat (n mod 4) = 0 \<Longrightarrow> 4 * unat (n div 4) = unat n"
    by (simp add: unat_mod unat_div) presburger
  then show ?thesis
    unfolding memset_def Let_def stosl_stosb
    by (auto simp: stosb_apply [OF bound])
qed

section \<open>memmove copies, overlapping or not\<close>

lemma copy_up_apply:
  assumes "n < 2 ^ 32" "\<not> (1 \<le> unat (d - s) \<and> unat (d - s) < n)"
  shows "copy_up m d s n a = (if in_range a d n then m (s + (a - d)) else m a)"
  using assms
proof (induction n arbitrary: m d s)
  case (Suc n)
  have shift: "s + 1 + (a - (d + 1)) = s + (a - d)" "d + 1 - (s + 1) = d - s" by simp_all
  have IH: "copy_up (m(d := m s)) (d + 1) (s + 1) n a =
      (if in_range a (d + 1) n then (m(d := m s)) (s + (a - d)) else (m(d := m s)) a)"
  proof -
    have "n < 2 ^ 32" "\<not> (1 \<le> unat (d + 1 - (s + 1)) \<and> unat (d + 1 - (s + 1)) < n)"
      using Suc.prems unfolding shift by auto
    from Suc.IH [OF this, of "m(d := m s)"] show ?thesis unfolding shift .
  qed
  show ?case
  proof (cases "in_range a (d + 1) n")
    case True
    have "s + (a - d) \<noteq> d"
    proof
      assume "s + (a - d) = d"
      then have eq: "a - d = d - s" by (simp add: algebra_simps)
      have "a \<noteq> d" using True not_in_range_start [of n d] Suc.prems(1) by auto
      then have "unat (a - d) \<noteq> 0" by (simp add: unat_eq_0)
      moreover have "in_range a d (Suc n)"
        using True Suc.prems(1) by (simp add: in_range_Suc)
      ultimately show False
        using Suc.prems(2) eq by (auto simp: in_range_def)
    qed
    with True IH Suc.prems(1) show ?thesis by (simp add: in_range_Suc)
  next
    case False
    with IH Suc.prems(1) show ?thesis by (auto simp: in_range_Suc)
  qed
qed (simp add: in_range_def)

lemma in_range_Suc_last:
  assumes "n < 2 ^ 32"
  shows "in_range a d (Suc n) \<longleftrightarrow> a = d + of_nat n \<or> in_range a d n"
proof -
  have "a = d + of_nat n \<longleftrightarrow> a - d = of_nat n"
    by (auto simp: algebra_simps)
  also have "\<dots> \<longleftrightarrow> unat (a - d) = n"
    using assms by (metis unat_of_nat_u32 word_unat_eq_iff)
  finally show ?thesis by (auto simp: in_range_def)
qed

lemma copy_down_apply:
  assumes "n < 2 ^ 32" "\<not> (1 \<le> unat (s - d) \<and> unat (s - d) < n)"
  shows "copy_down m (d + of_nat n) (s + of_nat n) n a =
    (if in_range a d n then m (s + (a - d)) else m a)"
  using assms
proof (induction n arbitrary: m)
  case (Suc n)
  let ?m = "m(d + of_nat n := m (s + of_nat n))"
  have n: "n < 2 ^ 32" using Suc.prems(1) by simp
  have IH: "copy_down ?m (d + of_nat n) (s + of_nat n) n a =
      (if in_range a d n then ?m (s + (a - d)) else ?m a)"
    by (rule Suc.IH) (use Suc.prems in auto)
  have step: "copy_down m (d + of_nat (Suc n)) (s + of_nat (Suc n)) (Suc n) =
      copy_down ?m (d + of_nat n) (s + of_nat n) n"
    by (simp add: algebra_simps)
  show ?case
  proof (cases "in_range a d n")
    case True
    have "s + (a - d) \<noteq> d + of_nat n"
    proof
      assume "s + (a - d) = d + of_nat n"
      then have eq: "s - d = of_nat n - (a - d)" by (simp add: algebra_simps)
      have "a - d \<le> of_nat n"
        using True n by (simp add: in_range_def word_le_nat_alt unat_of_nat_u32)
      then have "unat (s - d) = n - unat (a - d)"
        unfolding eq using n unat_sub [of "a - d" "of_nat n"] by (simp only: unat_of_nat_u32)
      with True Suc.prems(2) show False by (auto simp: in_range_def)
    qed
    with True IH step n show ?thesis by (simp add: in_range_Suc_last)
  next
    case False
    with IH step n show ?thesis by (auto simp: in_range_Suc_last)
  qed
qed (simp add: in_range_def)

text \<open>When neither block runs over the end of the address space, \<^verbatim>\<open>memmove\<close> leaves at \<open>dst\<close>
  what was at \<open>src\<close> before the call, also when the blocks overlap, and changes nothing else.\<close>

lemma memmove_apply:
  assumes "unat src + unat n < 2 ^ 32" "unat dst + unat n \<le> 2 ^ 32"
  shows "memmove m dst src n a = (if in_range a dst (unat n) then m (src + (a - dst)) else m a)"
proof -
  have n: "unat n < 2 ^ 32" by (rule unat_u32)
  have sum: "unat (src + n) = unat src + unat n"
    using assms(1) by (simp add: unat_word_ariths)
  show ?thesis
  proof (cases "src < dst \<and> src + n > dst")
    case True
    then have lt: "unat src < unat dst" by (simp add: word_less_nat_alt)
    have "unat (src - dst) = 2 ^ 32 + unat src - unat dst"
      using lt by (simp add: unat_sub_if_size word_size)
    then have "\<not> (1 \<le> unat (src - dst) \<and> unat (src - dst) < unat n)"
      using assms(2) lt by auto
    from copy_down_apply [OF n this, of m a] True show ?thesis
      by (simp add: memmove_def)
  next
    case False
    have "\<not> (1 \<le> unat (dst - src) \<and> unat (dst - src) < unat n)"
    proof (cases "unat src < unat dst")
      case True
      then show ?thesis
        using False sum by (auto simp: word_less_nat_alt unat_sub_if_size)
    next
      case ge: False
      then show ?thesis
        using assms(1) by (auto simp: unat_sub_if_size word_size)
    qed
    from copy_up_apply [OF n this, of m a] False show ?thesis
      by (auto simp: memmove_def)
  qed
qed

section \<open>Zero-terminated strings\<close>

text \<open>\<open>cstring m a xs\<close>: the C string at \<open>a\<close> is \<open>xs\<close>.\<close>

primrec cstring :: "mem \<Rightarrow> u32 \<Rightarrow> u8 list \<Rightarrow> bool" where
  "cstring m a [] \<longleftrightarrow> m a = 0"
| "cstring m a (x # xs) \<longleftrightarrow> m a = x \<and> x \<noteq> 0 \<and> cstring m (a + 1) xs"

lemma cstring_nth: "cstring m a xs \<Longrightarrow> i < length xs \<Longrightarrow> m (a + of_nat i) = xs ! i \<and> xs ! i \<noteq> 0"
proof (induction xs arbitrary: a i)
  case (Cons x xs)
  then show ?case
    using Cons.IH [of "a + 1" "i - 1"] by (cases i) (auto simp: ac_simps)
qed simp

lemma cstring_end: "cstring m a xs \<Longrightarrow> m (a + of_nat (length xs)) = 0"
proof (induction xs arbitrary: a)
  case (Cons x xs)
  then show ?case using Cons.IH [of "a + 1"] by (simp add: ac_simps)
qed simp

lemma cstring_cong:
  "(\<And>i. i \<le> length xs \<Longrightarrow> m' (a + of_nat i) = m (a + of_nat i)) \<Longrightarrow>
     cstring m' a xs = cstring m a xs"
proof (induction xs arbitrary: a)
  case Nil
  from Nil [of 0] show ?case by simp
next
  case (Cons x xs)
  have "m' (a + 1 + of_nat i) = m (a + 1 + of_nat i)" if "i \<le> length xs" for i
    using Cons.prems [of "Suc i"] that by (simp add: ac_simps)
  with Cons.IH [of "a + 1"] Cons.prems [of 0] show ?case by simp
qed

lemma strlen_loop_cstring:
  "cstring m (s + of_nat n) xs \<Longrightarrow> strlen_loop m s n = Some (n + length xs)"
proof (induction xs arbitrary: n)
  case Nil
  then show ?case by (simp add: strlen_loop.simps)
next
  case (Cons x xs)
  have "cstring m (s + of_nat (Suc n)) xs" using Cons.prems by (simp add: ac_simps)
  from Cons.IH [OF this] Cons.prems show ?case
    by (subst strlen_loop.simps) simp
qed

lemma strlen_cstring: "cstring m s xs \<Longrightarrow> strlen m s = Some (length xs)"
  using strlen_loop_cstring [of m s 0 xs] by (simp add: strlen_def)

text \<open>\<^verbatim>\<open>strncmp\<close> returns 0 exactly on strings that agree on their first \<open>n\<close> bytes.\<close>

lemma strncmp_eq_0:
  "cstring m p xs \<Longrightarrow> cstring m q ys \<Longrightarrow> strncmp m p q n = 0 \<longleftrightarrow> take n xs = take n ys"
proof (induction n arbitrary: p q xs ys)
  case (Suc n)
  then show ?case by (cases xs; cases ys) (auto simp: uint_0_iff dest: word_uint_eq_iff [THEN iffD2])
qed simp

text \<open>\<^verbatim>\<open>safestrcpy\<close> into a buffer of \<open>n\<close> bytes that the source string does not touch: the buffer
  then holds a terminated string, the first \<open>n - 1\<close> bytes of the source, and no byte
  outside the buffer has changed.\<close>

lemma safestrcpy_loop_cstring:
  assumes "Suc k < 2 ^ 32" "cstring m t xs"
    and "\<And>i. i \<le> length xs \<Longrightarrow> \<not> in_range (t + of_nat i) s (Suc k)"
  shows "cstring (safestrcpy_loop m s t k) s (take k xs) \<and>
    (\<forall>a. \<not> in_range a s (Suc k) \<longrightarrow> safestrcpy_loop m s t k a = m a)"
  using assms
proof (induction k arbitrary: m s t xs)
  case 0
  then show ?case by (auto simp: in_range_def)
next
  case (Suc k)
  have s: "in_range s s (Suc (Suc k))" "in_range (s + 1) s (Suc (Suc k))"
    by (simp_all add: in_range_def)
  show ?case
  proof (cases xs)
    case Nil
    with Suc.prems s show ?thesis by (auto simp: Let_def)
  next
    case (Cons x ys)
    define m' where "m' = m(s := x)"
    have m': "m' s = x" "\<And>a. a \<noteq> s \<Longrightarrow> m' a = m a" by (simp_all add: m'_def)
    have x: "m t = x" "x \<noteq> 0" "cstring m (t + 1) ys" using Suc.prems(2) Cons by auto
    have step: "safestrcpy_loop m s t (Suc k) = safestrcpy_loop m' (s + 1) (t + 1) k"
      using x by (simp add: m'_def Let_def)
    have out: "\<not> in_range (t + 1 + of_nat i) s (Suc (Suc k))" if "i \<le> length ys" for i
      using Suc.prems(3) [of "Suc i"] that Cons by (simp add: ac_simps)
    then have "t + 1 + of_nat i \<noteq> s" if "i \<le> length ys" for i
      using s(1) that by auto
    then have c: "cstring m' (t + 1) ys"
      using x(3) m'(2) by (subst cstring_cong [of _ _ _ m]) auto
    have "\<not> in_range (t + 1 + of_nat i) (s + 1) (Suc k)" if "i \<le> length ys" for i
      using out [OF that] Suc.prems(1) by (simp add: in_range_Suc)
    from Suc.IH [OF _ c this] Suc.prems(1)
    have IH: "cstring (safestrcpy_loop m' (s + 1) (t + 1) k) (s + 1) (take k ys)"
      and frame: "\<And>a. \<not> in_range a (s + 1) (Suc k) \<Longrightarrow> safestrcpy_loop m' (s + 1) (t + 1) k a = m' a"
      by auto
    have "safestrcpy_loop m' (s + 1) (t + 1) k s = x"
      using frame [of s] not_in_range_start [of "Suc k" s] Suc.prems(1) m' by simp
    with IH frame x m' Cons Suc.prems(1) show ?thesis
      unfolding step by (auto simp: in_range_Suc)
  qed
qed

lemma safestrcpy_cstring:
  assumes "0 < n" "n < 2 ^ 31" "cstring m t xs"
    and "\<And>i. i \<le> length xs \<Longrightarrow> \<not> in_range (t + of_nat i) s (nat n)"
  shows "cstring (safestrcpy m s t n) s (take (nat n - 1) xs) \<and>
    (\<forall>a. \<not> in_range a s (nat n) \<longrightarrow> safestrcpy m s t n a = m a)"
proof -
  have "Suc (nat n - 1) = nat n" using assms(1) by simp
  with safestrcpy_loop_cstring [of "nat n - 1" m t xs s] assms show ?thesis
    by (simp add: safestrcpy_def)
qed

text \<open>\<^verbatim>\<open>strncpy\<close> copies the string and pads with zero bytes up to \<open>n\<close>; a string of \<open>n\<close> bytes or
  more is cut without a terminator.\<close>

lemma strncpy_loop_apply:
  assumes "n < 2 ^ 32" "cstring m t xs"
    and "\<And>i. i \<le> length xs \<Longrightarrow> \<not> in_range (t + of_nat i) s n"
  shows "(\<forall>i < n. strncpy_loop m s t n (s + of_nat i) = (if i < length xs then xs ! i else 0)) \<and>
    (\<forall>a. \<not> in_range a s n \<longrightarrow> strncpy_loop m s t n a = m a)"
  using assms
proof (induction n arbitrary: m s t xs)
  case (Suc n)
  have s: "in_range s s (Suc n)" by (simp add: in_range_def)
  have n: "n < 2 ^ 32" using Suc.prems(1) by simp
  have pos: "in_range (s + of_nat i) s (Suc n)" if "i < Suc n" for i
    using that Suc.prems(1) by (simp add: in_range_def unat_of_nat_u32)
  show ?case
  proof (cases xs)
    case Nil
    have "in_range (s + of_nat i) (s + 1) n" if "0 < i" "i < Suc n" for i
    proof -
      have "s + of_nat i \<noteq> s"
        using that Suc.prems(1) unat_of_nat_u32 [of i] by auto
      with pos [OF that(2)] n show ?thesis by (simp add: in_range_Suc)
    qed
    then have "strncpy_loop m s t (Suc n) (s + of_nat i) = 0" if "i < Suc n" for i
      using Nil Suc.prems n that not_in_range_start [OF n, of s]
      by (cases "i = 0") (simp_all add: Let_def stosb_apply)
    then show ?thesis
      using Nil Suc.prems n by (simp add: Let_def stosb_apply in_range_Suc)
  next
    case (Cons x ys)
    define m' where "m' = m(s := x)"
    have m': "m' s = x" "\<And>a. a \<noteq> s \<Longrightarrow> m' a = m a" by (simp_all add: m'_def)
    have x: "m t = x" "x \<noteq> 0" "cstring m (t + 1) ys" using Suc.prems(2) Cons by auto
    have step: "strncpy_loop m s t (Suc n) = strncpy_loop m' (s + 1) (t + 1) n"
      using x by (simp add: m'_def Let_def)
    have out: "\<not> in_range (t + 1 + of_nat i) s (Suc n)" if "i \<le> length ys" for i
      using Suc.prems(3) [of "Suc i"] that Cons by (simp add: ac_simps)
    then have "t + 1 + of_nat i \<noteq> s" if "i \<le> length ys" for i
      using s that by auto
    then have c: "cstring m' (t + 1) ys"
      using x(3) m'(2) by (subst cstring_cong [of _ _ _ m]) auto
    have "\<not> in_range (t + 1 + of_nat i) (s + 1) n" if "i \<le> length ys" for i
      using out [OF that] n by (simp add: in_range_Suc)
    from Suc.IH [OF n c this]
    have IH: "\<And>i. i < n \<Longrightarrow> strncpy_loop m' (s + 1) (t + 1) n (s + 1 + of_nat i) =
          (if i < length ys then ys ! i else 0)"
      and frame: "\<And>a. \<not> in_range a (s + 1) n \<Longrightarrow> strncpy_loop m' (s + 1) (t + 1) n a = m' a"
      by auto
    have hd: "strncpy_loop m' (s + 1) (t + 1) n s = x"
      using frame [of s] not_in_range_start [OF n, of s] m' by simp
    have "strncpy_loop m s t (Suc n) (s + of_nat i) = (if i < length xs then xs ! i else 0)"
      if "i < Suc n" for i
      unfolding step using hd IH [of "i - 1"] Cons that by (cases i) (auto simp: ac_simps)
    with frame m' n step show ?thesis by (auto simp: in_range_Suc)
  qed
qed (simp add: in_range_def)

lemma strncpy_apply:
  assumes "n < 2 ^ 31" "cstring m t xs"
    and "\<And>i. i \<le> length xs \<Longrightarrow> \<not> in_range (t + of_nat i) s (nat n)"
  shows "(\<forall>i < nat n. strncpy m s t n (s + of_nat i) = (if i < length xs then xs ! i else 0)) \<and>
    (\<forall>a. \<not> in_range a s (nat n) \<longrightarrow> strncpy m s t n a = m a)"
  using strncpy_loop_apply [of "nat n" m t xs s] assms by (simp add: strncpy_def)

section \<open>Properties\<close>

text \<open>C6: \<^verbatim>\<open>memmove\<close> copies correctly even when source and destination overlap: afterwards
  every byte of the destination holds what the corresponding byte of the source held before the
  call, and no other byte has changed.\<close>

theorem memmove_correct:
  assumes "unat src + unat n < 2 ^ 32" "unat dst + unat n \<le> 2 ^ 32"
  shows "memmove m dst src n a = (if in_range a dst (unat n) then m (src + (a - dst)) else m a)"
  using assms by (rule memmove_apply)

theorem memmove_correct_witness:
  "memmove (\<lambda>a. ucast a) 0x1002 0x1000 8 0x1004 = 2"
  using memmove_correct [where src = "0x1000" and n = 8 and dst = "0x1002" and
      m = "\<lambda>a. ucast a" and a = "0x1004"] by (simp add: in_range_def)

text \<open>C7: \<^verbatim>\<open>safestrcpy\<close> always leaves a terminated string: the destination holds the longest prefix
  of the source that fits with its terminator into \<open>n\<close> bytes, nothing outside those bytes
  changes, and \<^verbatim>\<open>strlen\<close> of the result is the length of that prefix.\<close>

theorem safestrcpy_terminates_string:
  assumes "0 < n" "n < 2 ^ 31" "cstring m t xs"
    and "\<And>i. i \<le> length xs \<Longrightarrow> \<not> in_range (t + of_nat i) s (nat n)"
  shows "cstring (safestrcpy m s t n) s (take (nat n - 1) xs) \<and>
    strlen (safestrcpy m s t n) s = Some (min (length xs) (nat n - 1)) \<and>
    (\<forall>a. \<not> in_range a s (nat n) \<longrightarrow> safestrcpy m s t n a = m a)"
  using safestrcpy_cstring [OF assms] strlen_cstring by fastforce

theorem safestrcpy_terminates_string_witness:
  "strlen (safestrcpy (\<lambda>a. if a = 100 \<or> a = 101 then 65 else 0) 200 100 2) 200 = Some 1"
proof -
  have "\<not> in_range (100 + of_nat i) 200 (nat 2)" if "i \<le> length [65, 65 :: u8]" for i
  proof -
    have "i = 0 \<or> i = 1 \<or> i = 2" using that by auto
    then show ?thesis by (auto simp: in_range_def)
  qed
  then show ?thesis
    using safestrcpy_terminates_string [of 2 "\<lambda>a. if a = 100 \<or> a = 101 then 65 else 0" 100 "[65, 65]" 200]
    by simp
qed

end
