(* ===== verification/Machine.thy ===== *)
theory Machine
  imports Mem_String
begin

text \<open>
  The processor as the kernel sees it: the constants and macros of \<^verbatim>\<open>mmu.h\<close>, \<^verbatim>\<open>memlayout.h\<close>
  and \<^verbatim>\<open>param.h\<close>, the per-CPU structure of \<^verbatim>\<open>proc.h\<close>, the lock structure of \<^verbatim>\<open>spinlock.h\<close>,
  and the record all kernel states extend: the machine and its memory.
\<close>

section \<open>Constants\<close>

abbreviation "NPROC \<equiv> 64 :: nat"
abbreviation "KSTACKSIZE \<equiv> 4096 :: u32"
abbreviation "NOFILE \<equiv> 16 :: nat"
abbreviation "NFILE \<equiv> 100 :: nat"
abbreviation "NINODE \<equiv> 50 :: nat"
abbreviation "NDEV \<equiv> 10 :: int"
abbreviation "ROOTDEV \<equiv> 1 :: u32"
abbreviation "MAXARG \<equiv> 32 :: nat"
abbreviation "MAXOPBLOCKS \<equiv> 10 :: int"
abbreviation "LOGSIZE \<equiv> 30 :: int"
abbreviation "NBUF \<equiv> 30 :: nat"

abbreviation "PGSIZE \<equiv> 4096 :: u32"
abbreviation "NPDENTRIES \<equiv> 1024 :: nat"
abbreviation "PTE_P \<equiv> 0x001 :: u32"
abbreviation "PTE_W \<equiv> 0x002 :: u32"
abbreviation "PTE_U \<equiv> 0x004 :: u32"
abbreviation "PTE_PS \<equiv> 0x080 :: u32"

abbreviation "EXTMEM \<equiv> 0x100000 :: u32"
abbreviation "PHYSTOP \<equiv> 0xE000000 :: u32"
abbreviation "DEVSPACE \<equiv> 0xFE000000 :: u32"
abbreviation "KERNBASE \<equiv> 0x80000000 :: u32"
abbreviation "KERNLINK \<equiv> KERNBASE + EXTMEM"

definition V2P :: "u32 \<Rightarrow> u32" where
  "V2P a = a - KERNBASE"

definition P2V :: "u32 \<Rightarrow> u32" where
  "P2V a = a + KERNBASE"

definition PDX :: "u32 \<Rightarrow> u32" where
  "PDX va = drop_bit 22 va AND 0x3FF"

definition PTX :: "u32 \<Rightarrow> u32" where
  "PTX va = drop_bit 12 va AND 0x3FF"

definition PGADDR :: "u32 \<Rightarrow> u32 \<Rightarrow> u32 \<Rightarrow> u32" where
  "PGADDR d t off = push_bit 22 d OR push_bit 12 t OR off"

definition PGROUNDUP :: "u32 \<Rightarrow> u32" where
  "PGROUNDUP sz = (sz + PGSIZE - 1) AND NOT (PGSIZE - 1)"

definition PGROUNDDOWN :: "u32 \<Rightarrow> u32" where
  "PGROUNDDOWN a = a AND NOT (PGSIZE - 1)"

definition PTE_ADDR :: "u32 \<Rightarrow> u32" where
  "PTE_ADDR pte = pte AND NOT 0xFFF"

definition PTE_FLAGS :: "u32 \<Rightarrow> u32" where
  "PTE_FLAGS pte = pte AND 0xFFF"

section \<open>Segment descriptors\<close>

record segdesc =
  lim_15_0 :: "16 word"
  base_15_0 :: "16 word"
  base_23_16 :: "8 word"
  sd_type :: "4 word"
  sd_s :: "1 word"
  sd_dpl :: "2 word"
  sd_p :: "1 word"
  lim_19_16 :: "4 word"
  sd_avl :: "1 word"
  sd_rsv1 :: "1 word"
  sd_db :: "1 word"
  sd_g :: "1 word"
  base_31_24 :: "8 word"

definition SEG :: "4 word \<Rightarrow> u32 \<Rightarrow> u32 \<Rightarrow> 2 word \<Rightarrow> segdesc" where
  "SEG typ base lim dpl =
     \<lparr> lim_15_0 = ucast (drop_bit 12 lim AND 0xffff), base_15_0 = ucast (base AND 0xffff),
       base_23_16 = ucast (drop_bit 16 base AND 0xff), sd_type = typ, sd_s = 1, sd_dpl = dpl,
       sd_p = 1, lim_19_16 = ucast (drop_bit 28 lim), sd_avl = 0, sd_rsv1 = 0, sd_db = 1,
       sd_g = 1, base_31_24 = ucast (drop_bit 24 base) \<rparr>"

definition SEG16 :: "4 word \<Rightarrow> u32 \<Rightarrow> u32 \<Rightarrow> 2 word \<Rightarrow> segdesc" where
  "SEG16 typ base lim dpl =
     \<lparr> lim_15_0 = ucast (lim AND 0xffff), base_15_0 = ucast (base AND 0xffff),
       base_23_16 = ucast (drop_bit 16 base AND 0xff), sd_type = typ, sd_s = 1, sd_dpl = dpl,
       sd_p = 1, lim_19_16 = ucast (drop_bit 16 lim), sd_avl = 0, sd_rsv1 = 0, sd_db = 1,
       sd_g = 0, base_31_24 = ucast (drop_bit 24 base) \<rparr>"

section \<open>Locks, processors, the base of the kernel state\<close>

text \<open>Sleep locks sit in buffers and in cached inodes, which are named by their index.\<close>

datatype sleeplock_id = BufLock nat | InodeLock nat

text \<open>The spin locks of the kernel.  \<open>LocalLock\<close> is the lock \<^verbatim>\<open>reentrant_spinlock_test\<close> keeps on
  its stack, \<open>PipeLock p\<close> the lock in the pipe at address \<open>p\<close>, \<open>SleepLk l\<close> the spin lock
  inside a sleep lock.\<close>

datatype lockid =
    PtableLock | TicksLock | KmemLock | ConsLock | BcacheLock | IcacheLock | FtableLock
  | LogLock | IdeLock | PipeLock u32 | SleepLk sleeplock_id | LocalLock

record spinlock =
  locked :: bool
  lk_name :: string
  lk_cpu :: "nat option"
  lk_pcs :: "u32 list"
  lk_pid :: int

text \<open>\<^verbatim>\<open>struct cpu\<close>.  A \<^verbatim>\<open>struct proc *\<close> is an index into the process table, the null pointer
  is \<^term>\<open>None\<close>.  Of the task state segment only the fields the kernel writes are kept.\<close>

record cpu =
  apicid :: u8
  ts_esp0 :: u32
  ts_ss0 :: u16
  ts_iomb :: u16
  gdt :: "segdesc list"
  started :: u32
  ncli :: int
  intena :: bool
  cpu_proc :: "nat option"

text \<open>\<open>gdtr\<close> tells whose descriptor table the processor uses, \<open>task_reg\<close> is the task register;
  \<open>frame\<close> is the address of the first argument of the running function, from which
  \<^verbatim>\<open>getcallerpcs\<close> walks the saved frame pointers; \<open>lapic_id\<close> is what \<^verbatim>\<open>lapicid()\<close> reads.\<close>

record machine =
  IF :: bool
  cr3 :: u32
  task_reg :: u16
  gdtr :: "nat option"
  lapic_id :: u8
  frame :: u32
  cpus :: "cpu list"
  locks :: "lockid \<Rightarrow> spinlock"

record kbase =
  mach :: machine
  mem :: mem

definition upd_mach :: "(machine \<Rightarrow> machine) \<Rightarrow> ('z kbase_scheme, unit) kM" where
  "upd_mach f = upd (\<lambda>s. s\<lparr>mach := f (mach s)\<rparr>)"

definition upd_cpu :: "nat \<Rightarrow> (cpu \<Rightarrow> cpu) \<Rightarrow> ('z kbase_scheme, unit) kM" where
  "upd_cpu i f = upd_mach (\<lambda>m. m\<lparr>cpus := (cpus m)[i := f (cpus m ! i)]\<rparr>)"

definition upd_lock :: "lockid \<Rightarrow> (spinlock \<Rightarrow> spinlock) \<Rightarrow> ('z kbase_scheme, unit) kM" where
  "upd_lock L f = upd_mach (\<lambda>m. m\<lparr>locks := (locks m)(L := f (locks m L))\<rparr>)"

definition cli :: "('z kbase_scheme, unit) kM" where
  "cli = upd_mach (\<lambda>m. m\<lparr>IF := False\<rparr>)"

definition sti :: "('z kbase_scheme, unit) kM" where
  "sti = upd_mach (\<lambda>m. m\<lparr>IF := True\<rparr>)"

lemmas machine_run = upd_mach_def upd_cpu_def upd_lock_def cli_def sti_def

declare machine_run [krun]

section \<open>Address arithmetic\<close>

lemma V2P_P2V [simp]: "V2P (P2V a) = a" "P2V (V2P a) = a"
  by (simp_all add: V2P_def P2V_def)

lemma PGADDR_PDX_PTX: "PGADDR (PDX va) (PTX va) (va AND 0xFFF) = va"
proof -
  have m: "0x3FF = (mask 10 :: u32)" "0xFFF = (mask 12 :: u32)"
    by (simp_all add: mask_eq_exp_minus_1)
  show ?thesis
  proof (rule bit_word_eqI)
    fix n :: nat
    assume "n < LENGTH(32)"
    then consider "n < 12" | "12 \<le> n" "n < 22" | "22 \<le> n" "n < 32" by fastforce
    then show "bit (PGADDR (PDX va) (PTX va) (va AND 0xFFF)) n \<longleftrightarrow> bit va n"
      unfolding PGADDR_def PDX_def PTX_def m by cases (auto simp: bit_simps)
  qed
qed

lemma unat_PGROUNDDOWN: "unat (PGROUNDDOWN a) = unat a div 4096 * 4096"
proof -
  have "PGROUNDDOWN a = push_bit 12 (drop_bit 12 a)"
  proof (rule bit_word_eqI)
    fix n assume "n < LENGTH(32)"
    have m: "PGROUNDDOWN a = a AND NOT (mask 12)"
      by (simp add: PGROUNDDOWN_def mask_eq_exp_minus_1)
    show "bit (PGROUNDDOWN a) n \<longleftrightarrow> bit (push_bit 12 (drop_bit 12 a)) n"
      unfolding m using \<open>n < LENGTH(32)\<close> by (cases "n < 12") (auto simp: bit_simps)
  qed
  also have "unat \<dots> = unat a div 4096 * 4096"
  proof -
    have "unat (drop_bit 12 a) = unat a div 4096"
      by (simp add: drop_bit_eq_div unat_div)
    moreover have "unat a div 4096 * 4096 < 2 ^ 32"
      using unat_u32 [of a] by simp
    ultimately show ?thesis
      by (simp add: push_bit_eq_mult unat_word_ariths)
  qed
  finally show ?thesis .
qed

lemma PGROUNDUP_DOWN: "PGROUNDUP a = PGROUNDDOWN (a + 4095)"
  by (simp add: PGROUNDUP_def PGROUNDDOWN_def add.commute)

lemma unat_PGROUNDUP:
  "unat a + 4095 < 2 ^ 32 \<Longrightarrow> unat (PGROUNDUP a) = (unat a + 4095) div 4096 * 4096"
  by (simp add: PGROUNDUP_DOWN unat_PGROUNDDOWN unat_word_ariths)

end
