(* ===== verification/Spinlock.thy ===== *)
theory Spinlock
  imports Machine
begin

text \<open>
  The spin locks of \<^verbatim>\<open>spinlock.c\<close> and the processor lookup of \<^verbatim>\<open>proc.c\<close> they rest on.  The
  configuration is that of \<^verbatim>\<open>param.h\<close>, one processor, so no other processor can release a
  lock while \<^verbatim>\<open>acquire\<close> spins on it: spinning on a taken lock is the outcome \<^term>\<open>Spin\<close>.
  The section on runs reduces every operation to a function on the machine record; the locale
  \<open>critical_sections\<close> states the contract the rest of the kernel relies on.
\<close>

section \<open>The code\<close>

definition mycpu :: "('z kbase_scheme, nat) kM" where
  "mycpu =
     bnd (get (\<lambda>s. IF (mach s))) (\<lambda>fl.
     if fl then panic (''mycpu called with interrupts enabled'' @ [CHR 0x0A])
     else
       bnd (get (\<lambda>s. find_from (\<lambda>c. apicid c = lapic_id (mach s)) (cpus (mach s)) 0)) (\<lambda>r.
       case r of Some i \<Rightarrow> ret i | None \<Rightarrow> panic (''unknown apicid'' @ [CHR 0x0A])))"

definition cpuid :: "('z kbase_scheme, nat) kM" where
  "cpuid = mycpu"

definition get_cpu :: "nat \<Rightarrow> ('z kbase_scheme, cpu) kM" where
  "get_cpu i = get (\<lambda>s. cpus (mach s) ! i)"

definition pushcli :: "('z kbase_scheme, unit) kM" where
  "pushcli =
     bnd (get (\<lambda>s. IF (mach s))) (\<lambda>eflags.
     seq cli (
     bnd mycpu (\<lambda>i.
     bnd (get_cpu i) (\<lambda>c.
     seq (whenM (ncli c = 0) (upd_cpu i (\<lambda>c. c\<lparr>intena := eflags\<rparr>)))
         (upd_cpu i (\<lambda>c. c\<lparr>ncli := ncli c + 1\<rparr>))))))"

definition popcli :: "('z kbase_scheme, unit) kM" where
  "popcli =
     bnd (get (\<lambda>s. IF (mach s))) (\<lambda>fl.
     if fl then panic ''popcli - interruptible''
     else
       bnd mycpu (\<lambda>i.
       seq (upd_cpu i (\<lambda>c. c\<lparr>ncli := ncli c - 1\<rparr>)) (
       bnd (get_cpu i) (\<lambda>c.
       if ncli c < 0 then panic ''popcli''
       else whenM (ncli c = 0 \<and> intena c) sti))))"

definition holding :: "lockid \<Rightarrow> ('z kbase_scheme, bool) kM" where
  "holding L =
     seq pushcli (
     bnd (get (\<lambda>s. locks (mach s) L)) (\<lambda>lk.
     bnd (if locked lk then bnd mycpu (\<lambda>i. ret (lk_cpu lk = Some i)) else ret False) (\<lambda>r.
     seq popcli (ret r))))"

text \<open>\<^verbatim>\<open>getcallerpcs\<close>: the first loop follows the saved frame pointers for at most ten frames,
  the second clears the remaining entries.\<close>

primrec pcs_loop :: "mem \<Rightarrow> u32 \<Rightarrow> nat \<Rightarrow> u32 list" where
  "pcs_loop m ebp 0 = []"
| "pcs_loop m ebp (Suc n) =
     (if ebp = 0 \<or> ebp < KERNBASE \<or> ebp = 0xffffffff then []
      else load32 m (ebp + 4) # pcs_loop m (load32 m ebp) n)"

definition getcallerpcs :: "mem \<Rightarrow> u32 \<Rightarrow> u32 list" where
  "getcallerpcs m v =
     (let pcs = pcs_loop m (v - 8) 10 in pcs @ replicate (10 - length pcs) 0)"

definition initlock :: "lockid \<Rightarrow> string \<Rightarrow> ('z kbase_scheme, unit) kM" where
  "initlock L name = upd_lock L (\<lambda>lk. lk\<lparr>lk_name := name, locked := False, lk_cpu := None\<rparr>)"

text \<open>The loop \<^verbatim>\<open>while(xchg(&lk->locked, 1) != 0)\<close>.\<close>

definition xchg_locked :: "lockid \<Rightarrow> ('z kbase_scheme, unit) kM" where
  "xchg_locked L =
     bnd (get (\<lambda>s. locked (locks (mach s) L))) (\<lambda>l.
     if l then spin else upd_lock L (\<lambda>lk. lk\<lparr>locked := True\<rparr>))"

definition acquire :: "lockid \<Rightarrow> ('z kbase_scheme, unit) kM" where
  "acquire L =
     seq pushcli (
     bnd (holding L) (\<lambda>h.
     if h then panic ''acquire''
     else
       seq (xchg_locked L) (
       bnd mycpu (\<lambda>i.
       seq (upd_lock L (\<lambda>lk. lk\<lparr>lk_cpu := Some i\<rparr>))
           (upd (\<lambda>s. s\<lparr>mach := (mach s)\<lparr>locks := (locks (mach s))
              (L := (locks (mach s) L)\<lparr>lk_pcs := getcallerpcs (mem s) (frame (mach s))\<rparr>)\<rparr>\<rparr>))))))"

definition release :: "lockid \<Rightarrow> ('z kbase_scheme, unit) kM" where
  "release L =
     bnd (holding L) (\<lambda>h.
     if \<not> h then panic ''release''
     else
       seq (upd_lock L (\<lambda>lk. lk\<lparr>lk_pcs := (lk_pcs lk)[0 := 0], lk_cpu := None, lk_pid := 0\<rparr>)) (
       seq (upd_lock L (\<lambda>lk. lk\<lparr>locked := False\<rparr>)) popcli))"

section \<open>Runs as functions on the machine\<close>

text \<open>The processor the code runs on, its nesting depth, and when the lookup succeeds.\<close>

definition this_cpu :: "machine \<Rightarrow> nat option" where
  "this_cpu m = find_from (\<lambda>c. apicid c = lapic_id m) (cpus m) 0"

definition the_cpu :: "machine \<Rightarrow> cpu" where
  "the_cpu m = cpus m ! the (this_cpu m)"

definition depth :: "machine \<Rightarrow> int" where
  "depth m = ncli (the_cpu m)"

text \<open>The invariant of the machine: the processor is in the table, the nesting depth is not
  negative, and interrupts are off inside a \<^verbatim>\<open>pushcli\<close>.\<close>

definition mach_ok :: "machine \<Rightarrow> bool" where
  "mach_ok m \<longleftrightarrow> this_cpu m \<noteq> None \<and> 0 \<le> depth m \<and> (0 < depth m \<longrightarrow> \<not> IF m)"

definition holds :: "machine \<Rightarrow> lockid \<Rightarrow> bool" where
  "holds m L \<longleftrightarrow> locked (locks m L) \<and> lk_cpu (locks m L) = this_cpu m"

definition lock_free :: "machine \<Rightarrow> lockid \<Rightarrow> bool" where
  "lock_free m L \<longleftrightarrow> \<not> locked (locks m L)"

definition on_cpu :: "(cpu \<Rightarrow> cpu) \<Rightarrow> machine \<Rightarrow> machine" where
  "on_cpu f m = m\<lparr>cpus := (cpus m)[the (this_cpu m) := f (the_cpu m)]\<rparr>"

definition push :: "machine \<Rightarrow> machine" where
  "push m = on_cpu (\<lambda>c. c\<lparr>intena := (if ncli c = 0 then IF m else intena c), ncli := ncli c + 1\<rparr>)
     (m\<lparr>IF := False\<rparr>)"

definition pop :: "machine \<Rightarrow> machine" where
  "pop m = (on_cpu (\<lambda>c. c\<lparr>ncli := ncli c - 1\<rparr>) m)
     \<lparr>IF := (depth m = 1 \<and> intena (the_cpu m))\<rparr>"

definition acq :: "mem \<Rightarrow> lockid \<Rightarrow> machine \<Rightarrow> machine" where
  "acq h L m = (push m)\<lparr>locks := (locks m)(L := (locks m L)
     \<lparr>locked := True, lk_cpu := this_cpu m, lk_pcs := getcallerpcs h (frame m)\<rparr>)\<rparr>"

definition rel :: "lockid \<Rightarrow> machine \<Rightarrow> machine" where
  "rel L m = pop (m\<lparr>locks := (locks m)(L := (locks m L)
     \<lparr>lk_pcs := (lk_pcs (locks m L))[0 := 0], lk_cpu := None, lk_pid := 0, locked := False\<rparr>)\<rparr>)"

lemma this_cpu_bound: "this_cpu m = Some i \<Longrightarrow> i < length (cpus m) \<and> apicid (cpus m ! i) = lapic_id m"
  by (simp add: this_cpu_def find_from_0)

lemma this_cpu_cong:
  "lapic_id m' = lapic_id m \<Longrightarrow> map apicid (cpus m') = map apicid (cpus m) \<Longrightarrow>
     this_cpu m' = this_cpu m"
proof -
  have "this_cpu n = find_from (\<lambda>a. a = lapic_id n) (map apicid (cpus n)) 0" for n
    by (simp add: this_cpu_def find_from_map)
  then show "lapic_id m' = lapic_id m \<Longrightarrow> map apicid (cpus m') = map apicid (cpus m) \<Longrightarrow>
     this_cpu m' = this_cpu m" by metis
qed

lemma map_apicid_upd:
  "i < length cs \<Longrightarrow> apicid c = apicid (cs ! i) \<Longrightarrow> map apicid (cs[i := c]) = map apicid cs"
  by (simp add: map_update list_update_same_conv)

lemma this_cpu_on_cpu [simp]:
  assumes "\<And>c. apicid (f c) = apicid c" "this_cpu m \<noteq> None"
  shows "this_cpu (on_cpu f m) = this_cpu m" "the_cpu (on_cpu f m) = f (the_cpu m)"
proof -
  obtain i where i: "this_cpu m = Some i" using assms(2) by blast
  note b = this_cpu_bound [OF i]
  show *: "this_cpu (on_cpu f m) = this_cpu m"
    by (rule this_cpu_cong) (use b i assms(1) in \<open>auto simp: on_cpu_def the_cpu_def map_apicid_upd\<close>)
  show "the_cpu (on_cpu f m) = f (the_cpu m)"
    using b i unfolding the_cpu_def * by (simp add: on_cpu_def the_cpu_def)
qed

lemma this_cpu_upd [simp]:
  "this_cpu (m\<lparr>IF := b\<rparr>) = this_cpu m" "the_cpu (m\<lparr>IF := b\<rparr>) = the_cpu m"
  "this_cpu (m\<lparr>locks := l\<rparr>) = this_cpu m" "the_cpu (m\<lparr>locks := l\<rparr>) = the_cpu m"
  by (simp_all add: this_cpu_def the_cpu_def)

lemma on_cpu_frame [simp]:
  "locks (on_cpu f m) = locks m" "IF (on_cpu f m) = IF m" "frame (on_cpu f m) = frame m"
  "cr3 (on_cpu f m) = cr3 m" "lapic_id (on_cpu f m) = lapic_id m"
  "length (cpus (on_cpu f m)) = length (cpus m)"
  by (simp_all add: on_cpu_def)

lemma on_cpu_on_cpu:
  assumes "\<And>c. apicid (f c) = apicid c" "this_cpu m \<noteq> None"
  shows "on_cpu g (on_cpu f m) = on_cpu (\<lambda>c. g (f c)) m"
  using assms this_cpu_on_cpu [of f m, OF assms] by (simp add: on_cpu_def)

lemma on_cpu_IF: "on_cpu f (m\<lparr>IF := b\<rparr>) = (on_cpu f m)\<lparr>IF := b\<rparr>"
  by (simp add: on_cpu_def)

lemma on_cpu_locks: "on_cpu f (m\<lparr>locks := l\<rparr>) = (on_cpu f m)\<lparr>locks := l\<rparr>"
  by (simp add: on_cpu_def)

lemma on_cpu_id: "this_cpu m \<noteq> None \<Longrightarrow> f (the_cpu m) = the_cpu m \<Longrightarrow> on_cpu f m = m"
  by (simp add: on_cpu_def the_cpu_def)

lemma mycpu_run: "mach_ok (mach s) \<Longrightarrow> \<not> IF (mach s) \<Longrightarrow>
    mycpu s es = Ret (the (this_cpu (mach s))) s es"
  by (auto simp: mycpu_def mach_ok_def this_cpu_def krun)

lemma push_simps [simp]:
  assumes "this_cpu m \<noteq> None"
  shows "this_cpu (push m) = this_cpu m" "depth (push m) = depth m + 1"
    "IF (push m) = False" "locks (push m) = locks m" "frame (push m) = frame m"
    "intena (the_cpu (push m)) = (if depth m = 0 then IF m else intena (the_cpu m))"
    "cpu_proc (the_cpu (push m)) = cpu_proc (the_cpu m)" "cr3 (push m) = cr3 m"
  using assms by (simp_all add: push_def depth_def)

lemma pop_simps [simp]:
  assumes "this_cpu m \<noteq> None"
  shows "this_cpu (pop m) = this_cpu m" "depth (pop m) = depth m - 1"
    "IF (pop m) = (depth m = 1 \<and> intena (the_cpu m))" "locks (pop m) = locks m"
    "frame (pop m) = frame m" "intena (the_cpu (pop m)) = intena (the_cpu m)"
    "cpu_proc (the_cpu (pop m)) = cpu_proc (the_cpu m)" "cr3 (pop m) = cr3 m"
  using assms by (simp_all add: pop_def depth_def)

lemma mach_ok_push [simp]: "mach_ok m \<Longrightarrow> mach_ok (push m)"
  by (simp add: mach_ok_def)

lemma mach_ok_pop [simp]: "mach_ok m \<Longrightarrow> 0 < depth m \<Longrightarrow> mach_ok (pop m)"
  by (auto simp: mach_ok_def)

lemma pushcli_run:
  assumes "mach_ok (mach s)"
  shows "pushcli s es = Ret () (s\<lparr>mach := push (mach s)\<rparr>) es"
proof -
  obtain i where i: "this_cpu (mach s) = Some i" using assms by (auto simp: mach_ok_def)
  note b = this_cpu_bound [OF i]
  have "mycpu (s\<lparr>mach := (mach s)\<lparr>IF := False\<rparr>\<rparr>) es = Ret i (s\<lparr>mach := (mach s)\<lparr>IF := False\<rparr>\<rparr>) es"
    using mycpu_run [of "s\<lparr>mach := (mach s)\<lparr>IF := False\<rparr>\<rparr>" es] i assms
    by (simp add: mach_ok_def depth_def)
  then show ?thesis
    using b i by (simp add: pushcli_def get_cpu_def krun push_def on_cpu_def the_cpu_def)
qed

lemma popcli_run:
  assumes "mach_ok (mach s)" "0 < depth (mach s)"
  shows "popcli s es = Ret () (s\<lparr>mach := pop (mach s)\<rparr>) es"
proof -
  obtain i where i: "this_cpu (mach s) = Some i" using assms by (auto simp: mach_ok_def)
  note b = this_cpu_bound [OF i]
  have IF: "\<not> IF (mach s)" using assms by (simp add: mach_ok_def)
  then have "mycpu s es = Ret i s es"
    using mycpu_run [of s es] i assms(1) by simp
  then show ?thesis
    using b i IF assms(2)
    by (auto simp: popcli_def get_cpu_def krun pop_def on_cpu_def the_cpu_def depth_def)
qed

lemma pop_push:
  assumes "mach_ok m"
  shows "pop (push m) = on_cpu (\<lambda>c. c\<lparr>intena := (if ncli c = 0 then IF m else intena c)\<rparr>) m"
proof -
  have c: "this_cpu m \<noteq> None" using assms by (simp add: mach_ok_def)
  let ?f = "\<lambda>c. c\<lparr>intena := (if ncli c = 0 then IF m else intena c), ncli := ncli c + 1\<rparr>"
  have "pop (push m) = (on_cpu (\<lambda>c. c\<lparr>ncli := ncli c - 1\<rparr>) (on_cpu ?f m))
      \<lparr>IF := (depth m = 0 \<and> IF m)\<rparr>"
    using c unfolding pop_def push_def by (auto simp: depth_def on_cpu_IF)
  also have "\<dots> = (on_cpu (\<lambda>c. c\<lparr>intena := (if ncli c = 0 then IF m else intena c)\<rparr>) m)
      \<lparr>IF := (depth m = 0 \<and> IF m)\<rparr>"
    using c by (simp add: on_cpu_on_cpu)
  also have "(depth m = 0 \<and> IF m) = IF m"
    using assms by (auto simp: mach_ok_def)
  finally show ?thesis by (simp add: on_cpu_def)
qed

lemma pop_push_nested: "mach_ok m \<Longrightarrow> 0 < depth m \<Longrightarrow> pop (push m) = m"
  by (simp add: pop_push on_cpu_id mach_ok_def depth_def)

lemma holding_run:
  assumes "mach_ok (mach s)" "0 < depth (mach s)"
  shows "holding L s es = Ret (holds (mach s) L) s es"
proof -
  let ?s = "s\<lparr>mach := push (mach s)\<rparr>"
  have c: "this_cpu (mach s) \<noteq> None" using assms(1) by (simp add: mach_ok_def)
  have "mycpu ?s es = Ret (the (this_cpu (mach s))) ?s es"
    using mycpu_run [of ?s es] assms c by simp
  moreover have "popcli ?s es = Ret () s es"
    using popcli_run [of ?s es] assms c by (simp add: pop_push_nested)
  ultimately show ?thesis
    using pushcli_run [OF assms(1), of es] c
    by (auto simp: holding_def krun holds_def)
qed

lemma depth_locks [simp]: "depth (m\<lparr>locks := l\<rparr>) = depth m"
  by (simp add: depth_def)

lemma mach_ok_locks [simp]: "mach_ok (m\<lparr>locks := l\<rparr>) = mach_ok m"
  by (simp add: mach_ok_def)

lemma acquire_run:
  assumes "mach_ok (mach s)" "lock_free (mach s) L"
  shows "acquire L s es = Ret () (s\<lparr>mach := acq (mem s) L (mach s)\<rparr>) es"
proof -
  have c: "this_cpu (mach s) \<noteq> None" using assms(1) by (simp add: mach_ok_def)
  let ?m = "push (mach s)"
  have d: "0 < depth ?m" using assms(1) c by (simp add: mach_ok_def)
  have h: "holding L (s\<lparr>mach := ?m\<rparr>) es = Ret False (s\<lparr>mach := ?m\<rparr>) es"
    using holding_run [of "s\<lparr>mach := ?m\<rparr>" L es] assms c d
    by (simp add: holds_def lock_free_def)
  let ?m1 = "?m\<lparr>locks := (locks (mach s))(L := (locks (mach s) L)\<lparr>locked := True\<rparr>)\<rparr>"
  have "mycpu (s\<lparr>mach := ?m1\<rparr>) es = Ret (the (this_cpu (mach s))) (s\<lparr>mach := ?m1\<rparr>) es"
    using mycpu_run [of "s\<lparr>mach := ?m1\<rparr>" es] assms c by simp
  with h pushcli_run [OF assms(1), of es] assms(2) c show ?thesis
    by (auto simp: acquire_def xchg_locked_def krun lock_free_def acq_def)
qed

lemma release_run:
  assumes "mach_ok (mach s)" "0 < depth (mach s)" "holds (mach s) L"
  shows "release L s es = Ret () (s\<lparr>mach := rel L (mach s)\<rparr>) es"
proof -
  have "popcli (s\<lparr>mach := (mach s)\<lparr>locks := l\<rparr>\<rparr>) es =
      Ret () (s\<lparr>mach := pop ((mach s)\<lparr>locks := l\<rparr>)\<rparr>) es" for l
    using popcli_run [of "s\<lparr>mach := (mach s)\<lparr>locks := l\<rparr>\<rparr>" es] assms by simp
  with holding_run [OF assms(1,2), of L es] assms(3) show ?thesis
    by (simp add: release_def krun rel_def)
qed

text \<open>Taking a lock one already holds, or releasing one that is not held, panics.\<close>

lemma acquire_held_panics:
  assumes "mach_ok (mach s)" "holds (mach s) L"
  shows "acquire L s es = Panic ''acquire''"
proof -
  have c: "this_cpu (mach s) \<noteq> None" using assms(1) by (simp add: mach_ok_def)
  have "holding L (s\<lparr>mach := push (mach s)\<rparr>) es = Ret True (s\<lparr>mach := push (mach s)\<rparr>) es"
    using holding_run [of "s\<lparr>mach := push (mach s)\<rparr>" L es] assms c
    by (simp add: mach_ok_def holds_def)
  with pushcli_run [OF assms(1), of es] show ?thesis by (simp add: acquire_def krun)
qed

lemma holding_run_any:
  assumes "mach_ok (mach s)"
  shows "holding L s es = Ret (holds (mach s) L) (s\<lparr>mach := pop (push (mach s))\<rparr>) es"
proof -
  let ?s = "s\<lparr>mach := push (mach s)\<rparr>"
  have c: "this_cpu (mach s) \<noteq> None" "0 \<le> depth (mach s)" using assms by (simp_all add: mach_ok_def)
  have "mycpu ?s es = Ret (the (this_cpu (mach s))) ?s es"
    using mycpu_run [of ?s es] assms c by simp
  moreover have "popcli ?s es = Ret () (s\<lparr>mach := pop (push (mach s))\<rparr>) es"
    using popcli_run [of ?s es] assms c by simp
  ultimately show ?thesis
    using pushcli_run [OF assms(1), of es] c by (auto simp: holding_def krun holds_def)
qed

lemma release_unheld_panics:
  assumes "mach_ok (mach s)" "\<not> holds (mach s) L"
  shows "release L s es = Panic ''release''"
  using holding_run_any [OF assms(1), of L es] assms(2) by (simp add: release_def krun)

lemma acquire_taken_spins:
  assumes "mach_ok (mach s)" "\<not> lock_free (mach s) L" "\<not> holds (mach s) L"
  shows "acquire L s es = Spin"
proof -
  have c: "this_cpu (mach s) \<noteq> None" using assms(1) by (simp add: mach_ok_def)
  have "holding L (s\<lparr>mach := push (mach s)\<rparr>) es = Ret False (s\<lparr>mach := push (mach s)\<rparr>) es"
    using holding_run [of "s\<lparr>mach := push (mach s)\<rparr>" L es] assms c
    by (simp add: mach_ok_def holds_def)
  with pushcli_run [OF assms(1), of es] assms(2) c show ?thesis
    by (simp add: acquire_def xchg_locked_def krun lock_free_def)
qed

section \<open>Critical sections: the set of locks held\<close>

text \<open>\<open>inside m\<^sub>0 A m\<close>: \<open>m\<close> is the machine \<open>m\<^sub>0\<close> after taking, and not yet releasing, exactly
  the locks \<open>A\<close>.  With \<open>A = {}\<close> the machine is back as it was: same interrupt flag, same
  nesting depth, same holder of every lock.\<close>

definition inside :: "machine \<Rightarrow> lockid set \<Rightarrow> machine \<Rightarrow> bool" where
  "inside m\<^sub>0 A m \<longleftrightarrow>
     finite A \<and> (\<forall>L \<in> A. lock_free m\<^sub>0 L \<and> holds m L) \<and>
     (\<forall>L. L \<notin> A \<longrightarrow> locked (locks m L) = locked (locks m\<^sub>0 L) \<and>
        (locked (locks m L) \<longrightarrow> lk_cpu (locks m L) = lk_cpu (locks m\<^sub>0 L))) \<and>
     this_cpu m = this_cpu m\<^sub>0 \<and> depth m = depth m\<^sub>0 + int (card A) \<and>
     IF m = (A = {} \<and> IF m\<^sub>0) \<and>
     (A \<noteq> {} \<or> 0 < depth m\<^sub>0 \<longrightarrow> intena (the_cpu m) = (if depth m\<^sub>0 = 0 then IF m\<^sub>0 else intena (the_cpu m\<^sub>0))) \<and>
     cpu_proc (the_cpu m) = cpu_proc (the_cpu m\<^sub>0) \<and> cr3 m = cr3 m\<^sub>0"

lemma inside_refl: "mach_ok m \<Longrightarrow> inside m {} m"
  by (auto simp: inside_def mach_ok_def)

lemma inside_ok: "mach_ok m\<^sub>0 \<Longrightarrow> inside m\<^sub>0 A m \<Longrightarrow> mach_ok m"
  by (auto simp: inside_def mach_ok_def)

lemma inside_free: "inside m\<^sub>0 A m \<Longrightarrow> lock_free m\<^sub>0 L \<Longrightarrow> L \<notin> A \<Longrightarrow> lock_free m L"
  by (auto simp: inside_def lock_free_def)

lemma inside_holds: "inside m\<^sub>0 A m \<Longrightarrow> L \<in> A \<Longrightarrow> holds m L"
  by (auto simp: inside_def)

lemma inside_depth: "mach_ok m\<^sub>0 \<Longrightarrow> inside m\<^sub>0 A m \<Longrightarrow> L \<in> A \<Longrightarrow> 0 < depth m"
proof -
  assume a: "mach_ok m\<^sub>0" "inside m\<^sub>0 A m" "L \<in> A"
  then have "0 < card A" by (auto simp: inside_def card_gt_0_iff)
  with a show "0 < depth m" by (simp add: inside_def mach_ok_def)
qed

lemma inside_acq:
  assumes ok: "mach_ok m\<^sub>0" and w: "inside m\<^sub>0 A m" and L: "lock_free m\<^sub>0 L" "L \<notin> A"
  shows "inside m\<^sub>0 (insert L A) (acq h L m)"
proof -
  have c: "this_cpu m \<noteq> None" "0 \<le> depth m" using inside_ok [OF ok w] by (simp_all add: mach_ok_def)
  have other: "\<And>L'. L' \<in> A \<Longrightarrow> L' \<noteq> L" using L(2) by auto
  have d0: "0 \<le> depth m\<^sub>0" using ok by (simp add: mach_ok_def)
  have card: "A \<noteq> {} \<Longrightarrow> 0 < card A" using w by (auto simp: inside_def card_gt_0_iff)
  show ?thesis
    using w L c d0 card other unfolding inside_def acq_def holds_def
    by (auto simp: add_nonneg_eq_0_iff)
qed

lemma inside_rel:
  assumes ok: "mach_ok m\<^sub>0" and w: "inside m\<^sub>0 A m" and L: "L \<in> A"
  shows "inside m\<^sub>0 (A - {L}) (rel L m)"
proof -
  have c: "this_cpu m \<noteq> None" using inside_ok [OF ok w] by (simp add: mach_ok_def)
  have d0: "0 \<le> depth m\<^sub>0" "0 < depth m\<^sub>0 \<longrightarrow> \<not> IF m\<^sub>0" using ok by (simp_all add: mach_ok_def)
  have fin: "finite A" using w by (simp add: inside_def)
  then have pos: "0 < card A" using L by (auto simp: card_gt_0_iff)
  then have card: "int (card (A - {L})) = int (card A) - 1"
    using L fin by (simp add: of_nat_diff)
  have single: "card A = 1 \<longleftrightarrow> A - {L} = {}"
    using L fin card by (metis card_0_eq card_Diff_singleton diff_is_0_eq' finite_Diff le_numeral_extra(4)
        le_antisym pos Suc_leI One_nat_def card.empty diff_is_0_eq)
  have one: "depth m = 1 \<longleftrightarrow> depth m\<^sub>0 = 0 \<and> A - {L} = {}"
    using w pos single d0 by (auto simp: inside_def)
  have IF: "IF (rel L m) = (A - {L} = {} \<and> IF m\<^sub>0)"
    using w c L one d0 unfolding rel_def inside_def by auto
  show ?thesis
    using w c L card IF unfolding inside_def rel_def holds_def lock_free_def
    by auto
qed

lemma inside_trans:
  assumes "mach_ok m\<^sub>0" "inside m\<^sub>0 {} m\<^sub>1" "inside m\<^sub>1 A m\<^sub>2"
  shows "inside m\<^sub>0 A m\<^sub>2"
  using assms unfolding inside_def lock_free_def mach_ok_def by auto

section \<open>Backward rules\<close>

lemma wp_acquire:
  assumes "mach_ok m\<^sub>0" "inside m\<^sub>0 A (mach s)" "lock_free m\<^sub>0 L" "L \<notin> A"
    and "\<And>m. inside m\<^sub>0 (insert L A) m \<Longrightarrow> Q () (s\<lparr>mach := m\<rparr>)"
  shows "wp (acquire L) Q s"
  using acquire_run [of s L] inside_ok [OF assms(1,2)] inside_free [OF assms(2-4)]
    inside_acq [OF assms(1-4)] assms(5)
  by (intro wp_runI) auto

lemma wp_release:
  assumes "mach_ok m\<^sub>0" "inside m\<^sub>0 A (mach s)" "L \<in> A"
    and "\<And>m. inside m\<^sub>0 (A - {L}) m \<Longrightarrow> Q () (s\<lparr>mach := m\<rparr>)"
  shows "wp (release L) Q s"
  using release_run [of s L] inside_ok [OF assms(1,2)] inside_depth [OF assms(1-3)]
    inside_holds [OF assms(2,3)] inside_rel [OF assms(1-3)] assms(4)
  by (intro wp_runI) auto

text \<open>Locks that are taken only once the kernel has started to use them.\<close>

lemma wp_acquire_if:
  assumes "mach_ok m\<^sub>0" "b \<Longrightarrow> lock_free m\<^sub>0 L" "inside m\<^sub>0 {} (mach s)"
    and "\<And>m. inside m\<^sub>0 (if b then {L} else {}) m \<Longrightarrow> Q () (s\<lparr>mach := m\<rparr>)"
  shows "wp (whenM b (acquire L)) Q s"
proof (cases b)
  case True
  then show ?thesis
    using assms by (auto simp: wps intro: wp_acquire)
next
  case False
  then show ?thesis
    using assms(3) assms(4) [of "mach s"] by (simp add: wps)
qed

lemma wp_release_if:
  assumes "mach_ok m\<^sub>0" "inside m\<^sub>0 (if b then {L} else {}) (mach s)"
    and "\<And>m. inside m\<^sub>0 {} m \<Longrightarrow> Q () (s\<lparr>mach := m\<rparr>)"
  shows "wp (whenM b (release L)) Q s"
proof (cases b)
  case True
  then show ?thesis
    using wp_release [of m\<^sub>0 "{L}" s L Q] assms by (simp add: wps)
next
  case False
  then show ?thesis
    using assms(2) assms(3) [of "mach s"] by (simp add: wps)
qed

section \<open>The contract of critical sections\<close>

text \<open>Taking and releasing locks, in any order, acts on the set of held locks as insertion and
  removal, and a run that releases all it took restores the machine.  A run is a list of
  \<open>(True, L)\<close> for taking \<open>L\<close> and \<open>(False, L)\<close> for releasing it.\<close>

locale critical_sections =
  fixes rep :: "'s \<Rightarrow> 'l set \<Rightarrow> 's \<Rightarrow> bool"
    and take_lock drop_lock :: "'l \<Rightarrow> ('s, unit) kM"
    and avail :: "'s \<Rightarrow> 'l \<Rightarrow> bool"
    and start :: "'s \<Rightarrow> bool"
  assumes rep_start: "start s\<^sub>0 \<Longrightarrow> rep s\<^sub>0 {} s\<^sub>0"
    and rep_take: "start s\<^sub>0 \<Longrightarrow> rep s\<^sub>0 A s \<Longrightarrow> avail s\<^sub>0 L \<Longrightarrow> L \<notin> A \<Longrightarrow>
        wp (take_lock L) (\<lambda>_. rep s\<^sub>0 (insert L A)) s"
    and rep_drop: "start s\<^sub>0 \<Longrightarrow> rep s\<^sub>0 A s \<Longrightarrow> L \<in> A \<Longrightarrow>
        wp (drop_lock L) (\<lambda>_. rep s\<^sub>0 (A - {L})) s"
begin

fun legal :: "'s \<Rightarrow> 'l set \<Rightarrow> (bool \<times> 'l) list \<Rightarrow> bool" where
  "legal s\<^sub>0 A [] = True"
| "legal s\<^sub>0 A ((True, L) # r) = (avail s\<^sub>0 L \<and> L \<notin> A \<and> legal s\<^sub>0 (insert L A) r)"
| "legal s\<^sub>0 A ((False, L) # r) = (L \<in> A \<and> legal s\<^sub>0 (A - {L}) r)"

fun left_held :: "'l set \<Rightarrow> (bool \<times> 'l) list \<Rightarrow> 'l set" where
  "left_held A [] = A"
| "left_held A ((True, L) # r) = left_held (insert L A) r"
| "left_held A ((False, L) # r) = left_held (A - {L}) r"

fun play :: "(bool \<times> 'l) list \<Rightarrow> ('s, unit) kM" where
  "play [] = ret ()"
| "play ((b, L) # r) = seq (if b then take_lock L else drop_lock L) (play r)"

lemma play_rep:
  "start s\<^sub>0 \<Longrightarrow> rep s\<^sub>0 A s \<Longrightarrow> legal s\<^sub>0 A r \<Longrightarrow> wp (play r) (\<lambda>_. rep s\<^sub>0 (left_held A r)) s"
proof (induction s\<^sub>0 A r arbitrary: s rule: legal.induct)
  case (2 s\<^sub>0 A L r)
  then show ?case by (auto intro!: wp_seq wp_mono [OF rep_take])
next
  case (3 s\<^sub>0 A L r)
  then show ?case by (auto intro!: wp_seq wp_mono [OF rep_drop])
qed (simp add: wp_ret)

lemma balanced_run:
  "start s \<Longrightarrow> legal s {} r \<Longrightarrow> left_held {} r = {} \<Longrightarrow> wp (play r) (\<lambda>_ s'. rep s {} s') s"
  using play_rep [OF _ rep_start] by metis

end

definition in_section :: "'z kbase_scheme \<Rightarrow> lockid set \<Rightarrow> 'z kbase_scheme \<Rightarrow> bool" where
  "in_section s\<^sub>0 A s \<longleftrightarrow> inside (mach s\<^sub>0) A (mach s) \<and> s = s\<^sub>0\<lparr>mach := mach s\<rparr>"

interpretation spin: critical_sections in_section acquire release
    "\<lambda>s. lock_free (mach s)" "\<lambda>s. mach_ok (mach s)"
proof unfold_locales
  fix s\<^sub>0 s :: "'a kbase_scheme" and A L
  assume ok: "mach_ok (mach s\<^sub>0)"
  show "in_section s\<^sub>0 {} s\<^sub>0"
    using ok by (simp add: in_section_def inside_refl)
  assume s: "in_section s\<^sub>0 A s"
  then have w: "inside (mach s\<^sub>0) A (mach s)" and eq: "\<And>m. s\<lparr>mach := m\<rparr> = s\<^sub>0\<lparr>mach := m\<rparr>"
    unfolding in_section_def by (simp, metis kbase.fold_congs(1) kbase.update_convs(1) kbase.surjective)
  show "wp (release L) (\<lambda>_. in_section s\<^sub>0 (A - {L})) s" if "L \<in> A"
    using that by (intro wp_release [OF ok w]) (simp_all add: in_section_def eq)
  assume "lock_free (mach s\<^sub>0) L" "L \<notin> A"
  then show "wp (acquire L) (\<lambda>_. in_section s\<^sub>0 (insert L A)) s"
    by (intro wp_acquire [OF ok w]) (simp_all add: in_section_def eq)
qed

text \<open>A concrete machine: one processor, interrupts on, every lock free.\<close>

definition boot_cpu :: cpu where
  "boot_cpu = \<lparr>apicid = 0, ts_esp0 = 0, ts_ss0 = 0, ts_iomb = 0, gdt = [], started = 1,
     ncli = 0, intena = False, cpu_proc = Some 0\<rparr>"

definition boot_machine :: machine where
  "boot_machine = \<lparr>IF = True, cr3 = 0, task_reg = 0, gdtr = None, lapic_id = 0, frame = 0, cpus = [boot_cpu],
     locks = (\<lambda>_. \<lparr>locked = False, lk_name = [], lk_cpu = None, lk_pcs = [], lk_pid = 0\<rparr>)\<rparr>"

lemma boot_machine_ok [simp]: "mach_ok boot_machine" "lock_free boot_machine L"
  by (simp_all add: mach_ok_def this_cpu_def depth_def the_cpu_def boot_machine_def boot_cpu_def
      lock_free_def)

section \<open>Properties\<close>

text \<open>C4: Any sequence of \<^verbatim>\<open>acquire\<close> and \<^verbatim>\<open>release\<close> that takes only free locks, releases only locks
  it took and has released all of them at its end runs to completion and leaves the kernel
  state as it found it: the nesting depth, the saved interrupt flag, the holder of every lock
  and the interrupt flag are restored, in whatever order the locks were released.\<close>

theorem lock_sections_restore:
  assumes "mach_ok (mach s)" "spin.legal s {} r" "spin.left_held {} r = {}"
  shows "wp (spin.play r) (\<lambda>_ s'. s' = s\<lparr>mach := mach s'\<rparr> \<and> inside (mach s) {} (mach s')) s"
  by (rule wp_mono [OF spin.balanced_run [OF assms]]) (simp add: in_section_def)

definition witness_base :: kbase where
  "witness_base = \<lparr>mach = boot_machine, mem = (\<lambda>_. 0)\<rparr>"

theorem lock_sections_restore_witness:
  "wp (spin.play [(True, PtableLock), (True, KmemLock), (False, PtableLock), (False, KmemLock)])
     (\<lambda>_ s'. s' = witness_base\<lparr>mach := mach s'\<rparr> \<and> inside (mach witness_base) {} (mach s')) witness_base"
  using lock_sections_restore [of witness_base
      "[(True, PtableLock), (True, KmemLock), (False, PtableLock), (False, KmemLock)]"]
  by (simp add: witness_base_def insert_Diff_if)

text \<open>C5: Misuse of a lock is detected: acquiring a lock the processor already holds panics, and so
  does releasing a lock it does not hold; acquiring a lock held by another processor spins.\<close>

theorem lock_misuse:
  assumes "mach_ok (mach s)"
  shows "(holds (mach s) L \<longrightarrow> acquire L s es = Panic ''acquire'') \<and>
    (\<not> lock_free (mach s) L \<and> \<not> holds (mach s) L \<longrightarrow> acquire L s es = Spin) \<and>
    (\<not> holds (mach s) L \<longrightarrow> release L s es = Panic ''release'')"
  using assms acquire_held_panics acquire_taken_spins release_unheld_panics by blast

theorem lock_misuse_witness:
  "release PtableLock witness_base [] = Panic ''release''"
proof -
  have "\<not> holds (mach witness_base) PtableLock"
    using boot_machine_ok(2) [of PtableLock] by (simp add: holds_def lock_free_def witness_base_def)
  then show ?thesis
    using lock_misuse [of witness_base PtableLock "[]"] by (simp add: witness_base_def)
qed

end
