(* ===== verification/Kalloc.thy ===== *)
theory Kalloc
  imports Spinlock
begin

text \<open>
  The physical page allocator of \<^verbatim>\<open>kalloc.c\<close>.  The free list is the linked list the code keeps
  inside the free pages themselves: the first word of a free page is the address of the next.
  The abstract specification is a stack of pages; \<open>kmem_inv\<close> relates the two.
\<close>

text \<open>\<open>kend\<close> is the linker symbol \<^verbatim>\<open>end\<close>, the first address after the kernel image.\<close>

record kmem_state = kbase +
  kend :: u32
  kmem_use_lock :: bool
  kmem_freelist :: u32

definition kfree :: "u32 \<Rightarrow> ('z kmem_state_scheme, unit) kM" where
  "kfree v =
     bnd (get kend) (\<lambda>e.
     if v mod PGSIZE \<noteq> 0 \<or> v < e \<or> V2P v \<ge> PHYSTOP then panic ''kfree''
     else
       seq (upd (\<lambda>s. s\<lparr>mem := memset (mem s) v 1 PGSIZE\<rparr>)) (
       bnd (get kmem_use_lock) (\<lambda>ul.
       seq (whenM ul (acquire KmemLock)) (
       seq (upd (\<lambda>s. s\<lparr>mem := store32 (mem s) v (kmem_freelist s)\<rparr>)) (
       seq (upd (\<lambda>s. s\<lparr>kmem_freelist := v\<rparr>)) (
       bnd (get kmem_use_lock) (\<lambda>ul.
       whenM ul (release KmemLock))))))))"

definition kalloc :: "('z kmem_state_scheme, u32) kM" where
  "kalloc =
     bnd (get kmem_use_lock) (\<lambda>ul.
     seq (whenM ul (acquire KmemLock)) (
     bnd (get kmem_freelist) (\<lambda>r.
     seq (whenM (r \<noteq> 0) (upd (\<lambda>s. s\<lparr>kmem_freelist := load32 (mem s) r\<rparr>))) (
     bnd (get kmem_use_lock) (\<lambda>ul.
     seq (whenM ul (release KmemLock)) (
     ret r))))))"

text \<open>The loop of \<^verbatim>\<open>freerange\<close>.  The address space has \<open>2 ^ 20\<close> pages; a loop that went round all
  of them would go round forever.\<close>

primrec freerange_loop :: "nat \<Rightarrow> u32 \<Rightarrow> u32 \<Rightarrow> ('z kmem_state_scheme, unit) kM" where
  "freerange_loop 0 p vend = spin"
| "freerange_loop (Suc n) p vend =
     (if p + PGSIZE \<le> vend then seq (kfree p) (freerange_loop n (p + PGSIZE) vend) else ret ())"

definition freerange :: "u32 \<Rightarrow> u32 \<Rightarrow> ('z kmem_state_scheme, unit) kM" where
  "freerange vstart vend = freerange_loop (2 ^ 20) (PGROUNDUP vstart) vend"

definition kinit1 :: "u32 \<Rightarrow> u32 \<Rightarrow> ('z kmem_state_scheme, unit) kM" where
  "kinit1 vstart vend =
     seq (initlock KmemLock ''kmem'') (
     seq (upd (\<lambda>s. s\<lparr>kmem_use_lock := False\<rparr>)) (
     freerange vstart vend))"

definition kinit2 :: "u32 \<Rightarrow> u32 \<Rightarrow> ('z kmem_state_scheme, unit) kM" where
  "kinit2 vstart vend =
     seq (freerange vstart vend) (upd (\<lambda>s. s\<lparr>kmem_use_lock := True\<rparr>))"

section \<open>The free list as a stack of pages\<close>

primrec freelist_at :: "mem \<Rightarrow> u32 \<Rightarrow> u32 list \<Rightarrow> bool" where
  "freelist_at h p [] \<longleftrightarrow> p = 0"
| "freelist_at h p (x # xs) \<longleftrightarrow> p = x \<and> x \<noteq> 0 \<and> freelist_at h (load32 h x) xs"

definition is_page :: "u32 \<Rightarrow> bool" where
  "is_page v \<longleftrightarrow> 4096 dvd unat v"

definition page_ok :: "u32 \<Rightarrow> u32 \<Rightarrow> bool" where
  "page_ok e v \<longleftrightarrow> is_page v \<and> e \<le> v \<and> V2P v < PHYSTOP"

definition kmem_inv :: "'z kmem_state_scheme \<Rightarrow> u32 list \<Rightarrow> bool" where
  "kmem_inv s xs \<longleftrightarrow>
     freelist_at (mem s) (kmem_freelist s) xs \<and> distinct xs \<and>
     (\<forall>x \<in> set xs. page_ok (kend s) x) \<and> 0 < kend s"

lemma kmem_inv_mach [simp]: "kmem_inv (s\<lparr>mach := m\<rparr>) xs = kmem_inv s xs"
  by (simp add: kmem_inv_def)

lemma page_mod: "v mod PGSIZE = 0 \<longleftrightarrow> is_page v"
  by (simp add: is_page_def word_unat_eq_iff unat_mod mod_eq_0_iff_dvd)

lemma page_ok_nonzero: "page_ok e v \<Longrightarrow> 0 < e \<Longrightarrow> v \<noteq> 0"
  by (auto simp: page_ok_def)

lemma is_page_aligned4: "is_page v \<Longrightarrow> aligned4 v"
  unfolding is_page_def aligned4_def by (rule dvd_trans [of 4 4096]) simp_all

text \<open>A page and a word of another page do not meet.\<close>

lemma in_range_page:
  assumes "is_page v" "is_page x" "x \<noteq> v" "unat i < 4096"
  shows "\<not> in_range (x + i) v 4096"
proof
  assume "in_range (x + i) v 4096"
  then have "unat (x + i - v) < 4096" by (simp add: in_range_def)
  moreover have "x + i = v + (x + i - v)" by simp
  ultimately show False
    using block_offset_inj [of 4096 x v i "x + i - v"] assms by (simp add: is_page_def)
qed

lemma freelist_at_cong:
  "(\<And>x. x \<in> set xs \<Longrightarrow> load32 h' x = load32 h x) \<Longrightarrow> freelist_at h' p xs = freelist_at h p xs"
  by (induction xs arbitrary: p) auto

lemma load32_cong:
  assumes "\<And>i. unat i < 4 \<Longrightarrow> h' (a + i) = h (a + i)"
  shows "load32 h' a = load32 h a"
  using assms [of 0] assms [of 1] assms [of 2] assms [of 3] by (simp add: load32_def)

lemma load32_other_page:
  assumes "is_page v" "is_page x" "x \<noteq> v" "\<And>a. \<not> in_range a v 4096 \<Longrightarrow> h' a = h a"
  shows "load32 h' x = load32 h x"
  by (rule load32_cong, rule assms(4), rule in_range_page) (use assms(1-3) in auto)

text \<open>The lock is taken only once \<^verbatim>\<open>kinit2\<close> has run; \<open>km_ready\<close> is what both cases need.\<close>

definition km_ready :: "'z kmem_state_scheme \<Rightarrow> bool" where
  "km_ready s \<longleftrightarrow> mach_ok (mach s) \<and> (kmem_use_lock s \<longrightarrow> lock_free (mach s) KmemLock)"

text \<open>\<^verbatim>\<open>kalloc\<close> pops the stack and writes no memory; on the empty list it returns the null pointer.\<close>

lemma wp_kalloc:
  assumes "km_ready s"
    and "\<And>m. inside (mach s) {} m \<Longrightarrow> Q (kmem_freelist s) (s\<lparr>kmem_freelist :=
       (if kmem_freelist s = 0 then 0 else load32 (mem s) (kmem_freelist s)), mach := m\<rparr>)"
  shows "wp kalloc Q s"
proof -
  have ok: "mach_ok (mach s)" "kmem_use_lock s \<Longrightarrow> lock_free (mach s) KmemLock"
    using assms(1) by (auto simp: km_ready_def)
  note w = inside_refl [OF ok(1)]
  have id: "s\<lparr>kmem_freelist := 0\<rparr> = s" if "kmem_freelist s = 0"
    by (subst that [symmetric]) simp
  show ?thesis
    unfolding kalloc_def
    apply (rule wp_bnd, simp add: wp_get)
    apply (rule wp_seq, rule wp_acquire_if [OF ok w], assumption)
    apply (rule wp_bnd, simp add: wp_get)
    apply (rule wp_seq, simp add: wp_whenM wp_upd)
    apply (intro conjI impI)
     apply (rule wp_bnd, simp add: wp_get)
     apply (rule wp_seq, rule wp_release_if [OF ok(1)], simp)
     apply (use assms(2) in \<open>simp add: wp_ret\<close>)
    apply (rule wp_bnd, simp add: wp_get)
    apply (rule wp_seq, rule wp_release_if [OF ok(1)], simp)
    apply (use assms(2) in \<open>simp add: wp_ret id\<close>)
    done
qed

text \<open>\<^verbatim>\<open>kfree\<close> fills the page with ones, links it in front, and refuses an address that is not a
  page of the managed memory.\<close>

lemma kfree_panics: "\<not> page_ok (kend s) v \<Longrightarrow> kfree v s es = Panic ''kfree''"
  by (auto simp: kfree_def krun page_ok_def page_mod)

lemma wp_kfree:
  assumes "km_ready s" "page_ok (kend s) v"
    and "\<And>m. inside (mach s) {} m \<Longrightarrow> Q ()
      (s\<lparr>mem := store32 (memset (mem s) v 1 PGSIZE) v (kmem_freelist s), kmem_freelist := v, mach := m\<rparr>)"
  shows "wp (kfree v) Q s"
proof -
  have ok: "mach_ok (mach s)" "kmem_use_lock s \<Longrightarrow> lock_free (mach s) KmemLock"
    using assms(1) by (auto simp: km_ready_def)
  note w = inside_refl [OF ok(1)]
  have v: "(v mod PGSIZE \<noteq> 0 \<or> v < kend s \<or> V2P v \<ge> PHYSTOP) = False"
    using assms(2) by (auto simp: page_ok_def page_mod)
  show ?thesis
    unfolding kfree_def
    apply (rule wp_bnd, simp only: wp_get v if_False)
    apply (rule wp_seq, simp only: wp_upd)
    apply (rule wp_bnd, simp add: wp_get)
    apply (rule wp_seq, rule wp_acquire_if [OF ok], assumption, simp add: w)
    apply (rule wp_seq, simp only: wp_upd)
    apply (rule wp_seq, simp only: wp_upd)
    apply (rule wp_bnd, simp add: wp_get)
    apply (rule wp_release_if [OF ok(1)], simp)
    apply (use assms(3) in simp)
    done
qed

text \<open>The refinement: on a free list that represents the stack \<open>xs\<close>, \<^verbatim>\<open>kalloc\<close> pops and
  \<^verbatim>\<open>kfree\<close> pushes, and \<^verbatim>\<open>kfree\<close> writes the freed page only.\<close>

lemma kmem_inv_pop:
  assumes "kmem_inv s xs"
  shows "kmem_freelist s = (case xs of [] \<Rightarrow> 0 | x # _ \<Rightarrow> x)"
    "kmem_inv (s\<lparr>kmem_freelist := (if kmem_freelist s = 0 then 0
        else load32 (mem s) (kmem_freelist s))\<rparr>) (tl xs)"
  using assms by (cases xs; auto simp: kmem_inv_def)+

lemma kfree_mem_frame:
  assumes "is_page v" "\<not> in_range a v 4096"
  shows "store32 (memset h v c PGSIZE) v w a = h a"
proof -
  have "\<not> in_range a v 4" using assms(2) by (simp add: in_range_def)
  then have "a \<noteq> v" "a \<noteq> v + 1" "a \<noteq> v + 2" "a \<noteq> v + 3"
    by (auto simp: in_range_def)
  then show ?thesis
    using assms(2) by (simp add: store32_def memset_apply)
qed

lemma kmem_inv_push:
  assumes inv: "kmem_inv s xs" and v: "page_ok (kend s) v" "v \<notin> set xs"
  shows "kmem_inv (s\<lparr>mem := store32 (memset (mem s) v 1 PGSIZE) v (kmem_freelist s), kmem_freelist := v\<rparr>) (v # xs)"
proof -
  let ?h = "store32 (memset (mem s) v 1 PGSIZE) v (kmem_freelist s)"
  have p: "is_page v" using v by (simp add: page_ok_def)
  have "load32 ?h x = load32 (mem s) x" if "x \<in> set xs" for x
  proof (rule load32_other_page [OF p])
    show "is_page x" "x \<noteq> v" using inv v(2) that by (auto simp: kmem_inv_def page_ok_def)
  qed (rule kfree_mem_frame [OF p])
  then have "freelist_at ?h (kmem_freelist s) xs"
    using inv freelist_at_cong [of xs ?h "mem s"] by (simp add: kmem_inv_def)
  moreover have "load32 ?h v = kmem_freelist s"
    by (rule load32_store32_same)
  moreover have "v \<noteq> 0"
    using inv page_ok_nonzero [OF v(1)] by (simp add: kmem_inv_def)
  ultimately have "freelist_at ?h v (v # xs)"
    by (simp only: freelist_at.simps simp_thms)
  then show ?thesis
    using inv v unfolding kmem_inv_def by (simp del: freelist_at.simps)
qed

text \<open>One call as a step of the stack, with everything else it leaves alone.\<close>

definition km_step :: "'z kmem_state_scheme \<Rightarrow> 'z kmem_state_scheme \<Rightarrow> bool" where
  "km_step s s' \<longleftrightarrow> inside (mach s) {} (mach s') \<and>
     s' = s\<lparr>mem := mem s', kmem_freelist := kmem_freelist s', mach := mach s'\<rparr>"

lemma km_step_ready: "km_ready s \<Longrightarrow> km_step s s' \<Longrightarrow> km_ready s'"
  unfolding km_ready_def km_step_def
  by (metis (no_types, lifting) inside_ok inside_free empty_iff kmem_state.select_convs(2)
      kmem_state.surjective kmem_state.update_convs(3) kbase.update_convs(1,2))

lemma km_step_kend: "km_step s s' \<Longrightarrow> kend s' = kend s"
  unfolding km_step_def by (cases s; cases s') simp

lemma km_step_trans:
  assumes "km_ready s" "km_step s s1" "km_step s1 s2"
  shows "km_step s s2"
proof -
  have "inside (mach s) {} (mach s2)"
    using assms inside_trans by (auto simp: km_ready_def km_step_def)
  moreover have "s2 = s\<lparr>mem := mem s2, kmem_freelist := kmem_freelist s2, mach := mach s2\<rparr>"
    using assms(2,3) unfolding km_step_def by (cases s; cases s1; cases s2) simp
  ultimately show ?thesis by (simp add: km_step_def)
qed

lemma kalloc_step:
  assumes "km_ready s" "kmem_inv s xs"
  shows "wp kalloc (\<lambda>p s'. p = (case xs of [] \<Rightarrow> 0 | x # _ \<Rightarrow> x) \<and> kmem_inv s' (tl xs) \<and>
    mem s' = mem s \<and> km_step s s') s"
  by (rule wp_kalloc [OF assms(1)])
    (use kmem_inv_pop [OF assms(2)] in \<open>auto simp: km_step_def\<close>)

lemma kfree_step:
  assumes "km_ready s" "kmem_inv s xs" "page_ok (kend s) v" "v \<notin> set xs"
  shows "wp (kfree v) (\<lambda>_ s'. kmem_inv s' (v # xs) \<and>
    (\<forall>a. \<not> in_range a v 4096 \<longrightarrow> mem s' a = mem s a) \<and> km_step s s') s"
  by (rule wp_kfree [OF assms(1,3)])
    (use kmem_inv_push [OF assms(2-4)] kfree_mem_frame assms(3) in
      \<open>auto simp: km_step_def page_ok_def\<close>)

section \<open>Initialisation: the pages of a range\<close>

text \<open>The pages of the interval that starts at the page \<open>p\<close> and whose last page ends at or before \<open>vend\<close>.\<close>

definition pages_from :: "u32 \<Rightarrow> nat \<Rightarrow> u32 list" where
  "pages_from p n = map (\<lambda>i. p + of_nat (4096 * i)) [0..<n]"

lemma pages_from_Suc: "pages_from p (Suc n) = p # pages_from (p + 4096) n"
proof -
  have "[0..<Suc n] = 0 # map Suc [0..<n]" by (simp add: upt_conv_Cons map_Suc_upt)
  then show ?thesis by (simp add: pages_from_def algebra_simps)
qed

lemma pages_from_unat:
  assumes "x \<in> set (pages_from p n)" "unat p + 4096 * n \<le> 2 ^ 32"
  shows "\<exists>i < n. unat x = unat p + 4096 * i"
proof -
  obtain i where i: "i < n" "x = p + of_nat (4096 * i)"
    using assms(1) by (auto simp: pages_from_def)
  have lt: "unat p + 4096 * i < 2 ^ 32" using i(1) assms(2) by simp
  then have "unat (of_nat (4096 * i) :: u32) = 4096 * i" by (intro unat_of_nat_u32) simp
  then have "unat x = unat p + 4096 * i"
    using i(2) lt by (simp only: unat_word_ariths) simp
  with i(1) show ?thesis by blast
qed

lemma unat_top: "unat (P2V PHYSTOP) = 0x8E000000"
  by (simp add: P2V_def)

lemma page_ok_range:
  assumes "is_page p" "KERNBASE \<le> e" "e \<le> p" "unat p < 0x8E000000"
  shows "page_ok e p"
proof -
  have k: "KERNBASE \<le> p" using assms by simp
  then have "unat (p - KERNBASE) = unat p - 0x80000000"
    by (simp add: unat_sub)
  with assms k show ?thesis
    by (simp add: page_ok_def V2P_def word_less_nat_alt word_le_nat_alt)
qed

lemma freerange_loop_step:
  assumes "km_ready s" "kmem_inv s xs" "is_page p" "KERNBASE \<le> kend s" "kend s \<le> p"
    and "unat p + 4096 * n \<le> unat vend" "unat vend < unat p + 4096 * Suc n"
    and "unat vend \<le> unat (P2V PHYSTOP)" "n < k"
    and "set (pages_from p n) \<inter> set xs = {}"
  shows "wp (freerange_loop k p vend)
    (\<lambda>_ s'. kmem_inv s' (rev (pages_from p n) @ xs) \<and> km_step s s') s"
  using assms
proof (induction n arbitrary: s xs p k)
  case 0
  then obtain k' where k: "k = Suc k'" by (cases k) auto
  have "unat (p + 4096) = unat p + 4096"
    using 0 by (simp add: unat_word_ariths unat_top)
  then have "\<not> p + PGSIZE \<le> vend"
    using 0 by (simp add: word_le_nat_alt)
  then show ?case
    using 0 inside_refl by (simp add: k wps pages_from_def km_step_def km_ready_def)
next
  case (Suc n)
  obtain k' where k: "k = Suc k'" "n < k'" using Suc.prems(9) by (cases k) auto
  have np: "unat (p + 4096) = unat p + 4096"
    using Suc.prems by (simp add: unat_word_ariths unat_top)
  then have le: "p + PGSIZE \<le> vend"
    using Suc.prems by (simp add: word_le_nat_alt)
  have pp: "is_page (p + 4096)" "kend s \<le> p + 4096"
    using np Suc.prems(3,5) by (simp_all add: is_page_def word_le_nat_alt)
  have ok: "page_ok (kend s) p"
    using Suc.prems by (intro page_ok_range) (simp_all add: unat_top)
  have notin: "p \<notin> set xs" "set (pages_from (p + 4096) n) \<inter> set xs = {}"
    using Suc.prems(10) by (auto simp: pages_from_Suc)
  have "p \<notin> set (pages_from (p + 4096) n)"
    using pages_from_unat [of p "p + 4096" n] np Suc.prems(6,8) by (auto simp: unat_top)
  with notin have fresh: "set (pages_from (p + 4096) n) \<inter> set (p # xs) = {}" by auto
  have "wp (freerange_loop k' (p + 4096) vend)
      (\<lambda>_ t. kmem_inv t (rev (pages_from p (Suc n)) @ xs) \<and> km_step s t) s'"
    if *: "kmem_inv s' (p # xs)" "km_step s s'" for s'
  proof (rule wp_mono [OF Suc.IH [of s' "p # xs" "p + 4096" k']])
    have e: "kend s' = kend s"
      using *(2) by (rule km_step_kend)
    show "km_ready s'" using km_step_ready [OF Suc.prems(1) *(2)] .
    show "KERNBASE \<le> kend s'" "kend s' \<le> p + 4096" using e Suc.prems(4) pp by simp_all
    show "unat (p + 4096) + 4096 * n \<le> unat vend" "unat vend < unat (p + 4096) + 4096 * Suc n"
      using np Suc.prems(6,7) by simp_all
    fix t
    assume "kmem_inv t (rev (pages_from (p + 4096) n) @ p # xs) \<and> km_step s' t"
    then show "kmem_inv t (rev (pages_from p (Suc n)) @ xs) \<and> km_step s t"
      using km_step_trans [OF Suc.prems(1) *(2)] by (simp add: pages_from_Suc)
  qed (use * pp k fresh Suc.prems(8) in auto)
  then have "wp (seq (kfree p) (freerange_loop k' (p + 4096) vend))
      (\<lambda>_ t. kmem_inv t (rev (pages_from p (Suc n)) @ xs) \<and> km_step s t) s"
    by (intro wp_seq wp_mono [OF kfree_step [OF Suc.prems(1,2) ok notin(1)]]) auto
  with le show ?case by (simp add: k)
qed

definition pages_between :: "u32 \<Rightarrow> u32 \<Rightarrow> u32 set" where
  "pages_between lo hi = {x. is_page x \<and> lo \<le> x \<and> unat x + 4096 \<le> unat hi}"

lemma set_pages_from:
  assumes "is_page p" "unat p + 4096 * n \<le> unat hi" "unat hi < unat p + 4096 * Suc n"
  shows "set (pages_from p n) = pages_between p hi"
proof (intro set_eqI iffI)
  fix x assume x: "x \<in> set (pages_from p n)"
  have "unat p + 4096 * n \<le> 2 ^ 32" using assms(2) unat_u32 [of hi] by simp
  then obtain i where "i < n" "unat x = unat p + 4096 * i"
    using pages_from_unat [OF x] by blast
  then show "x \<in> pages_between p hi"
    using assms by (auto simp: pages_between_def is_page_def word_le_nat_alt)
next
  fix x assume "x \<in> pages_between p hi"
  then have x: "is_page x" "unat p \<le> unat x" "unat x + 4096 \<le> unat hi"
    by (simp_all add: pages_between_def word_le_nat_alt)
  then have "4096 dvd unat x - unat p" using assms(1) by (simp add: is_page_def)
  then obtain i where i: "unat x - unat p = 4096 * i" by (auto simp: dvd_def)
  then have eq: "unat x = unat p + 4096 * i" using x(2) by simp
  with x(3) assms(3) have "i < n" by simp
  moreover have "x = p + of_nat (4096 * i)"
  proof -
    have "x = of_nat (unat x)" by simp
    also have "\<dots> = p + of_nat (4096 * i)" unfolding eq by simp
    finally show ?thesis .
  qed
  ultimately show "x \<in> set (pages_from p n)" by (auto simp: pages_from_def)
qed

lemma pages_between_round:
  assumes "unat lo + 4095 < 2 ^ 32"
  shows "pages_between (PGROUNDUP lo) hi = pages_between lo hi"
proof -
  have "PGROUNDUP lo \<le> x \<longleftrightarrow> lo \<le> x" if "is_page x" for x
    using that assms by (auto simp: is_page_def word_le_nat_alt unat_PGROUNDUP dvd_def)
  then show ?thesis by (auto simp: pages_between_def)
qed

lemma freerange_step:
  assumes "km_ready s" "kmem_inv s xs" "KERNBASE \<le> kend s" "kend s \<le> vstart"
    and "PGROUNDUP vstart \<le> vend" "vend \<le> P2V PHYSTOP" "vstart \<le> vend"
    and "pages_between vstart vend \<inter> set xs = {}"
  shows "wp (freerange vstart vend) (\<lambda>_ s'. \<exists>ys. kmem_inv s' (ys @ xs) \<and>
    set ys = pages_between vstart vend \<and> km_step s s') s"
proof -
  let ?p = "PGROUNDUP vstart" and ?n = "(unat vend - unat (PGROUNDUP vstart)) div 4096"
  have top: "unat vend \<le> 0x8E000000"
    using assms(6) unat_top by (simp add: word_le_nat_alt)
  have lo: "unat vstart + 4095 < 2 ^ 32" using assms(7) top by (simp add: word_le_nat_alt)
  note up = unat_PGROUNDUP [OF lo]
  have p: "is_page ?p" "kend s \<le> ?p"
    using assms(4) up by (simp_all add: is_page_def word_le_nat_alt)
  have n: "unat ?p + 4096 * ?n \<le> unat vend" "unat vend < unat ?p + 4096 * Suc ?n" "?n < 2 ^ 20"
    using assms(5) top by (auto simp: word_le_nat_alt)
  have set: "set (pages_from ?p ?n) = pages_between vstart vend"
    using set_pages_from [OF p(1) n(1,2)] pages_between_round [OF lo] by simp
  show ?thesis
    unfolding freerange_def
    by (rule wp_mono [OF freerange_loop_step [OF assms(1,2) p(1) assms(3) p(2) n(1,2) _ n(3)]])
      (use set assms(8) top in \<open>auto simp: unat_top intro!: exI [of _ "rev (pages_from ?p ?n)"]\<close>)
qed

section \<open>The allocator as an interface\<close>

text \<open>What the clients of the allocator (page tables, kernel stacks, pipes) rely on.\<close>

locale page_allocator =
  fixes alloc :: "('s, 'a) kM" and free :: "'a \<Rightarrow> ('s, unit) kM"
    and rep :: "'s \<Rightarrow> 'a list \<Rightarrow> bool" and valid :: "'s \<Rightarrow> 'a \<Rightarrow> bool" and null :: 'a
  assumes rep_distinct: "rep s xs \<Longrightarrow> distinct xs \<and> null \<notin> set xs \<and> (\<forall>x \<in> set xs. valid s x)"
    and alloc_law: "rep s xs \<Longrightarrow> wp alloc (\<lambda>p s'. p = (case xs of [] \<Rightarrow> null | x # _ \<Rightarrow> x) \<and>
        rep s' (tl xs) \<and> valid s' = valid s) s"
    and free_law: "rep s xs \<Longrightarrow> valid s v \<Longrightarrow> v \<notin> set xs \<Longrightarrow>
        wp (free v) (\<lambda>_ s'. rep s' (v # xs) \<and> valid s' = valid s) s"
begin

primrec alloc_many :: "nat \<Rightarrow> ('s, 'a list) kM" where
  "alloc_many 0 = ret []"
| "alloc_many (Suc n) = bnd alloc (\<lambda>p. bnd (alloc_many n) (\<lambda>ps. ret (p # ps)))"

lemma alloc_many_take:
  "rep s xs \<Longrightarrow> n \<le> length xs \<Longrightarrow>
     wp (alloc_many n) (\<lambda>ps s'. ps = take n xs \<and> rep s' (drop n xs) \<and> valid s' = valid s) s"
proof (induction n arbitrary: s xs)
  case 0
  then show ?case by (simp add: wp_ret)
next
  case (Suc n)
  then obtain x xs' where xs: "xs = x # xs'" by (cases xs) auto
  show ?case
    unfolding alloc_many.simps
    by (rule wp_bnd, rule wp_mono [OF alloc_law [OF Suc.prems(1)]], rule wp_bnd,
        rule wp_mono [OF Suc.IH [of _ xs']]) (use Suc.prems xs in \<open>auto simp: wp_ret\<close>)
qed

lemma alloc_many_distinct:
  assumes "rep s xs" "n \<le> length xs"
  shows "wp (alloc_many n) (\<lambda>ps s'. distinct ps \<and> length ps = n \<and> null \<notin> set ps \<and>
    (\<forall>p \<in> set ps. valid s p)) s"
  by (rule wp_mono [OF alloc_many_take [OF assms]])
    (use rep_distinct [OF assms(1)] assms(2) in \<open>auto dest: in_set_takeD\<close>)

lemma free_alloc:
  assumes "rep s xs" "valid s v" "v \<notin> set xs"
  shows "wp (seq (free v) alloc) (\<lambda>p s'. p = v \<and> rep s' xs) s"
  by (rule wp_seq, rule wp_mono [OF free_law [OF assms]], rule wp_mono [OF alloc_law]) auto

end

interpretation km: page_allocator kalloc kfree "\<lambda>s xs. km_ready s \<and> kmem_inv s xs"
    "\<lambda>s. page_ok (kend s)" 0
proof unfold_locales
  fix s :: "'a kmem_state_scheme" and xs v
  assume r: "km_ready s \<and> kmem_inv s xs"
  show "distinct xs \<and> 0 \<notin> set xs \<and> (\<forall>x\<in>set xs. page_ok (kend s) x)"
    using r page_ok_nonzero by (auto simp: kmem_inv_def)
  show "wp kalloc (\<lambda>p s'. p = (case xs of [] \<Rightarrow> 0 | x # _ \<Rightarrow> x) \<and>
      (km_ready s' \<and> kmem_inv s' (tl xs)) \<and> page_ok (kend s') = page_ok (kend s)) s"
    by (rule wp_mono [OF kalloc_step]) (use r in \<open>auto dest: km_step_kend intro: km_step_ready\<close>)
  assume "page_ok (kend s) v" "v \<notin> set xs"
  then show "wp (kfree v) (\<lambda>_ s'. (km_ready s' \<and> kmem_inv s' (v # xs)) \<and>
      page_ok (kend s') = page_ok (kend s)) s"
    by (intro wp_mono [OF kfree_step]) (use r in \<open>auto dest: km_step_kend intro: km_step_ready\<close>)
qed

section \<open>The two phases of initialisation\<close>

lemma kinit1_step:
  assumes "mach_ok (mach s)" "kmem_freelist s = 0" "KERNBASE \<le> kend s"
    and "PGROUNDUP (kend s) \<le> vend" "vend \<le> P2V PHYSTOP" "kend s \<le> vend"
  shows "wp (kinit1 (kend s) vend) (\<lambda>_ s'. \<exists>ys. kmem_inv s' ys \<and> set ys = pages_between (kend s) vend \<and>
    km_ready s' \<and> lock_free (mach s') KmemLock \<and> kend s' = kend s) s"
proof -
  obtain l where l: "\<And>es. initlock KmemLock ''kmem'' s es = Ret () (s\<lparr>mach := (mach s)\<lparr>locks := (locks (mach s))(KmemLock := l)\<rparr>\<rparr>) es"
    "\<not> locked l" by (auto simp: initlock_def krun)
  define m where "m = (mach s)\<lparr>locks := (locks (mach s))(KmemLock := l)\<rparr>"
  define t where "t = s\<lparr>mach := m, kmem_use_lock := False\<rparr>"
  have m: "mach_ok m" "lock_free m KmemLock"
    using assms(1) l(2) by (simp_all add: m_def lock_free_def)
  have "0 < kend s" using assms(3) by (simp add: word_le_nat_alt word_less_nat_alt)
  then have t: "km_ready t" "kmem_inv t []" "kend t = kend s"
    using m assms(2) by (simp_all add: km_ready_def t_def kmem_inv_def)
  have "wp (freerange (kend s) vend) (\<lambda>_ s'. \<exists>ys. kmem_inv s' (ys @ []) \<and>
      set ys = pages_between (kend s) vend \<and> km_step t s') t"
    by (rule freerange_step) (use t assms(3-) in auto)
  then have "wp (freerange (kend s) vend) (\<lambda>_ s'. \<exists>ys. kmem_inv s' ys \<and> set ys = pages_between (kend s) vend \<and>
      km_ready s' \<and> lock_free (mach s') KmemLock \<and> kend s' = kend s) t"
  proof (rule wp_mono)
    fix s' assume *: "\<exists>ys. kmem_inv s' (ys @ []) \<and> set ys = pages_between (kend s) vend \<and> km_step t s'"
    then have "inside m {} (mach s')" by (auto simp: km_step_def t_def)
    then have "lock_free (mach s') KmemLock" using inside_free m by blast
    with * show "\<exists>ys. kmem_inv s' ys \<and> set ys = pages_between (kend s) vend \<and>
        km_ready s' \<and> lock_free (mach s') KmemLock \<and> kend s' = kend s"
      using t km_step_ready km_step_kend by fastforce
  qed
  note fr = this
  show ?thesis
    unfolding kinit1_def
    by (rule wp_seq, rule wp_runI, rule l(1), rule wp_seq) (use fr in \<open>simp add: wp_upd t_def m_def\<close>)
qed

lemma kinit2_step:
  assumes "km_ready s" "lock_free (mach s) KmemLock" "kmem_inv s xs" "KERNBASE \<le> kend s" "kend s \<le> vstart"
    and "PGROUNDUP vstart \<le> vend" "vend \<le> P2V PHYSTOP" "vstart \<le> vend"
    and "pages_between vstart vend \<inter> set xs = {}"
  shows "wp (kinit2 vstart vend) (\<lambda>_ s'. \<exists>ys. kmem_inv s' ys \<and>
    set ys = pages_between vstart vend \<union> set xs \<and> km_ready s' \<and> kmem_use_lock s') s"
proof -
  have "\<exists>zs. kmem_inv (s'\<lparr>kmem_use_lock := True\<rparr>) zs \<and>
      set zs = pages_between vstart vend \<union> set xs \<and> km_ready (s'\<lparr>kmem_use_lock := True\<rparr>)"
    if "kmem_inv s' (ys @ xs)" "set ys = pages_between vstart vend" "km_step s s'" for s' ys
  proof -
    have "inside (mach s) {} (mach s')" using that(3) by (simp add: km_step_def)
    then have "lock_free (mach s') KmemLock" "mach_ok (mach s')"
      using inside_free inside_ok assms(1,2) by (auto simp: km_ready_def)
    then show ?thesis
      using that(1,2) by (intro exI [of _ "ys @ xs"]) (auto simp: km_ready_def kmem_inv_def)
  qed
  then show ?thesis
    unfolding kinit2_def
    by (intro wp_seq wp_mono [OF freerange_step [OF assms(1,3-9)]]) (auto simp: wp_upd)
qed

lemma pages_between_split:
  assumes "is_page mid" "lo \<le> mid" "mid \<le> hi"
  shows "pages_between lo hi = pages_between lo mid \<union> pages_between mid hi"
    "pages_between lo mid \<inter> pages_between mid hi = {}"
proof -
  have "unat x + 4096 \<le> unat mid \<or> mid \<le> x" if "is_page x" for x
    using that assms(1) unfolding is_page_def word_le_nat_alt dvd_def by auto
  then show "pages_between lo hi = pages_between lo mid \<union> pages_between mid hi"
    using assms by (auto simp: pages_between_def word_le_nat_alt)
  show "pages_between lo mid \<inter> pages_between mid hi = {}"
    by (auto simp: pages_between_def word_le_nat_alt)
qed

section \<open>Properties\<close>

text \<open>C1: On a free list that represents the stack \<open>xs\<close> of pages, \<^verbatim>\<open>kalloc\<close> returns the top page
  (the null pointer when there is none), leaves the rest of the stack and writes no memory;
  \<^verbatim>\<open>kfree\<close> of a page that is not free pushes it and changes memory inside that page only;
  \<^verbatim>\<open>kfree\<close> of anything else (misaligned, below the end of the kernel, beyond physical memory)
  panics.  Both leave every other part of the kernel state as it was, locks and interrupt
  flag included.\<close>

theorem kalloc_kfree_stack:
  assumes "km_ready s" "kmem_inv s xs"
  shows "wp kalloc (\<lambda>p s'. p = (case xs of [] \<Rightarrow> 0 | x # _ \<Rightarrow> x) \<and> kmem_inv s' (tl xs) \<and>
      mem s' = mem s \<and> km_step s s') s \<and>
    (page_ok (kend s) v \<and> v \<notin> set xs \<longrightarrow> wp (kfree v) (\<lambda>_ s'. kmem_inv s' (v # xs) \<and>
      (\<forall>a. \<not> in_range a v 4096 \<longrightarrow> mem s' a = mem s a) \<and> km_step s s') s) \<and>
    (\<not> page_ok (kend s) v \<longrightarrow> kfree v s es = Panic ''kfree'')"
  using kalloc_step [OF assms] kfree_step [OF assms, of v] kfree_panics [of s v es] by blast

definition witness_kmem :: kmem_state where
  "witness_kmem = \<lparr>mach = boot_machine, mem = (\<lambda>_. 0), kend = 0x80110000, kmem_use_lock = True,
     kmem_freelist = 0x80400000\<rparr>"

lemma witness_kmem_ok: "km_ready witness_kmem" "kmem_inv witness_kmem [0x80400000]"
  by (simp_all add: km_ready_def kmem_inv_def witness_kmem_def page_ok_def is_page_def V2P_def load32_def)

theorem kalloc_kfree_stack_witness:
  "wp kalloc (\<lambda>p s'. p = 0x80400000 \<and> kmem_inv s' [] \<and>
      mem s' = mem witness_kmem \<and> km_step witness_kmem s') witness_kmem"
  using kalloc_kfree_stack [OF witness_kmem_ok] by simp

text \<open>C2: After the two initialisation calls of \<^verbatim>\<open>main\<close>, \<^verbatim>\<open>kinit1(end, P2V(4MB))\<close> and
  \<^verbatim>\<open>kinit2(P2V(4MB), P2V(PHYSTOP))\<close>, the free list holds, once each, exactly the pages that lie
  entirely between the end of the kernel image and the top of physical memory, and the
  allocator has started to use its lock.\<close>

theorem kinit_frees_all_memory:
  assumes "mach_ok (mach s)" "kmem_freelist s = 0" "KERNBASE \<le> kend s" "kend s \<le> P2V 0x400000"
  shows "wp (seq (kinit1 (kend s) (P2V 0x400000)) (kinit2 (P2V 0x400000) (P2V PHYSTOP)))
    (\<lambda>_ s'. \<exists>ys. kmem_inv s' ys \<and> set ys = pages_between (kend s) (P2V PHYSTOP) \<and>
       km_ready s' \<and> kmem_use_lock s') s"
proof -
  let ?mid = "P2V 0x400000"
  have mid: "is_page ?mid" "?mid \<le> P2V PHYSTOP" "PGROUNDUP ?mid \<le> P2V PHYSTOP"
    by (simp_all add: P2V_def is_page_def PGROUNDUP_def)
  have "unat (PGROUNDUP (kend s)) \<le> unat ?mid"
    using assms(4) unat_PGROUNDUP [of "kend s"] by (simp add: P2V_def word_le_nat_alt)
  then have up: "PGROUNDUP (kend s) \<le> ?mid" by (simp add: word_le_nat_alt)
  note split = pages_between_split [OF mid(1) assms(4) mid(2)]
  show ?thesis
    by (rule wp_seq, rule wp_mono [OF kinit1_step [OF assms(1-3) up mid(2) assms(4)]], elim exE conjE,
        rule wp_mono [OF kinit2_step]) (use mid split assms(3,4) in auto)
qed

theorem kinit_frees_all_memory_witness:
  "wp (seq (kinit1 0x80110000 (P2V 0x400000)) (kinit2 (P2V 0x400000) (P2V PHYSTOP)))
    (\<lambda>_ s'. \<exists>ys. kmem_inv s' ys \<and> set ys = pages_between 0x80110000 (P2V PHYSTOP) \<and>
       km_ready s' \<and> kmem_use_lock s') (witness_kmem\<lparr>kmem_freelist := 0\<rparr>)"
  using kinit_frees_all_memory [of "witness_kmem\<lparr>kmem_freelist := 0\<rparr>"]
  by (simp add: witness_kmem_def P2V_def)

text \<open>C3: As long as the free list is long enough, successive calls of \<^verbatim>\<open>kalloc\<close> return distinct,
  non-null pages of the managed memory: no two clients are ever given the same page.\<close>

theorem kalloc_pages_distinct:
  assumes "km_ready s" "kmem_inv s xs" "n \<le> length xs"
  shows "wp (km.alloc_many n) (\<lambda>ps s'. distinct ps \<and> length ps = n \<and> 0 \<notin> set ps \<and>
    (\<forall>p \<in> set ps. page_ok (kend s) p)) s"
  using km.alloc_many_distinct assms by blast

theorem kalloc_pages_distinct_witness:
  "wp (km.alloc_many 1) (\<lambda>ps s'. distinct ps \<and> length ps = 1 \<and> 0 \<notin> set ps \<and>
    (\<forall>p \<in> set ps. page_ok 0x80110000 p)) witness_kmem"
  using kalloc_pages_distinct [OF witness_kmem_ok, of 1] by (simp add: witness_kmem_def)

end
