(* ===== verification/Console_Out.thy ===== *)
theory Console_Out
  imports Kalloc
begin

text \<open>
  Console output: \<^verbatim>\<open>printint\<close>, \<^verbatim>\<open>cprintf\<close>, \<^verbatim>\<open>cgaputc\<close> and \<^verbatim>\<open>consputc\<close> of \<^verbatim>\<open>console.c\<close> and
  \<^verbatim>\<open>uartputc\<close> of \<^verbatim>\<open>uart.c\<close>.  The devices are part of the state: the text memory and the two
  cursor registers of the display controller, and the characters sent to the serial port.
\<close>

text \<open>\<open>crt\<close> is the display memory in cells of 16 bits, \<open>crt_reg\<close> the register file of the display
  controller behind \<^verbatim>\<open>CRTPORT\<close>, \<open>uart_out\<close> the bytes written to \<^verbatim>\<open>COM1\<close>.\<close>

record cons_state = kmem_state +
  cons_locking :: bool
  panicked :: bool
  crt :: "int \<Rightarrow> u16"
  crt_reg :: "nat \<Rightarrow> u8"
  uart :: bool
  uart_out :: "u8 list"

section \<open>The code\<close>

text \<open>A character code is the C \<^verbatim>\<open>int\<close> the code passes around; \<^verbatim>\<open>BACKSPACE\<close> is outside the
  range of characters.\<close>

abbreviation "BACKSPACE \<equiv> 0x100 :: int"

text \<open>\<^verbatim>\<open>uartputc\<close> polls the line status at most 128 times and writes the byte in any case.\<close>

definition uartputc :: "int \<Rightarrow> ('z cons_state_scheme, unit) kM" where
  "uartputc c = bnd (get uart) (\<lambda>u. whenM u (upd (\<lambda>s. s\<lparr>uart_out := uart_out s @ [word_of_int c]\<rparr>)))"

text \<open>The cursor position is read from and written to registers 14 and 15.\<close>

definition cursor :: "'z cons_state_scheme \<Rightarrow> int" where
  "cursor s = uint (crt_reg s 14) * 256 + uint (crt_reg s 15)"

definition set_cursor :: "int \<Rightarrow> 'z cons_state_scheme \<Rightarrow> 'z cons_state_scheme" where
  "set_cursor pos s = s\<lparr>crt_reg := (crt_reg s)(14 := word_of_int (pos div 256), 15 := word_of_int pos)\<rparr>"

definition crt_put :: "int \<Rightarrow> u16 \<Rightarrow> 'z cons_state_scheme \<Rightarrow> 'z cons_state_scheme" where
  "crt_put pos w s = s\<lparr>crt := (crt s)(pos := w)\<rparr>"

text \<open>The \<^verbatim>\<open>memmove\<close> and \<^verbatim>\<open>memset\<close> of the scroll: rows 1 to 23 move up, the rest of the screen from
  \<open>pos\<close> on is cleared.\<close>

definition scroll_up :: "(int \<Rightarrow> u16) \<Rightarrow> int \<Rightarrow> int \<Rightarrow> u16" where
  "scroll_up cells pos =
     (let moved = (\<lambda>i. if 0 \<le> i \<and> i < 23 * 80 then cells (i + 80) else cells i)
      in (\<lambda>i. if pos \<le> i \<and> i < 24 * 80 then 0 else moved i))"

definition cgaputc :: "int \<Rightarrow> ('z cons_state_scheme, unit) kM" where
  "cgaputc c =
     bnd (get cursor) (\<lambda>pos.
     bnd (if c = 10 then ret (pos + (80 - pos mod 80))
          else if c = BACKSPACE \<or> c = 8 then ret (if pos > 0 then pos - 1 else pos)
          else seq (upd (crt_put pos (word_of_int (c mod 256) OR 0x0700))) (ret (pos + 1))) (\<lambda>pos.
     if pos < 0 \<or> pos > 25 * 80 then panic ''pos under/overflow''
     else
       bnd (if pos div 80 \<ge> 24
            then seq (upd (\<lambda>s. s\<lparr>crt := scroll_up (crt s) (pos - 80)\<rparr>)) (ret (pos - 80))
            else ret pos) (\<lambda>pos.
       seq (upd (set_cursor pos))
           (whenM (c \<noteq> 8) (upd (crt_put pos (0x20 OR 0x0700)))))))"

definition consputc :: "int \<Rightarrow> ('z cons_state_scheme, unit) kM" where
  "consputc c =
     bnd (get panicked) (\<lambda>p.
     if p then seq cli spin
     else
       seq (if c = BACKSPACE then stmts [uartputc 8, uartputc 32, uartputc 8] else uartputc c)
           (cgaputc c))"

text \<open>The digits of \<^verbatim>\<open>printint\<close>, least significant first, as the loop stores them in \<^verbatim>\<open>buf\<close>.  A
  32-bit number has at most 32 digits in any base from 2 on.\<close>

definition digit_char :: "nat \<Rightarrow> int" where
  "digit_char d = of_char (''0123456789abcdef'' ! d)"

function digit_loop :: "nat \<Rightarrow> nat \<Rightarrow> int list" where
  "digit_loop base x =
     digit_char (x mod base) # (if base < 2 \<or> x div base = 0 then [] else digit_loop base (x div base))"
  by pat_completeness auto
termination
  by (relation "measure snd") (auto simp: div_greater_zero_iff)

declare digit_loop.simps [simp del]

definition printint_buf :: "int \<Rightarrow> nat \<Rightarrow> bool \<Rightarrow> int list" where
  "printint_buf xx base sign =
     (let neg = (sign \<and> xx < 0);
          x = unat (word_of_int (if neg then - xx else xx) :: u32);
          buf = digit_loop base x
      in if neg then buf @ [45] else buf)"

definition printint :: "int \<Rightarrow> nat \<Rightarrow> bool \<Rightarrow> ('z cons_state_scheme, unit) kM" where
  "printint xx base sign = forM (rev (printint_buf xx base sign)) consputc"

text \<open>An argument of \<^verbatim>\<open>cprintf\<close> is a word of the caller's frame; when it is the address of a
  string, the text found there goes with it.\<close>

record cparg =
  arg_word :: u32
  arg_text :: string

definition cint :: "int \<Rightarrow> cparg" where
  "cint i = \<lparr>arg_word = word_of_int i, arg_text = []\<rparr>"

definition cstr :: "u32 \<Rightarrow> string \<Rightarrow> cparg" where
  "cstr p txt = \<lparr>arg_word = p, arg_text = txt\<rparr>"

definition arg_int :: "cparg \<Rightarrow> int" where
  "arg_int a = sint (arg_word a)"

definition arg_str :: "cparg \<Rightarrow> string" where
  "arg_str a = (if arg_word a = 0 then ''(null)'' else arg_text a)"

text \<open>\<^verbatim>\<open>argp\<close> points into the stack, above the format: \<open>stack k\<close> is the \<open>k\<close>-th word from there, whether the caller
  passed it or not, and the loop carries the index of the next one.\<close>

fun cprintf_loop :: "string \<Rightarrow> (nat \<Rightarrow> cparg) \<Rightarrow> nat \<Rightarrow> ('z cons_state_scheme, unit) kM" where
  "cprintf_loop [] stack argp = ret ()"
| "cprintf_loop (c # cs) stack argp =
     (if c \<noteq> CHR ''%'' then seq (consputc (of_char c)) (cprintf_loop cs stack argp)
      else case cs of
        [] \<Rightarrow> ret ()
      | d # ds \<Rightarrow>
          if d = CHR ''d'' then seq (printint (arg_int (stack argp)) 10 True) (cprintf_loop ds stack (argp + 1))
          else if d = CHR ''x'' \<or> d = CHR ''p''
          then seq (printint (arg_int (stack argp)) 16 False) (cprintf_loop ds stack (argp + 1))
          else if d = CHR ''s''
          then seq (forM (arg_str (stack argp)) (\<lambda>ch. consputc (of_char ch))) (cprintf_loop ds stack (argp + 1))
          else if d = CHR ''%'' then seq (consputc 37) (cprintf_loop ds stack argp)
          else seq (consputc 37) (seq (consputc (of_char d)) (cprintf_loop ds stack argp)))"

text \<open>A null pointer as the format is \<open>None\<close>.\<close>

definition cprintf :: "string option \<Rightarrow> (nat \<Rightarrow> cparg) \<Rightarrow> ('z cons_state_scheme, unit) kM" where
  "cprintf fmt stack =
     bnd (get cons_locking) (\<lambda>locking.
     seq (whenM locking (acquire ConsLock)) (
     case fmt of
       None \<Rightarrow> panic ''null fmt''
     | Some f \<Rightarrow>
         seq (cprintf_loop f stack 0) (
         whenM locking (release ConsLock))))"

text \<open>A call that passes the arguments \<open>args\<close> with a literal format.  What lies above them on the stack
  has no influence as long as the format asks for no more than there are (\<open>cprintf_frame\<close> below).\<close>

definition call_cprintf :: "string \<Rightarrow> cparg list \<Rightarrow> ('z cons_state_scheme, unit) kM" where
  "call_cprintf fmt args = cprintf (Some fmt) (\<lambda>k. if k < length args then args ! k else cint 0)"

section \<open>Numbers\<close>

text \<open>Reading digits back: the specification of what \<^verbatim>\<open>printint\<close> prints.\<close>

definition digit_value :: "int \<Rightarrow> nat" where
  "digit_value c = nat (if c < 58 then c - 48 else c - 87)"

primrec digits_value :: "nat \<Rightarrow> int list \<Rightarrow> nat" where
  "digits_value base [] = 0"
| "digits_value base (d # ds) = digit_value d + base * digits_value base ds"

lemma digit_value_char: "d < 16 \<Longrightarrow> digit_value (digit_char d) = d"
proof -
  have "\<forall>d \<in> set [0..<16]. digit_value (digit_char d) = d" by code_simp
  then show "d < 16 \<Longrightarrow> digit_value (digit_char d) = d" by simp
qed

lemma digits_value_loop:
  "2 \<le> base \<Longrightarrow> base \<le> 16 \<Longrightarrow> digits_value base (digit_loop base x) = x"
proof (induction base x rule: digit_loop.induct)
  case (1 base x)
  have "x mod base < 16" using 1(2,3) by (meson le_trans mod_less_divisor not_less zero_less_numeral less_le_trans)
  then show ?case
    using 1 by (subst digit_loop.simps) (auto simp: digit_value_char div_eq_0_iff)
qed

lemma digit_loop_length:
  "2 \<le> base \<Longrightarrow> x < base ^ Suc k \<Longrightarrow> length (digit_loop base x) \<le> Suc k"
proof (induction k arbitrary: x)
  case 0
  then show ?case by (subst digit_loop.simps) simp
next
  case (Suc k)
  have "x div base < base ^ Suc k"
    using Suc.prems by (simp add: less_mult_imp_div_less mult.commute)
  then show ?case
    using Suc by (subst digit_loop.simps) auto
qed

section \<open>The cursor\<close>

definition crt_ok :: "'z cons_state_scheme \<Rightarrow> bool" where
  "crt_ok s \<longleftrightarrow> cursor s < 24 * 80"

definition cons_step :: "'z cons_state_scheme \<Rightarrow> 'z cons_state_scheme \<Rightarrow> bool" where
  "cons_step s s' \<longleftrightarrow> inside (mach s) {} (mach s') \<and> crt_ok s' \<and>
     s' = s\<lparr>crt := crt s', crt_reg := crt_reg s', uart_out := uart_out s', mach := mach s'\<rparr>"

lemma cursor_nonneg [simp]: "0 \<le> cursor s"
  by (simp add: cursor_def)

lemma cursor_set_cursor: "0 \<le> pos \<Longrightarrow> pos < 65536 \<Longrightarrow> cursor (set_cursor pos s) = pos"
proof -
  assume "0 \<le> pos" "pos < 65536"
  then have "pos div 256 < 256" "0 \<le> pos div 256" by auto
  then have "uint (word_of_int (pos div 256) :: u8) = pos div 256"
    by (simp add: uint_word_of_int)
  then show ?thesis
    by (simp add: cursor_def set_cursor_def uint_word_of_int)
qed

lemma wp_cgaputc:
  assumes "crt_ok s"
  shows "wp (cgaputc c) (\<lambda>_ s'. crt_ok s' \<and> s' = s\<lparr>crt := crt s', crt_reg := crt_reg s'\<rparr>) s"
proof -
  have b: "0 \<le> cursor s" "cursor s < 1920" using assms by (simp_all add: crt_ok_def)
  have nl: "cursor s + (80 - cursor s mod 80) \<le> 1920" "0 \<le> cursor s + (80 - cursor s mod 80)"
  proof -
    have "cursor s div 80 \<le> 23" "0 \<le> cursor s div 80" using b by (auto simp: pos_imp_zdiv_nonneg_iff)
    moreover have "cursor s = 80 * (cursor s div 80) + cursor s mod 80" by simp
    ultimately show "cursor s + (80 - cursor s mod 80) \<le> 1920" "0 \<le> cursor s + (80 - cursor s mod 80)"
      by linarith+
  qed
  define P where "P = (\<lambda>(pos :: int) s'. pos \<in> {0..1920} \<and> s' = s\<lparr>crt := crt s'\<rparr>)"
  have first: "wp (if c = 10 then ret (cursor s + (80 - cursor s mod 80))
          else if c = BACKSPACE \<or> c = 8 then ret (if cursor s > 0 then cursor s - 1 else cursor s)
          else seq (upd (crt_put (cursor s) (word_of_int (c mod 256) OR 0x0700))) (ret (cursor s + 1))) P s"
    using b nl by (auto simp: P_def wp_ret wp_upd crt_put_def intro!: wp_seq)
  have second: "wp (if pos < 0 \<or> pos > 25 * 80 then panic ''pos under/overflow''
     else
       bnd (if pos div 80 \<ge> 24
            then seq (upd (\<lambda>s. s\<lparr>crt := scroll_up (crt s) (pos - 80)\<rparr>)) (ret (pos - 80))
            else ret pos) (\<lambda>pos.
       seq (upd (set_cursor pos))
           (whenM (c \<noteq> 8) (upd (crt_put pos (0x20 OR 0x0700))))))
      (\<lambda>_ s'. crt_ok s' \<and> s' = s\<lparr>crt := crt s', crt_reg := crt_reg s'\<rparr>) t"
    if "P pos t" for pos t
  proof -
    have pos: "0 \<le> pos" "pos \<le> 1920" and t: "t = s\<lparr>crt := crt t\<rparr>" using that by (auto simp: P_def)
    have scroll: "wp (if pos div 80 \<ge> 24
            then seq (upd (\<lambda>s. s\<lparr>crt := scroll_up (crt s) (pos - 80)\<rparr>)) (ret (pos - 80))
            else ret pos) (\<lambda>pos s'. pos \<in> {0..<1920} \<and> s' = s\<lparr>crt := crt s'\<rparr>) t"
      using pos t by (cases s, cases t) (auto simp: wp_ret wp_upd intro!: wp_seq)
    have put: "wp (seq (upd (set_cursor p)) (whenM (c \<noteq> 8) (upd (crt_put p (0x20 OR 0x0700)))))
        (\<lambda>_ s'. crt_ok s' \<and> s' = s\<lparr>crt := crt s', crt_reg := crt_reg s'\<rparr>) u"
      if "p \<in> {0..<1920} \<and> u = s\<lparr>crt := crt u\<rparr>" for p u
      using that cursor_set_cursor [of p]
      by (cases s, cases u) (auto simp: wp_upd wp_whenM crt_ok_def crt_put_def cursor_def set_cursor_def intro!: wp_seq)
    have no: "(pos < 0 \<or> pos > 25 * 80) = False" using pos by auto
    show ?thesis
      unfolding no if_False by (rule wp_bnd, rule wp_mono [OF scroll], rule put)
  qed
  show ?thesis
    unfolding cgaputc_def
    by (rule wp_bnd, simp only: wp_get, rule wp_bnd, rule wp_mono [OF first], rule second)
qed

text \<open>Every character, and so every \<^verbatim>\<open>cprintf\<close>, changes the display and the serial port only and
  keeps the cursor on the screen.\<close>

definition cons_ready :: "'z cons_state_scheme \<Rightarrow> bool" where
  "cons_ready s \<longleftrightarrow> mach_ok (mach s) \<and> (cons_locking s \<longrightarrow> lock_free (mach s) ConsLock) \<and>
     \<not> panicked s \<and> crt_ok s"

definition out_step :: "'z cons_state_scheme \<Rightarrow> 'z cons_state_scheme \<Rightarrow> bool" where
  "out_step s s' \<longleftrightarrow> crt_ok s' \<and>
     s' = s\<lparr>crt := crt s', crt_reg := crt_reg s', uart_out := uart_out s'\<rparr>"

lemma out_step_refl: "crt_ok s \<Longrightarrow> out_step s s"
  by (simp add: out_step_def)

lemma out_step_trans: "out_step s t \<Longrightarrow> out_step t u \<Longrightarrow> out_step s u"
  unfolding out_step_def by (cases s; cases t; cases u) simp

lemma out_step_same: "out_step s t \<Longrightarrow> panicked t = panicked s \<and> mach t = mach s \<and> crt_ok t"
  unfolding out_step_def by (cases s; cases t) simp

lemma wp_uartputc: "wp (uartputc c) (\<lambda>_ s'. s' = s\<lparr>uart_out := uart_out s'\<rparr>) s"
  by (auto simp: uartputc_def wp_get wp_upd wp_whenM intro!: wp_bnd)

lemma out_step_uart:
  assumes "s' = s\<lparr>uart_out := uart_out s'\<rparr>" "crt_ok s"
  shows "out_step s s'"
  using assms by (cases s; cases s') (simp add: out_step_def crt_ok_def cursor_def)

lemma wp_consputc:
  assumes "\<not> panicked s" "crt_ok s"
  shows "wp (consputc c) (\<lambda>_ s'. out_step s s') s"
proof -
  have u: "wp (uartputc d) (\<lambda>_ u. out_step s u) t" if "out_step s t" for d t
    by (rule wp_mono [OF wp_uartputc]) (use that out_step_same out_step_trans out_step_uart in blast)
  have first: "wp (if c = BACKSPACE then stmts [uartputc 8, uartputc 32, uartputc 8] else uartputc c)
      (\<lambda>_ t. out_step s t) s"
    using out_step_refl [OF assms(2)] by (auto simp: wp_ret intro!: wp_seq wp_mono [OF u] u)
  have second: "wp (cgaputc c) (\<lambda>_ u. out_step s u) t" if t: "out_step s t" for t
  proof (rule wp_mono [OF wp_cgaputc])
    fix u assume "crt_ok u \<and> u = t\<lparr>crt := crt u, crt_reg := crt_reg u\<rparr>"
    then have "out_step t u" by (cases t; cases u) (simp add: out_step_def)
    with t show "out_step s u" by (rule out_step_trans)
  qed (use t out_step_same in blast)
  show ?thesis
    unfolding consputc_def
    by (rule wp_bnd) (simp add: wp_get assms(1) wp_seqI [OF first second] del: stmts.simps)
qed

lemma wp_out_seq:
  assumes "wp m (\<lambda>_ t. out_step s t) s" "\<not> panicked s"
    and "\<And>t. \<not> panicked t \<Longrightarrow> crt_ok t \<Longrightarrow> wp n (\<lambda>_ u. out_step t u) t"
  shows "wp (seq m n) (\<lambda>_ t. out_step s t) s"
proof (rule wp_seqI [OF assms(1)])
  fix t assume t: "out_step s t"
  show "wp n (\<lambda>_ u. out_step s u) t"
    using out_step_same [OF t] assms(2) by (intro wp_mono [OF assms(3)] out_step_trans [OF t]) auto
qed

lemma wp_out_forM:
  assumes "\<And>x t. \<not> panicked t \<Longrightarrow> crt_ok t \<Longrightarrow> wp (f x) (\<lambda>_ u. out_step t u) t"
  shows "\<not> panicked s \<Longrightarrow> crt_ok s \<Longrightarrow> wp (forM xs f) (\<lambda>_ t. out_step s t) s"
  by (induction xs arbitrary: s) (auto simp: wp_ret out_step_refl intro!: wp_out_seq assms)

lemma wp_printint: "\<not> panicked s \<Longrightarrow> crt_ok s \<Longrightarrow> wp (printint x b sg) (\<lambda>_ t. out_step s t) s"
  unfolding printint_def by (rule wp_out_forM [OF wp_consputc])

lemma wp_cprintf_loop:
  "\<not> panicked s \<Longrightarrow> crt_ok s \<Longrightarrow> wp (cprintf_loop fmt stack argp) (\<lambda>_ t. out_step s t) s"
proof (induction fmt stack argp arbitrary: s rule: cprintf_loop.induct)
  case (1 stack argp)
  then show ?case by (simp add: wp_ret out_step_refl)
next
  case (2 c cs stack argp)
  show ?case
  proof (cases "c = CHR ''%''")
    case False
    then show ?thesis
      using 2 by (simp add: wp_out_seq wp_consputc)
  next
    case True
    then show ?thesis
      using 2 by (cases cs) (simp_all add: wp_ret out_step_refl wp_out_seq wp_consputc wp_printint wp_out_forM)
  qed
qed

lemma out_step_mach: "out_step s t \<Longrightarrow> out_step (s\<lparr>mach := m\<rparr>) (t\<lparr>mach := m\<rparr>)"
  unfolding out_step_def by (cases s; cases t) (simp add: crt_ok_def cursor_def)

lemma wp_cprintf:
  assumes "cons_ready s"
  shows "wp (cprintf (Some fmt) stack) (\<lambda>_ s'. cons_step s s') s"
proof -
  have ok: "mach_ok (mach s)" "cons_locking s \<Longrightarrow> lock_free (mach s) ConsLock" "\<not> panicked s" "crt_ok s"
    using assms by (auto simp: cons_ready_def)
  let ?A = "if cons_locking s then {ConsLock} else {}"
  have enter: "wp (whenM (cons_locking s) (acquire ConsLock))
      (\<lambda>_ t. \<exists>m. t = s\<lparr>mach := m\<rparr> \<and> inside (mach s) ?A m) s"
    by (rule wp_acquire_if [OF ok(1,2) inside_refl [OF ok(1)]]) auto
  have body: "wp (cprintf_loop fmt stack 0) (\<lambda>_ t. \<exists>m. inside (mach s) ?A m \<and> out_step (s\<lparr>mach := m\<rparr>) t) t"
    if "\<exists>m. t = s\<lparr>mach := m\<rparr> \<and> inside (mach s) ?A m" for t
    by (rule wp_mono [OF wp_cprintf_loop]) (use that ok in \<open>auto simp: crt_ok_def cursor_def\<close>)
  have leave: "wp (whenM (cons_locking s) (release ConsLock)) (\<lambda>_ u. cons_step s u) t"
    if t: "\<exists>m. inside (mach s) ?A m \<and> out_step (s\<lparr>mach := m\<rparr>) t" for t
  proof -
    from t obtain m where m: "inside (mach s) ?A m" "out_step (s\<lparr>mach := m\<rparr>) t" by blast
    have fin: "cons_step s (t\<lparr>mach := m'\<rparr>)" if "inside (mach s) {} m'" for m'
      using out_step_mach [OF m(2), of m'] that unfolding out_step_def cons_step_def
      by (cases s; cases t) (simp add: crt_ok_def cursor_def)
    have "mach t = m" using out_step_same [OF m(2)] by simp
    then show ?thesis
      using wp_release_if [OF ok(1), of "cons_locking s" ConsLock t] m fin by auto
  qed
  show ?thesis
    unfolding cprintf_def option.case
    by (rule wp_bnd, simp only: wp_get) (rule wp_seqI [OF enter], rule wp_seqI [OF body], assumption, rule leave)
qed

lemma wp_call_cprintf: "cons_ready s \<Longrightarrow> wp (call_cprintf fmt args) (\<lambda>_ s'. cons_step s s') s"
  unfolding call_cprintf_def by (rule wp_cprintf)

lemma cprintf_null:
  assumes "cons_ready s"
  shows "cprintf None stack s es = Panic ''null fmt''"
proof -
  have ok: "mach_ok (mach s)" "cons_locking s \<Longrightarrow> lock_free (mach s) ConsLock"
    using assms by (auto simp: cons_ready_def)
  show ?thesis
    by (cases "cons_locking s") (use ok acquire_run [of s ConsLock es] in \<open>simp_all add: cprintf_def krun\<close>)
qed

text \<open>The words a format asks for.\<close>

fun directives :: "string \<Rightarrow> nat" where
  "directives [] = 0"
| "directives (c # cs) =
     (if c \<noteq> CHR ''%'' then directives cs
      else case cs of
        [] \<Rightarrow> 0
      | d # ds \<Rightarrow> (if d \<in> {CHR ''d'', CHR ''x'', CHR ''p'', CHR ''s''} then 1 else 0) + directives ds)"

lemma cprintf_loop_frame:
  "(\<forall>k < argp + directives fmt. stack k = stack' k) \<Longrightarrow> cprintf_loop fmt stack argp = cprintf_loop fmt stack' argp"
proof (induction fmt stack argp rule: cprintf_loop.induct)
  case (2 c cs stack argp)
  show ?case
  proof (cases cs)
    case (Cons d ds)
    then show ?thesis using 2 by (auto split: if_splits)
  qed (use 2 in \<open>auto split: if_splits\<close>)
qed simp

lemma cprintf_frame:
  assumes "directives fmt \<le> length args" "\<forall>k < length args. stack k = args ! k"
  shows "cprintf (Some fmt) stack = call_cprintf fmt args"
  unfolding call_cprintf_def cprintf_def option.case
  by (subst cprintf_loop_frame [where stack' = "\<lambda>k. if k < length args then args ! k else cint 0"]) (use assms in simp_all)

lemma unat_abs32:
  assumes "- (2 ^ 31) \<le> x" "x < 2 ^ 31"
  shows "unat (word_of_int (if x < 0 then - x else x) :: u32) = nat \<bar>x\<bar>"
  using assms by (auto simp: unat_eq_nat_uint uint_word_of_int)

section \<open>Properties\<close>


definition witness_cons :: cons_state where
  "witness_cons = kmem_state.extend witness_kmem \<lparr>cons_locking = True, panicked = False,
     crt = (\<lambda>_. 0), crt_reg = (\<lambda>_. 0), uart = True, uart_out = []\<rparr>"


text \<open>C9: The digits \<^verbatim>\<open>printint\<close> stores (least significant first) denote the number it was given,
  with a final minus sign exactly for a negative number, and the 16 bytes of its buffer are enough,
  in decimal and in hexadecimal, for every 32-bit number.\<close>

theorem printint_denotes:
  assumes "- (2 ^ 31) \<le> xx" "xx < 2 ^ 31" "base = 10 \<or> base = 16"
  shows "printint_buf xx base True = digit_loop base (nat \<bar>xx\<bar>) @ (if xx < 0 then [45] else []) \<and>
    digits_value base (digit_loop base (nat \<bar>xx\<bar>)) = nat \<bar>xx\<bar> \<and>
    length (printint_buf xx base True) \<le> 16"
proof -
  have "nat \<bar>xx\<bar> < base ^ Suc 9" using assms by auto
  then have "length (digit_loop base (nat \<bar>xx\<bar>)) \<le> Suc 9"
    using assms(3) by (intro digit_loop_length) auto
  then show ?thesis
    using unat_abs32 [OF assms(1,2)] digits_value_loop [of base "nat \<bar>xx\<bar>"] assms(3)
    by (auto simp: printint_buf_def)
qed

theorem printint_denotes_witness:
  "printint_buf (-2020) 10 True = digit_loop 10 2020 @ [45] \<and> digits_value 10 (digit_loop 10 2020) = 2020"
  using printint_denotes [of "-2020" 10] by simp

end
