(* ===== verification/Proc_Data.thy ===== *)
theory Proc_Data
  imports Console_Out
begin

text \<open>
  The process structure of \<^verbatim>\<open>proc.h\<close> and the layout of the trap frame and the context it points
  to.  A \<^verbatim>\<open>struct proc *\<close> is an index into the process table, a \<^verbatim>\<open>struct file *\<close> an index into the
  file table, a \<^verbatim>\<open>struct inode *\<close> an index into the inode cache; the null pointer is \<^term>\<open>None\<close>.
\<close>

datatype procstate = UNUSED | EMBRYO | SLEEPING | RUNNABLE | RUNNING | ZOMBIE

text \<open>The addresses processes sleep on.\<close>

datatype chan =
    ChTicks
  | ChProc nat
  | ChBarrier
  | ChPipeRead u32
  | ChPipeWrite u32
  | ChBuf nat
  | ChLog
  | ChInput
  | ChSleep sleeplock_id

text \<open>The field \<^verbatim>\<open>cycleNum\<close> is a \<^verbatim>\<open>double\<close> that starts at one and is only ever incremented, so it
  holds a whole number; it is kept as an \<^typ>\<open>int\<close>.\<close>

record proc =
  p_sz :: u32
  p_pgdir :: u32
  p_kstack :: u32
  p_state :: procstate
  p_pid :: int
  p_parent :: "nat option"
  p_tf :: u32
  p_context :: u32
  p_chan :: "chan option"
  p_killed :: bool
  p_ofile :: "nat option list"
  p_cwd :: "nat option"
  p_name :: string
  p_level :: int
  p_ticket :: int
  p_arrTime :: int
  p_cycleNum :: int
  p_remaining_priority :: int

text \<open>The fields of \<^verbatim>\<open>struct trapframe\<close> (\<^verbatim>\<open>x86.h\<close>) with their offsets; the segment registers are
  16 bits wide, the others 32.\<close>

datatype trapframe =
    Tedi | Tesi | Tebp | Toesp | Tebx | Tedx | Tecx | Teax | Tgs | Tfs | Tes | Tds | Ttrapno | Terr
  | Teip | Tcs | Teflags | Tesp | Tss

primrec tf_off :: "trapframe \<Rightarrow> u32" where
  "tf_off Tedi = 0"
| "tf_off Tesi = 4"
| "tf_off Tebp = 8"
| "tf_off Toesp = 12"
| "tf_off Tebx = 16"
| "tf_off Tedx = 20"
| "tf_off Tecx = 24"
| "tf_off Teax = 28"
| "tf_off Tgs = 32"
| "tf_off Tfs = 36"
| "tf_off Tes = 40"
| "tf_off Tds = 44"
| "tf_off Ttrapno = 48"
| "tf_off Terr = 52"
| "tf_off Teip = 56"
| "tf_off Tcs = 60"
| "tf_off Teflags = 64"
| "tf_off Tesp = 68"
| "tf_off Tss = 72"

abbreviation "sizeof_trapframe \<equiv> 76 :: u32"

text \<open>The context of \<^verbatim>\<open>swtch\<close>: five saved registers, the return address last.\<close>

datatype context_reg = Cedi | Cesi | Cebx | Cebp | Ceip

primrec ctx_off :: "context_reg \<Rightarrow> u32" where
  "ctx_off Cedi = 0"
| "ctx_off Cesi = 4"
| "ctx_off Cebx = 8"
| "ctx_off Cebp = 12"
| "ctx_off Ceip = 16"

abbreviation "sizeof_context \<equiv> 20 :: u32"

text \<open>The process structure as the zeroed kernel image has it.\<close>

definition zero_proc :: proc where
  "zero_proc = \<lparr>p_sz = 0, p_pgdir = 0, p_kstack = 0, p_state = UNUSED, p_pid = 0, p_parent = None,
     p_tf = 0, p_context = 0, p_chan = None, p_killed = False, p_ofile = replicate NOFILE None,
     p_cwd = None, p_name = [], p_level = 0, p_ticket = 0, p_arrTime = 0, p_cycleNum = 0,
     p_remaining_priority = 0\<rparr>"

end
