(* ===== verification/Vm.thy ===== *)
theory Vm
  imports Proc_Data
begin

text \<open>
  Virtual memory, \<^verbatim>\<open>vm.c\<close>.  Page directories and page tables are the two-level tables of the
  i386 inside the kernel memory: a page directory is the address of a page of 1024 words.
  \<open>kdata\<close> is the linker symbol \<^verbatim>\<open>data\<close>, \<open>ts_addr\<close> the address of the task state segment of a
  processor.  Loops that step through the address space have fuel for all of its \<open>2 ^ 20\<close> pages;
  a loop that goes round more often than that goes round forever.
\<close>

record vm_state = cons_state +
  kpgdir :: u32
  kdata :: u32
  ts_addr :: "nat \<Rightarrow> u32"

definition lcr3 :: "u32 \<Rightarrow> ('z kbase_scheme, unit) kM" where
  "lcr3 v = upd_mach (\<lambda>m. m\<lparr>cr3 := v\<rparr>)"

definition load_mem :: "u32 \<Rightarrow> ('z kbase_scheme, u32) kM" where
  "load_mem a = get (\<lambda>s. load32 (mem s) a)"

definition store_mem :: "u32 \<Rightarrow> u32 \<Rightarrow> ('z kbase_scheme, unit) kM" where
  "store_mem a v = upd (\<lambda>s. s\<lparr>mem := store32 (mem s) a v\<rparr>)"

definition upd_mem :: "(mem \<Rightarrow> mem) \<Rightarrow> ('z kbase_scheme, unit) kM" where
  "upd_mem f = upd (\<lambda>s. s\<lparr>mem := f (mem s)\<rparr>)"

section \<open>Segments\<close>

abbreviation "SEG_KCODE \<equiv> 1 :: nat"
abbreviation "SEG_KDATA \<equiv> 2 :: nat"
abbreviation "SEG_UCODE \<equiv> 3 :: nat"
abbreviation "SEG_UDATA \<equiv> 4 :: nat"
abbreviation "SEG_TSS \<equiv> 5 :: nat"
abbreviation "DPL_USER \<equiv> 3"
abbreviation "STA_X \<equiv> 8 :: 4 word"
abbreviation "STA_W \<equiv> 2 :: 4 word"
abbreviation "STA_R \<equiv> 2 :: 4 word"
abbreviation "STS_T32A \<equiv> 9 :: 4 word"
abbreviation "sizeof_taskstate \<equiv> 104 :: u32"

definition set_gdt :: "nat \<Rightarrow> nat \<Rightarrow> segdesc \<Rightarrow> ('z kbase_scheme, unit) kM" where
  "set_gdt c i d = upd_cpu c (\<lambda>cp. cp\<lparr>gdt := (gdt cp)[i := d]\<rparr>)"

definition seginit :: "('z kbase_scheme, unit) kM" where
  "seginit =
     bnd cpuid (\<lambda>c.
     stmts [
       set_gdt c SEG_KCODE (SEG (STA_X OR STA_R) 0 0xffffffff 0),
       set_gdt c SEG_KDATA (SEG STA_W 0 0xffffffff 0),
       set_gdt c SEG_UCODE (SEG (STA_X OR STA_R) 0 0xffffffff DPL_USER),
       set_gdt c SEG_UDATA (SEG STA_W 0 0xffffffff DPL_USER),
       upd_mach (\<lambda>m. m\<lparr>gdtr := Some c\<rparr>)])"

section \<open>Page tables\<close>

definition walkpgdir :: "u32 \<Rightarrow> u32 \<Rightarrow> bool \<Rightarrow> ('z kmem_state_scheme, u32) kM" where
  "walkpgdir pgdir va alloc =
     bnd (load_mem (pgdir + 4 * PDX va)) (\<lambda>pde.
     if pde AND PTE_P \<noteq> 0 then ret (P2V (PTE_ADDR pde) + 4 * PTX va)
     else if \<not> alloc then ret 0
     else
       bnd kalloc (\<lambda>pgtab.
       if pgtab = 0 then ret 0
       else
         seq (upd_mem (\<lambda>h. memset h pgtab 0 PGSIZE)) (
         seq (store_mem (pgdir + 4 * PDX va) (V2P pgtab OR PTE_P OR PTE_W OR PTE_U)) (
         ret (pgtab + 4 * PTX va)))))"

primrec mappages_loop :: "nat \<Rightarrow> u32 \<Rightarrow> u32 \<Rightarrow> u32 \<Rightarrow> u32 \<Rightarrow> u32 \<Rightarrow> ('z kmem_state_scheme, int) kM" where
  "mappages_loop 0 pgdir a lst pa perm = spin"
| "mappages_loop (Suc n) pgdir a lst pa perm =
     bnd (walkpgdir pgdir a True) (\<lambda>pte.
     if pte = 0 then ret (- 1)
     else
       bnd (load_mem pte) (\<lambda>e.
       if e AND PTE_P \<noteq> 0 then panic ''remap''
       else
         seq (store_mem pte (pa OR perm OR PTE_P)) (
         if a = lst then ret 0
         else mappages_loop n pgdir (a + PGSIZE) lst (pa + PGSIZE) perm)))"

definition mappages :: "u32 \<Rightarrow> u32 \<Rightarrow> u32 \<Rightarrow> u32 \<Rightarrow> u32 \<Rightarrow> ('z kmem_state_scheme, int) kM" where
  "mappages pgdir va sz pa perm =
     mappages_loop (2 ^ 20) pgdir (PGROUNDDOWN va) (PGROUNDDOWN (va + sz - 1)) pa perm"

primrec deallocuvm_loop :: "nat \<Rightarrow> u32 \<Rightarrow> u32 \<Rightarrow> u32 \<Rightarrow> ('z kmem_state_scheme, unit) kM" where
  "deallocuvm_loop 0 pgdir a oldsz = spin"
| "deallocuvm_loop (Suc n) pgdir a oldsz =
     (if a < oldsz then
        bnd (walkpgdir pgdir a False) (\<lambda>pte.
        bnd (if pte = 0 then ret (PGADDR (PDX a + 1) 0 0 - PGSIZE)
             else
               bnd (load_mem pte) (\<lambda>e.
               if e AND PTE_P \<noteq> 0
               then if PTE_ADDR e = 0 then panic ''kfree''
                    else seq (kfree (P2V (PTE_ADDR e))) (seq (store_mem pte 0) (ret a))
               else ret a)) (\<lambda>a.
        deallocuvm_loop n pgdir (a + PGSIZE) oldsz))
      else ret ())"

definition deallocuvm :: "u32 \<Rightarrow> u32 \<Rightarrow> u32 \<Rightarrow> ('z kmem_state_scheme, u32) kM" where
  "deallocuvm pgdir oldsz newsz =
     (if newsz \<ge> oldsz then ret oldsz
      else seq (deallocuvm_loop (2 ^ 20) pgdir (PGROUNDUP newsz) oldsz) (ret newsz))"

definition freevm :: "u32 \<Rightarrow> ('z kmem_state_scheme, unit) kM" where
  "freevm pgdir =
     (if pgdir = 0 then panic ''freevm: no pgdir''
      else
        seq (deallocuvm pgdir KERNBASE 0) (
        seq (forM [0..<NPDENTRIES] (\<lambda>i.
               bnd (load_mem (pgdir + 4 * of_nat i)) (\<lambda>e.
               whenM (e AND PTE_P \<noteq> 0) (kfree (P2V (PTE_ADDR e)))))) (
        kfree pgdir)))"

text \<open>The rows of the table \<^verbatim>\<open>kmap\<close>: virtual address, start and end of the physical range,
  permissions.\<close>

definition kmap :: "u32 \<Rightarrow> (u32 \<times> u32 \<times> u32 \<times> u32) list" where
  "kmap dat =
     [(KERNBASE, 0, EXTMEM, PTE_W),
      (KERNLINK, V2P KERNLINK, V2P dat, 0),
      (dat, V2P dat, PHYSTOP, PTE_W),
      (DEVSPACE, DEVSPACE, 0, PTE_W)]"

definition setupkvm :: "('z vm_state_scheme, u32) kM" where
  "setupkvm =
     bnd kalloc (\<lambda>pgdir.
     if pgdir = 0 then ret 0
     else
       seq (upd_mem (\<lambda>h. memset h pgdir 0 PGSIZE)) (
       if P2V PHYSTOP > DEVSPACE then panic ''PHYSTOP too high''
       else
         bnd (get kdata) (\<lambda>dat.
         bnd (firstM (kmap dat) (\<lambda>(virt, pstart, pend, perm).
                bnd (mappages pgdir virt (pend - pstart) pstart perm) (\<lambda>r.
                if r < 0 then seq (freevm pgdir) (ret (Some ())) else ret None))) (\<lambda>failed.
         ret (case failed of Some _ \<Rightarrow> 0 | None \<Rightarrow> pgdir)))))"

definition switchkvm :: "('z vm_state_scheme, unit) kM" where
  "switchkvm = bnd (get kpgdir) (\<lambda>d. lcr3 (V2P d))"

definition kvmalloc :: "('z vm_state_scheme, unit) kM" where
  "kvmalloc = bnd setupkvm (\<lambda>d. seq (upd (\<lambda>s. s\<lparr>kpgdir := d\<rparr>)) switchkvm)"

definition switchuvm :: "proc option \<Rightarrow> ('z vm_state_scheme, unit) kM" where
  "switchuvm po =
     (case po of None \<Rightarrow> panic ''switchuvm: no process''
      | Some p \<Rightarrow>
          if p_kstack p = 0 then panic ''switchuvm: no kstack''
          else if p_pgdir p = 0 then panic ''switchuvm: no pgdir''
          else
            seq pushcli (
            bnd mycpu (\<lambda>c.
            bnd (get (\<lambda>s. ts_addr s c)) (\<lambda>ts.
            stmts [
              set_gdt c SEG_TSS (SEG16 STS_T32A ts (sizeof_taskstate - 1) 0),
              upd_cpu c (\<lambda>cp. cp\<lparr>gdt := (gdt cp)[SEG_TSS := (gdt cp ! SEG_TSS)\<lparr>sd_s := 0\<rparr>]\<rparr>),
              upd_cpu c (\<lambda>cp. cp\<lparr>ts_ss0 := of_nat SEG_KDATA * 8\<rparr>),
              upd_cpu c (\<lambda>cp. cp\<lparr>ts_esp0 := p_kstack p + KSTACKSIZE\<rparr>),
              upd_cpu c (\<lambda>cp. cp\<lparr>ts_iomb := 0xFFFF\<rparr>),
              upd_mach (\<lambda>m. m\<lparr>task_reg := of_nat SEG_TSS * 8\<rparr>),
              lcr3 (V2P (p_pgdir p)),
              popcli]))))"

section \<open>User memory\<close>

definition inituvm :: "u32 \<Rightarrow> u32 \<Rightarrow> u32 \<Rightarrow> ('z kmem_state_scheme, unit) kM" where
  "inituvm pgdir init sz =
     (if sz \<ge> PGSIZE then panic ''inituvm: more than a page''
      else
        bnd kalloc (\<lambda>pg.
        seq (upd_mem (\<lambda>h. memset h pg 0 PGSIZE)) (
        bnd (mappages pgdir 0 PGSIZE (V2P pg) (PTE_W OR PTE_U)) (\<lambda>_.
        upd_mem (\<lambda>h. memmove h pg init sz)))))"

primrec allocuvm_loop :: "nat \<Rightarrow> u32 \<Rightarrow> u32 \<Rightarrow> u32 \<Rightarrow> u32 \<Rightarrow> ('z cons_state_scheme, u32) kM" where
  "allocuvm_loop 0 pgdir a oldsz newsz = spin"
| "allocuvm_loop (Suc n) pgdir a oldsz newsz =
     (if a < newsz then
        bnd kalloc (\<lambda>pg.
        if pg = 0 then
          seq (call_cprintf (''allocuvm out of memory'' @ [CHR 0x0A]) []) (
          bnd (deallocuvm pgdir newsz oldsz) (\<lambda>_. ret 0))
        else
          seq (upd_mem (\<lambda>h. memset h pg 0 PGSIZE)) (
          bnd (mappages pgdir a PGSIZE (V2P pg) (PTE_W OR PTE_U)) (\<lambda>r.
          if r < 0 then
            seq (call_cprintf (''allocuvm out of memory (2)'' @ [CHR 0x0A]) []) (
            bnd (deallocuvm pgdir newsz oldsz) (\<lambda>_. seq (kfree pg) (ret 0)))
          else allocuvm_loop n pgdir (a + PGSIZE) oldsz newsz)))
      else ret newsz)"

definition allocuvm :: "u32 \<Rightarrow> u32 \<Rightarrow> u32 \<Rightarrow> ('z cons_state_scheme, u32) kM" where
  "allocuvm pgdir oldsz newsz =
     (if newsz \<ge> KERNBASE then ret 0
      else if newsz < oldsz then ret oldsz
      else allocuvm_loop (2 ^ 20) pgdir (PGROUNDUP oldsz) oldsz newsz)"

definition clearpteu :: "u32 \<Rightarrow> u32 \<Rightarrow> ('z kmem_state_scheme, unit) kM" where
  "clearpteu pgdir uva =
     bnd (walkpgdir pgdir uva False) (\<lambda>pte.
     if pte = 0 then panic ''clearpteu''
     else bnd (load_mem pte) (\<lambda>e. store_mem pte (e AND NOT PTE_U)))"

text \<open>The loop of \<^verbatim>\<open>copyuvm\<close>; it yields whether every page was copied.\<close>

primrec copyuvm_loop :: "nat \<Rightarrow> u32 \<Rightarrow> u32 \<Rightarrow> u32 \<Rightarrow> u32 \<Rightarrow> ('z kmem_state_scheme, bool) kM" where
  "copyuvm_loop 0 pgdir d i sz = spin"
| "copyuvm_loop (Suc n) pgdir d i sz =
     (if i < sz then
        bnd (walkpgdir pgdir i False) (\<lambda>pte.
        if pte = 0 then panic ''copyuvm: pte should exist''
        else
          bnd (load_mem pte) (\<lambda>e.
          if e AND PTE_P = 0 then panic ''copyuvm: page not present''
          else
            bnd kalloc (\<lambda>pg.
            if pg = 0 then ret False
            else
              seq (upd_mem (\<lambda>h. memmove h pg (P2V (PTE_ADDR e)) PGSIZE)) (
              bnd (mappages d i PGSIZE (V2P pg) (PTE_FLAGS e)) (\<lambda>r.
              if r < 0 then seq (kfree pg) (ret False)
              else copyuvm_loop n pgdir d (i + PGSIZE) sz)))))
      else ret True)"

definition copyuvm :: "u32 \<Rightarrow> u32 \<Rightarrow> ('z vm_state_scheme, u32) kM" where
  "copyuvm pgdir sz =
     bnd setupkvm (\<lambda>d.
     if d = 0 then ret 0
     else
       bnd (copyuvm_loop (2 ^ 20 + 1) pgdir d 0 sz) (\<lambda>ok.
       if ok then ret d else seq (freevm d) (ret 0)))"

text \<open>\<^verbatim>\<open>uva2ka\<close> reads the entry at the address \<^verbatim>\<open>walkpgdir\<close> returns without testing it.\<close>

definition uva2ka :: "u32 \<Rightarrow> u32 \<Rightarrow> ('z kmem_state_scheme, u32) kM" where
  "uva2ka pgdir uva =
     bnd (walkpgdir pgdir uva False) (\<lambda>pte.
     bnd (load_mem pte) (\<lambda>e.
     if e AND PTE_P = 0 then ret 0
     else if e AND PTE_U = 0 then ret 0
     else ret (P2V (PTE_ADDR e))))"

text \<open>\<^verbatim>\<open>copyout\<close> is given the bytes at \<^verbatim>\<open>p\<close>, which may lie in the user part of the address space; \<open>store_bytes\<close>
  is the \<^verbatim>\<open>memmove\<close> of them into the page.\<close>

primrec store_bytes :: "mem \<Rightarrow> u32 \<Rightarrow> u8 list \<Rightarrow> mem" where
  "store_bytes h a [] = h"
| "store_bytes h a (c # cs) = store_bytes (h(a := c)) (a + 1) cs"

primrec copyout_loop :: "nat \<Rightarrow> u32 \<Rightarrow> u32 \<Rightarrow> u8 list \<Rightarrow> ('z kmem_state_scheme, int) kM" where
  "copyout_loop 0 pgdir va buf = spin"
| "copyout_loop (Suc k) pgdir va buf =
     (if buf \<noteq> [] then
        bnd (uva2ka pgdir (PGROUNDDOWN va)) (\<lambda>pa0.
        if pa0 = 0 then ret (- 1)
        else
          let va0 = PGROUNDDOWN va; n = min (unat (PGSIZE - (va - va0))) (length buf) in
          seq (upd_mem (\<lambda>h. store_bytes h (pa0 + (va - va0)) (take n buf)))
              (copyout_loop k pgdir (va0 + PGSIZE) (drop n buf)))
      else ret 0)"

definition copyout :: "u32 \<Rightarrow> u32 \<Rightarrow> u8 list \<Rightarrow> ('z kmem_state_scheme, int) kM" where
  "copyout pgdir va p = copyout_loop (2 ^ 20 + 2) pgdir va p"

section \<open>Words of page tables\<close>

lemma unat_index: "unat (PDX va) < 1024" "unat (PTX va) < 1024"
proof -
  have m: "0x3FF = (mask 10 :: u32)" by (simp add: mask_eq_exp_minus_1)
  have "unat (w AND mask 10) < 1024" for w :: u32
    unfolding take_bit_eq_mask [symmetric] unsigned_take_bit_eq
    using take_bit_nat_less_exp [of 10 "unat w"] by simp
  then show "unat (PDX va) < 1024" "unat (PTX va) < 1024"
    unfolding PDX_def PTX_def m by simp_all
qed

lemma PGROUNDDOWN_index: "PGROUNDDOWN va = PGADDR (PDX va) (PTX va) 0"
proof -
  have m: "0x3FF = (mask 10 :: u32)" "PGSIZE - 1 = (mask 12 :: u32)"
    by (simp_all add: mask_eq_exp_minus_1)
  show ?thesis
  proof (rule bit_word_eqI)
    fix n :: nat
    assume "n < LENGTH(32)"
    then consider "n < 12" | "12 \<le> n" "n < 22" | "22 \<le> n" "n < 32" by fastforce
    then show "bit (PGROUNDDOWN va) n \<longleftrightarrow> bit (PGADDR (PDX va) (PTX va) 0) n"
      unfolding PGADDR_def PDX_def PTX_def PGROUNDDOWN_def m by cases (auto simp: bit_simps)
  qed
qed

lemma bit_PGROUNDDOWN: "bit (PGROUNDDOWN va) n \<longleftrightarrow> 12 \<le> n \<and> bit va n"
proof -
  have m: "PGSIZE - 1 = (mask 12 :: u32)" by (simp add: mask_eq_exp_minus_1)
  show ?thesis
    unfolding PGROUNDDOWN_def m bit_and_iff bit_not_iff bit_mask_iff
    by (auto dest: bit_imp_le_length)
qed

lemma PDX_PGROUNDDOWN: "PDX (PGROUNDDOWN va) = PDX va" "PTX (PGROUNDDOWN va) = PTX va"
  by (rule bit_word_eqI; simp add: PDX_def PTX_def bit_and_iff bit_drop_bit_eq bit_PGROUNDDOWN)+

lemma same_page: "PDX va = PDX va' \<and> PTX va = PTX va' \<longleftrightarrow> PGROUNDDOWN va = PGROUNDDOWN va'"
  by (metis PGROUNDDOWN_index PDX_PGROUNDDOWN)

lemma unat_slot: "unat i < 1024 \<Longrightarrow> unat (4 * i :: u32) = 4 * unat i"
  by (simp add: unat_word_ariths)

lemma slot_inj:
  assumes "is_page p" "is_page q" "unat i < 1024" "unat j < 1024" "p + 4 * i = q + 4 * j"
  shows "p = q \<and> i = j"
proof -
  have "p = q"
    using block_offset_inj [of 4096 p q "4 * i" "4 * j"] assms by (simp add: is_page_def unat_slot)
  then have "4 * i = 4 * j" using assms(5) by simp
  then have "4 * unat i = 4 * unat j" using assms(3,4) unat_slot by metis
  then show ?thesis using \<open>p = q\<close> by (simp add: word_unat_eq_iff)
qed

lemma slot_aligned: "is_page p \<Longrightarrow> unat i < 1024 \<Longrightarrow> aligned4 (p + 4 * i)"
proof -
  assume p: "is_page p" and i: "unat i < 1024"
  have "unat (p + 4 * i) = unat p + 4 * unat i"
    using unat_add_block [of 4096 p "4 * i"] p i by (simp add: is_page_def unat_slot)
  moreover have "4 dvd unat p" using p is_page_aligned4 by (simp add: aligned4_def)
  ultimately show ?thesis by (simp add: aligned4_def)
qed

lemma slot_byte: "unat i < 1024 \<Longrightarrow> unat j < 4 \<Longrightarrow> unat (4 * i + j :: u32) < 4096"
  by (simp add: unat_word_ariths)

lemma load32_slot_store:
  assumes "is_page p" "is_page q" "unat i < 1024" "unat j < 1024"
  shows "load32 (store32 h (p + 4 * i) v) (q + 4 * j) = (if q = p \<and> j = i then v else load32 h (q + 4 * j))"
  using assms slot_inj [OF assms] slot_aligned [of p i] slot_aligned [of q j]
    load32_store32_same load32_store32_other by metis

lemma load32_slot_cong:
  assumes "is_page q" "unat j < 1024" "\<And>a. in_range a q 4096 \<Longrightarrow> h' a = h a"
  shows "load32 h' (q + 4 * j) = load32 h (q + 4 * j)"
proof (rule load32_cong, rule assms(3))
  fix i :: u32 assume "unat i < 4"
  then show "in_range (q + 4 * j + i) q 4096"
    using slot_byte [OF assms(2), of i] by (simp add: in_range_def algebra_simps)
qed

lemma load32_slot_memset:
  assumes "is_page x" "is_page q" "unat j < 1024"
  shows "load32 (memset h x 0 PGSIZE) (q + 4 * j) = (if q = x then 0 else load32 h (q + 4 * j))"
proof (cases "q = x")
  case True
  have "load32 (memset h x 0 PGSIZE) (q + 4 * j) = load32 (\<lambda>_. 0) (q + 4 * j)"
    by (rule load32_slot_cong) (use assms True in \<open>simp_all add: memset_apply\<close>)
  then show ?thesis using True by (simp add: load32_def)
next
  case False
  have "memset h x 0 PGSIZE a = h a" if "in_range a q 4096" for a
  proof -
    have "a = q + (a - q)" by simp
    then have "\<not> in_range a x 4096"
      using in_range_page [OF assms(1,2) False, of "a - q"] that by (simp add: in_range_def)
    then show ?thesis by (simp add: memset_apply)
  qed
  then have "load32 (memset h x 0 PGSIZE) (q + 4 * j) = load32 h (q + 4 * j)"
    by (rule load32_slot_cong [OF assms(2,3)])
  then show ?thesis using False by simp
qed

lemma page_bits: "is_page p \<Longrightarrow> bit p n \<Longrightarrow> 12 \<le> n"
proof (rule ccontr)
  assume p: "is_page p" "bit p n" "\<not> 12 \<le> n"
  have "take_bit 12 (unat p) = 0"
    using p(1) by (simp add: is_page_def take_bit_eq_mod)
  then have "\<not> bit (take_bit 12 (unat p)) n" by simp
  with p(2,3) show False by (simp add: bit_take_bit_iff bit_unsigned_iff)
qed

lemma PTE_ADDR_pte:
  assumes "is_page p" "unat f < 4096"
  shows "PTE_ADDR (p OR f) = p"
proof -
  have m: "0xFFF = (mask 12 :: u32)" by (simp add: mask_eq_exp_minus_1)
  have f: "n < 12" if "bit f n" for n
  proof (rule ccontr)
    assume "\<not> n < 12"
    have "take_bit 12 (unat f) = unat f"
      using assms(2) by (simp add: take_bit_eq_mod)
    moreover have "bit (unat f) n" using that by (simp add: bit_unsigned_iff bit_imp_le_length)
    ultimately show False using \<open>\<not> n < 12\<close> by (metis bit_take_bit_iff)
  qed
  show ?thesis
    by (rule bit_word_eqI) (use assms(1) in \<open>auto simp: PTE_ADDR_def m bit_simps dest: page_bits f\<close>)
qed

lemma is_page_V2P: "is_page (V2P p) \<longleftrightarrow> is_page p"
proof -
  have "unat (p - KERNBASE) = (if 0x80000000 \<le> unat p then unat p - 0x80000000 else unat p + 0x80000000)"
    by (simp add: unat_sub_if_size word_size)
  moreover have "4096 dvd (0x80000000 :: nat)" by simp
  ultimately show ?thesis
    unfolding is_page_def V2P_def by (metis dvd_add_left_iff le_add_diff_inverse2)
qed

lemma is_page_P2V: "is_page (P2V p) \<longleftrightarrow> is_page p"
  using is_page_V2P [of "P2V p"] by simp

section \<open>The mapping a page directory denotes\<close>

text \<open>\<open>pgtab h pd va\<close> is the page table that covers \<open>va\<close>, \<open>pte_of h pd va\<close> the entry found there; an
  address without a page table has the entry 0, which is not present.\<close>

definition pgtab :: "mem \<Rightarrow> u32 \<Rightarrow> u32 \<Rightarrow> u32 option" where
  "pgtab h pd va = (let e = load32 h (pd + 4 * PDX va) in
     if e AND PTE_P \<noteq> 0 then Some (P2V (PTE_ADDR e)) else None)"

definition pte_of :: "mem \<Rightarrow> u32 \<Rightarrow> u32 \<Rightarrow> u32" where
  "pte_of h pd va = (case pgtab h pd va of None \<Rightarrow> 0 | Some t \<Rightarrow> load32 h (t + 4 * PTX va))"

text \<open>A well-formed page table beside the free pages \<open>xs\<close>: the directory and its tables are pages,
  all different, and none of them is free.\<close>

definition pt_ok :: "mem \<Rightarrow> u32 \<Rightarrow> u32 list \<Rightarrow> bool" where
  "pt_ok h pd xs \<longleftrightarrow> is_page pd \<and> pd \<notin> set xs \<and>
     (\<forall>va t. pgtab h pd va = Some t \<longrightarrow> is_page t \<and> t \<noteq> 0 \<and> t \<noteq> pd \<and> t \<notin> set xs) \<and>
     (\<forall>va va' t. pgtab h pd va = Some t \<and> pgtab h pd va' = Some t \<longrightarrow> PDX va = PDX va')"

lemma pgtab_cong: "PDX va = PDX va' \<Longrightarrow> pgtab h pd va = pgtab h pd va'"
  by (simp add: pgtab_def)

lemma pte_of_cong: "PGROUNDDOWN va = PGROUNDDOWN va' \<Longrightarrow> pte_of h pd va = pte_of h pd va'"
  using same_page [of va va'] pgtab_cong [of va va' h pd]
  by (auto simp: pte_of_def split: option.split)

lemma slot_nonzero: "is_page t \<Longrightarrow> t \<noteq> 0 \<Longrightarrow> t + 4 * PTX va \<noteq> 0"
  using slot_inj [of t 0 "PTX va" 0] unat_index(2) [of va] by (auto simp: is_page_def)

lemma in_other_page:
  assumes "is_page x" "is_page q" "q \<noteq> x" "in_range a q 4096"
  shows "\<not> in_range a x 4096"
  using in_range_page [OF assms(1,2,3), of "a - q"] assms(4) by (simp add: in_range_def)

lemma store32_outside:
  assumes "unat i < 1024" "\<not> in_range a p 4096"
  shows "store32 h (p + 4 * i) v a = h a"
proof -
  have "a \<noteq> p + 4 * i + j" if "unat j < 4" for j
    using slot_byte [OF assms(1) that] assms(2) by (auto simp: in_range_def algebra_simps)
  from this [of 0] this [of 1] this [of 2] this [of 3] show ?thesis
    by (simp add: store32_def)
qed

lemma kmem_inv_frame:
  assumes "kmem_inv s xs" "\<And>x a. x \<in> set xs \<Longrightarrow> in_range a x 4096 \<Longrightarrow> h a = mem s a"
  shows "kmem_inv (s\<lparr>mem := h\<rparr>) xs"
proof -
  have "load32 h x = load32 (mem s) x" if "x \<in> set xs" for x
  proof -
    have "is_page x" using assms(1) that by (auto simp: kmem_inv_def page_ok_def)
    then show ?thesis
      using load32_slot_cong [of x 0 h "mem s"] assms(2) [OF that] by simp
  qed
  then show ?thesis
    using assms(1) freelist_at_cong [of xs h "mem s"] by (simp add: kmem_inv_def)
qed

text \<open>Hanging a fresh, cleared page into the directory.\<close>

definition add_table :: "mem \<Rightarrow> u32 \<Rightarrow> u32 \<Rightarrow> u32 \<Rightarrow> mem" where
  "add_table h pd va x =
     store32 (memset h x 0 PGSIZE) (pd + 4 * PDX va) (V2P x OR PTE_P OR PTE_W OR PTE_U)"

lemma entry_bits:
  assumes "is_page x"
  shows "(V2P x OR PTE_P OR PTE_W OR PTE_U) AND PTE_P \<noteq> 0"
    "P2V (PTE_ADDR (V2P x OR PTE_P OR PTE_W OR PTE_U)) = x"
proof -
  have b: "bit ((V2P x OR PTE_P OR PTE_W OR PTE_U) AND PTE_P) 0" by (simp add: bit_simps)
  show "(V2P x OR PTE_P OR PTE_W OR PTE_U) AND PTE_P \<noteq> 0"
  proof
    assume z: "(V2P x OR PTE_P OR PTE_W OR PTE_U) AND PTE_P = 0"
    from b have "bit (0 :: u32) 0" unfolding z .
    then show False by simp
  qed
  have "V2P x OR PTE_P OR PTE_W OR PTE_U = V2P x OR 7" by (simp add: or.assoc)
  then show "P2V (PTE_ADDR (V2P x OR PTE_P OR PTE_W OR PTE_U)) = x"
    using PTE_ADDR_pte [of "V2P x" 7] assms by (simp add: is_page_V2P)
qed

lemma add_table:
  assumes ok: "pt_ok h pd (x # xs)" and x: "is_page x" "x \<noteq> 0" "x \<notin> set xs" and none: "pgtab h pd va = None"
  shows "pgtab (add_table h pd va x) pd va' = (if PDX va' = PDX va then Some x else pgtab h pd va')"
    "pte_of (add_table h pd va x) pd va' = pte_of h pd va'"
    "pt_ok (add_table h pd va x) pd xs"
    "\<not> in_range a pd 4096 \<Longrightarrow> \<not> in_range a x 4096 \<Longrightarrow> add_table h pd va x a = h a"
proof -
  have pd: "is_page pd" "x \<noteq> pd" using ok by (auto simp: pt_ok_def)
  have ld: "load32 (add_table h pd va x) (q + 4 * j) =
      (if q = pd \<and> j = PDX va then V2P x OR PTE_P OR PTE_W OR PTE_U
       else if q = x then 0 else load32 h (q + 4 * j))" if "is_page q" "unat j < 1024" for q j
    unfolding add_table_def
    by (simp only: load32_slot_store [OF pd(1) that(1) unat_index(1) that(2)] load32_slot_memset [OF x(1) that])
  show tab: "pgtab (add_table h pd va x) pd va' = (if PDX va' = PDX va then Some x else pgtab h pd va')" for va'
    using ld [OF pd(1) unat_index(1)] entry_bits [OF x(1)] pd(2) by (simp add: pgtab_def)
  have tabs: "is_page t \<and> t \<noteq> 0 \<and> t \<noteq> pd \<and> t \<noteq> x \<and> t \<notin> set xs" if "pgtab h pd va' = Some t" for t va'
    using ok that unfolding pt_ok_def by auto
  show "pte_of (add_table h pd va x) pd va' = pte_of h pd va'"
  proof (cases "PDX va' = PDX va")
    case True
    then show ?thesis
      using tab [of va'] ld [OF x(1) unat_index(2)] pd(2) none pgtab_cong [OF True, of h pd]
      by (simp add: pte_of_def)
  next
    case False
    then show ?thesis
      using tab [of va'] tabs [of va'] ld [OF _ unat_index(2)] by (auto simp: pte_of_def split: option.split)
  qed
  show "pt_ok (add_table h pd va x) pd xs"
    unfolding pt_ok_def
  proof (intro conjI allI impI)
    show "is_page pd" "pd \<notin> set xs" using ok by (simp_all add: pt_ok_def)
    fix va1 t assume "pgtab (add_table h pd va x) pd va1 = Some t"
    then have "t = x \<or> pgtab h pd va1 = Some t" by (simp add: tab split: if_splits)
    then show "is_page t" "t \<noteq> 0" "t \<noteq> pd" "t \<notin> set xs" using x pd tabs by metis+
  next
    fix va1 va2 t
    assume "pgtab (add_table h pd va x) pd va1 = Some t \<and> pgtab (add_table h pd va x) pd va2 = Some t"
    then have *: "(if PDX va1 = PDX va then Some x else pgtab h pd va1) = Some t"
      "(if PDX va2 = PDX va then Some x else pgtab h pd va2) = Some t" by (simp_all add: tab)
    show "PDX va1 = PDX va2"
    proof (cases "t = x")
      case True
      then show ?thesis using * tabs by (metis option.inject)
    next
      case False
      then have "pgtab h pd va1 = Some t" "pgtab h pd va2 = Some t" using * by (auto split: if_splits)
      then show ?thesis using ok unfolding pt_ok_def by blast
    qed
  qed
  show "\<not> in_range a pd 4096 \<Longrightarrow> \<not> in_range a x 4096 \<Longrightarrow> add_table h pd va x a = h a"
    unfolding add_table_def using store32_outside [OF unat_index(1)] by (simp add: memset_apply)
qed

text \<open>Writing one entry.\<close>

lemma set_pte:
  fixes v :: u32
  assumes ok: "pt_ok h pd xs" and tab: "pgtab h pd va = Some t"
  defines "h' \<equiv> store32 h (t + 4 * PTX va) v"
  shows "pgtab h' pd va' = pgtab h pd va'"
    "pte_of h' pd va' = (if PGROUNDDOWN va' = PGROUNDDOWN va then v else pte_of h pd va')"
    "pt_ok h' pd xs"
    "\<not> in_range a t 4096 \<Longrightarrow> h' a = h a"
proof -
  have t: "is_page t" "t \<noteq> pd" and pd: "is_page pd" using ok tab unfolding pt_ok_def by blast+
  have ld: "load32 h' (q + 4 * j) = (if q = t \<and> j = PTX va then v else load32 h (q + 4 * j))"
    if "is_page q" "unat j < 1024" for q j
    unfolding h'_def by (rule load32_slot_store [OF t(1) that(1) unat_index(2) that(2)])
  show tabs: "pgtab h' pd va' = pgtab h pd va'" for va'
    using ld [OF pd unat_index(1)] t(2) by (simp add: pgtab_def)
  show "pt_ok h' pd xs"
    using ok unfolding pt_ok_def tabs .
  show "\<not> in_range a t 4096 \<Longrightarrow> h' a = h a"
    unfolding h'_def by (rule store32_outside [OF unat_index(2)])
  show "pte_of h' pd va' = (if PGROUNDDOWN va' = PGROUNDDOWN va then v else pte_of h pd va')"
  proof (cases "pgtab h pd va'")
    case None
    then have "PDX va' \<noteq> PDX va" using tab pgtab_cong by (metis option.distinct(1))
    then show ?thesis using None tabs same_page [of va' va] by (auto simp: pte_of_def)
  next
    case (Some t')
    have "is_page t'" using ok Some unfolding pt_ok_def by blast
    moreover have "t' = t \<longleftrightarrow> PDX va' = PDX va"
      using ok tab Some pgtab_cong unfolding pt_ok_def by (metis option.inject)
    ultimately show ?thesis
      using Some tabs ld [OF _ unat_index(2)] same_page [of va' va] by (simp add: pte_of_def)
  qed
qed

text \<open>What an operation on the page table \<open>pd\<close> may touch: the directory, its tables, free pages.\<close>

definition pt_step :: "u32 \<Rightarrow> u32 list \<Rightarrow> mem \<Rightarrow> u32 list \<Rightarrow> mem \<Rightarrow> bool" where
  "pt_step pd xs h ys h' \<longleftrightarrow> set ys \<subseteq> set xs \<and>
     (\<forall>va t. pgtab h' pd va = Some t \<longrightarrow> pgtab h pd va = Some t \<or> t \<in> set xs) \<and>
     (\<forall>a. \<not> in_range a pd 4096 \<and> (\<forall>va t. pgtab h pd va = Some t \<longrightarrow> \<not> in_range a t 4096) \<and>
        (\<forall>x \<in> set xs. \<not> in_range a x 4096) \<longrightarrow> h' a = h a)"

lemma pt_step_refl: "pt_step pd xs h xs h"
  by (simp add: pt_step_def)

lemma pt_step_trans:
  assumes "pt_step pd xs h ys h1" "pt_step pd ys h1 zs h2"
  shows "pt_step pd xs h zs h2"
  unfolding pt_step_def
proof (intro conjI allI impI)
  show "set zs \<subseteq> set xs" using assms by (auto simp: pt_step_def)
  show "pgtab h pd va = Some t \<or> t \<in> set xs" if "pgtab h2 pd va = Some t" for va t
    using assms that unfolding pt_step_def by blast
  fix a
  assume a: "\<not> in_range a pd 4096 \<and> (\<forall>va t. pgtab h pd va = Some t \<longrightarrow> \<not> in_range a t 4096) \<and>
      (\<forall>x \<in> set xs. \<not> in_range a x 4096)"
  then have "h1 a = h a" using assms(1) unfolding pt_step_def by blast
  moreover have "h2 a = h1 a"
    using a assms unfolding pt_step_def by blast
  ultimately show "h2 a = h a" by simp
qed

definition vm_post :: "u32 \<Rightarrow> u32 list \<Rightarrow> 'z kmem_state_scheme \<Rightarrow> u32 list \<Rightarrow> 'z kmem_state_scheme \<Rightarrow> bool" where
  "vm_post pd xs s ys s' \<longleftrightarrow> km_step s s' \<and> kmem_inv s' ys \<and> pt_ok (mem s') pd ys \<and>
     pt_step pd xs (mem s) ys (mem s')"

lemma vm_post_trans:
  "km_ready s \<Longrightarrow> vm_post pd xs s ys s1 \<Longrightarrow> vm_post pd ys s1 zs s2 \<Longrightarrow> vm_post pd xs s zs s2"
  unfolding vm_post_def using km_step_trans pt_step_trans by blast

lemma vm_post_refl: "km_ready s \<Longrightarrow> kmem_inv s xs \<Longrightarrow> pt_ok (mem s) pd xs \<Longrightarrow> vm_post pd xs s xs s"
  unfolding vm_post_def km_step_def km_ready_def by (simp add: pt_step_refl inside_refl)

lemma km_step_mem: "km_step s s' \<Longrightarrow> km_step s (s'\<lparr>mem := h\<rparr>)"
  unfolding km_step_def by (cases s; cases s') simp

text \<open>\<^verbatim>\<open>walkpgdir\<close> without allocation is a lookup; with allocation it adds a table when needed, changes
  no mapping, and fails only when no page is free.\<close>

lemma walkpgdir_lookup:
  "walkpgdir pd va False s es =
     Ret (case pgtab (mem s) pd va of None \<Rightarrow> 0 | Some t \<Rightarrow> t + 4 * PTX va) s es"
  by (simp add: walkpgdir_def load_mem_def krun pgtab_def Let_def)

lemma wp_walkpgdir:
  assumes r: "km_ready s" and inv: "kmem_inv s xs" and ok: "pt_ok (mem s) pd xs"
  shows "wp (walkpgdir pd va True) (\<lambda>p s'. \<exists>ys. vm_post pd xs s ys s' \<and>
    (\<forall>va'. pte_of (mem s') pd va' = pte_of (mem s) pd va') \<and>
    (if p = 0 then ys = [] else \<exists>t. pgtab (mem s') pd va = Some t \<and> p = t + 4 * PTX va)) s"
proof (cases "pgtab (mem s) pd va")
  case (Some t)
  then have "walkpgdir pd va True s es = Ret (t + 4 * PTX va) s es" for es
    by (auto simp: walkpgdir_def load_mem_def krun pgtab_def Let_def split: if_splits)
  moreover have "t + 4 * PTX va \<noteq> 0"
    using ok Some slot_nonzero unfolding pt_ok_def by blast
  ultimately show ?thesis
    using Some vm_post_refl [OF r inv ok] by (intro wp_runI) auto
next
  case None
  then have absent: "load32 (mem s) (pd + 4 * PDX va) AND PTE_P = 0"
    by (simp add: pgtab_def Let_def split: if_splits)
  let ?Q = "\<lambda>p s'. \<exists>ys. vm_post pd xs s ys s' \<and> (\<forall>va'. pte_of (mem s') pd va' = pte_of (mem s) pd va') \<and>
    (if p = 0 then ys = [] else \<exists>t. pgtab (mem s') pd va = Some t \<and> p = t + 4 * PTX va)"
  have rest: "wp (if p = 0 then ret 0
       else seq (upd_mem (\<lambda>h. memset h p 0 PGSIZE)) (
         seq (store_mem (pd + 4 * PDX va) (V2P p OR PTE_P OR PTE_W OR PTE_U)) (ret (p + 4 * PTX va)))) ?Q s1"
    if p: "p = (case xs of [] \<Rightarrow> 0 | x # _ \<Rightarrow> x)" "kmem_inv s1 (tl xs)" "mem s1 = mem s" "km_step s s1" for p s1
  proof (cases xs)
    case Nil
    then have "vm_post pd xs s [] s1"
      using p ok by (simp add: vm_post_def pt_step_refl)
    then show ?thesis using p(1,3) Nil by (auto simp: wp_ret)
  next
    case (Cons x ys)
    have x: "is_page x" "x \<noteq> 0" "x \<notin> set ys"
      using inv Cons page_ok_nonzero by (auto simp: kmem_inv_def page_ok_def)
    have okx: "pt_ok (mem s) pd (x # ys)" using ok Cons by simp
    let ?h = "add_table (mem s) pd va x"
    note at = add_table [OF okx x None]
    have "kmem_inv (s1\<lparr>mem := ?h\<rparr>) ys"
    proof (rule kmem_inv_frame)
      show "kmem_inv s1 ys" using p(2) Cons by simp
      fix y a assume y: "y \<in> set ys" "in_range a y 4096"
      have "is_page y" "y \<noteq> x" "y \<noteq> pd" "is_page pd"
        using y(1) inv x(3) okx Cons by (auto simp: kmem_inv_def page_ok_def pt_ok_def)
      then show "?h a = mem s1 a"
        using at(4) [of a] in_other_page [OF _ _ _ y(2)] x(1) p(3) by simp
    qed
    moreover have "pt_step pd xs (mem s) ys ?h"
      using at(1,4) Cons by (auto simp: pt_step_def split: if_splits)
    ultimately have "vm_post pd xs s ys (s1\<lparr>mem := ?h\<rparr>)"
      using at(3) km_step_mem [OF p(4)] by (simp add: vm_post_def)
    then show ?thesis
      using p(1,3) Cons x(1,2) at(1) [of va] at(2) slot_nonzero [OF x(1,2), of va]
      by (auto simp: wp_ret wp_upd upd_mem_def store_mem_def add_table_def intro!: wp_seq exI [of _ ys])
  qed
  show ?thesis
    unfolding walkpgdir_def load_mem_def
    by (rule wp_bnd, simp only: wp_get absent simp_thms if_False not_True_eq_False,
        rule wp_bndI [OF kalloc_step [OF r inv]], elim conjE, rule rest)
qed

text \<open>The mapping after the first \<open>m\<close> pages from \<open>a\<close> on have been entered.\<close>

definition mapped :: "mem \<Rightarrow> u32 \<Rightarrow> u32 \<Rightarrow> u32 \<Rightarrow> u32 \<Rightarrow> nat \<Rightarrow> mem \<Rightarrow> bool" where
  "mapped h pd a pa perm m h' \<longleftrightarrow> (\<forall>va. pte_of h' pd va =
     (if unat (PGROUNDDOWN va - a) < 4096 * m then (pa + (PGROUNDDOWN va - a)) OR perm OR PTE_P
      else pte_of h pd va))"

lemma is_page_PGROUNDDOWN: "is_page (PGROUNDDOWN va)"
  by (simp add: is_page_def unat_PGROUNDDOWN)

lemma is_page_diff:
  assumes "is_page p" "is_page q"
  shows "is_page (p - q)"
proof -
  obtain k j where "unat p = 4096 * k" "unat q = 4096 * j" using assms by (auto simp: is_page_def dvd_def)
  then have "unat (p - q) = (if j \<le> k then 4096 * (k - j) else 4096 * (2 ^ 20 + k - j))"
    using unat_u32 [of q] by (auto simp: unat_sub_if_size word_size)
  then show ?thesis unfolding is_page_def by simp
qed

lemma is_page_next: "is_page a \<Longrightarrow> is_page (a + 4096)"
proof -
  assume "is_page a"
  then have "is_page (a - 0xFFFFF000)" by (rule is_page_diff) (simp add: is_page_def)
  moreover have "a - 0xFFFFF000 = a + 4096" by (simp add: diff_eq_eq add.assoc)
  ultimately show ?thesis by simp
qed

lemma page_index:
  assumes "is_page d" "Suc m * 4096 \<le> 2 ^ 32"
  shows "unat (d - 4096) < 4096 * m \<longleftrightarrow> d \<noteq> 0 \<and> unat d < 4096 * Suc m"
proof (cases "d = 0")
  case True
  then show ?thesis using assms(2) by (simp add: unat_sub_if_size word_size)
next
  case False
  then have "unat d \<noteq> 0" by (simp add: unat_eq_0)
  then have "4096 \<le> unat d" using assms(1) unfolding is_page_def by (auto dest: dvd_imp_le)
  then show ?thesis using False by (simp add: unat_sub_if_size word_size) arith
qed

lemma mapped_first:
  assumes "pt_ok h pd xs" "pgtab h pd a = Some t" "is_page a"
  shows "mapped h pd a pa perm 1 (store32 h (t + 4 * PTX a) (pa OR perm OR PTE_P))"
proof -
  have a: "PGROUNDDOWN a = a"
    using assms(3) by (simp add: word_unat_eq_iff unat_PGROUNDDOWN is_page_def)
  have "unat (PGROUNDDOWN va - a) < 4096 \<longleftrightarrow> PGROUNDDOWN va = a" for va
  proof -
    have "is_page (PGROUNDDOWN va - a)" by (rule is_page_diff [OF is_page_PGROUNDDOWN assms(3)])
    then have "unat (PGROUNDDOWN va - a) < 4096 \<longleftrightarrow> unat (PGROUNDDOWN va - a) = 0"
      unfolding is_page_def using nat_dvd_not_less by auto
    then show ?thesis by (simp add: unat_eq_0)
  qed
  then show ?thesis
    using set_pte(2) [OF assms(1,2)] a by (simp add: mapped_def)
qed

lemma mapped_cons:
  assumes "mapped h pd a pa perm 1 h1" "mapped h1 pd (a + 4096) (pa + 4096) perm m h2"
    and "is_page a" "Suc m * 4096 \<le> 2 ^ 32"
  shows "mapped h pd a pa perm (Suc m) h2"
  unfolding mapped_def
proof
  fix va
  let ?d = "PGROUNDDOWN va - a"
  have d: "is_page ?d" by (rule is_page_diff [OF is_page_PGROUNDDOWN assms(3)])
  have "unat ?d < 4096 \<longleftrightarrow> ?d = 0"
    using d unfolding is_page_def by (metis dvd_imp_le not_less unat_eq_0 unat_0 zero_less_numeral neq0_conv)
  moreover have "pte_of h1 pd va = (if unat ?d < 4096 then (pa + ?d) OR perm OR PTE_P else pte_of h pd va)"
    using assms(1) by (simp add: mapped_def)
  moreover have "pte_of h2 pd va = (if unat (?d - 4096) < 4096 * m then (pa + ?d) OR perm OR PTE_P else pte_of h1 pd va)"
  proof -
    have eq: "PGROUNDDOWN va - (a + 4096) = ?d - 4096" "pa + 4096 + (?d - 4096) = pa + ?d" by simp_all
    show ?thesis
      using assms(2) [unfolded mapped_def, rule_format, of va] unfolding eq .
  qed
  ultimately show "pte_of h2 pd va = (if unat ?d < 4096 * Suc m then (pa + ?d) OR perm OR PTE_P else pte_of h pd va)"
    using page_index [OF d assms(4)] by auto
qed

lemma vm_post_store:
  assumes "vm_post pd xs s ys s1" "pgtab (mem s1) pd va = Some t"
  shows "vm_post pd xs s ys (s1\<lparr>mem := store32 (mem s1) (t + 4 * PTX va) v\<rparr>)"
proof -
  let ?h = "store32 (mem s1) (t + 4 * PTX va) v"
  have p: "km_step s s1" "kmem_inv s1 ys" "pt_ok (mem s1) pd ys" "pt_step pd xs (mem s) ys (mem s1)"
    using assms(1) by (simp_all add: vm_post_def)
  note sp = set_pte [OF p(3) assms(2)]
  have t: "is_page t" "t \<notin> set ys" using p(3) assms(2) unfolding pt_ok_def by blast+
  have "kmem_inv (s1\<lparr>mem := ?h\<rparr>) ys"
  proof (rule kmem_inv_frame [OF p(2)])
    fix y a assume y: "y \<in> set ys" "in_range a y 4096"
    then have "is_page y" "y \<noteq> t" using p(2) t(2) by (auto simp: kmem_inv_def page_ok_def)
    then show "?h a = mem s1 a"
      using sp(4) in_other_page [OF t(1) _ _ y(2)] by blast
  qed
  moreover have "pt_step pd ys (mem s1) ys ?h"
    unfolding pt_step_def using sp(1,4) assms(2) by auto
  ultimately show ?thesis
    using km_step_mem [OF p(1)] sp(3) pt_step_trans [OF p(4)] by (simp add: vm_post_def)
qed

lemma wp_map_first:
  assumes "km_ready s" "kmem_inv s xs" "pt_ok (mem s) pd xs" "is_page a" "pte_of (mem s) pd a AND PTE_P = 0"
    and fail: "\<And>s'. vm_post pd xs s [] s' \<Longrightarrow> mapped (mem s) pd a pa perm 0 (mem s') \<Longrightarrow> Q (- 1) s'"
    and succ: "\<And>ys s'. vm_post pd xs s ys s' \<Longrightarrow> mapped (mem s) pd a pa perm 1 (mem s') \<Longrightarrow> wp next Q s'"
  shows "wp (bnd (walkpgdir pd a True) (\<lambda>pte.
     if pte = 0 then ret (- 1)
     else
       bnd (load_mem pte) (\<lambda>e.
       if e AND PTE_P \<noteq> 0 then panic ''remap''
       else seq (store_mem pte (pa OR perm OR PTE_P)) next))) Q s"
proof (rule wp_bndI [OF wp_walkpgdir [OF assms(1-3)]], elim exE conjE)
  fix p s1 ys
  assume post: "vm_post pd xs s ys s1" and same: "\<forall>va'. pte_of (mem s1) pd va' = pte_of (mem s) pd va'"
    and p: "if p = 0 then ys = [] else \<exists>t. pgtab (mem s1) pd a = Some t \<and> p = t + 4 * PTX a"
  show "wp (if p = 0 then ret (- 1)
     else
       bnd (load_mem p) (\<lambda>e.
       if e AND PTE_P \<noteq> 0 then panic ''remap''
       else seq (store_mem p (pa OR perm OR PTE_P)) next)) Q s1"
  proof (cases "p = 0")
    case True
    then show ?thesis using fail post p same by (simp add: wp_ret mapped_def)
  next
    case False
    with p obtain t where t: "pgtab (mem s1) pd a = Some t" "p = t + 4 * PTX a" by auto
    have e: "load32 (mem s1) p AND PTE_P = 0"
      using same assms(5) t by (metis pte_of_def option.simps(5))
    let ?s = "s1\<lparr>mem := store32 (mem s1) p (pa OR perm OR PTE_P)\<rparr>"
    have ok1: "pt_ok (mem s1) pd ys" using post by (simp add: vm_post_def)
    have "mapped (mem s1) pd a pa perm 1 (mem ?s)"
      using mapped_first [OF ok1 t(1) assms(4)] t(2) by simp
    then have m: "mapped (mem s) pd a pa perm 1 (mem ?s)"
      using same by (simp add: mapped_def)
    have "vm_post pd xs s ys ?s" unfolding t(2) by (rule vm_post_store [OF post t(1)])
    then have "wp next Q ?s" using m by (rule succ)
    then show ?thesis
      using False e by (auto simp: load_mem_def store_mem_def wp_get wp_upd intro!: wp_bnd wp_seq)
  qed
qed

lemma wp_mappages_loop:
  assumes "km_ready s" "kmem_inv s xs" "pt_ok (mem s) pd xs" "is_page a" "lst = a + of_nat (4096 * n)"
    and "n < k" "Suc n * 4096 \<le> 2 ^ 32"
    and "\<And>va. unat (PGROUNDDOWN va - a) < 4096 * Suc n \<Longrightarrow> pte_of (mem s) pd va AND PTE_P = 0"
  shows "wp (mappages_loop k pd a lst pa perm) (\<lambda>r s'. \<exists>ys m. vm_post pd xs s ys s' \<and>
    mapped (mem s) pd a pa perm m (mem s') \<and> (r = 0 \<and> m = Suc n \<or> r = - 1 \<and> m \<le> n \<and> ys = [])) s"
  using assms
proof (induction n arbitrary: s xs a pa k)
  case 0
  then obtain k' where k: "k = Suc k'" by (cases k) auto
  have a: "PGROUNDDOWN a = a"
    using 0(4) by (simp add: word_unat_eq_iff unat_PGROUNDDOWN is_page_def)
  show ?case
    unfolding k mappages_loop.simps
    by (rule wp_map_first [OF 0(1-4)]) (use 0(5,8) a in \<open>auto simp: wp_ret\<close>)
next
  case (Suc n)
  then obtain k' where k: "k = Suc k'" "n < k'" by (cases k) auto
  have a: "PGROUNDDOWN a = a"
    using Suc.prems(4) by (simp add: word_unat_eq_iff unat_PGROUNDDOWN is_page_def)
  have "unat (of_nat (4096 * Suc n) :: u32) \<noteq> 0"
    using Suc.prems(7) by (subst unat_of_nat_u32) simp_all
  then have neq: "a \<noteq> lst" unfolding Suc.prems(5) by auto
  have a1: "is_page (a + 4096)" "lst = a + 4096 + of_nat (4096 * n)"
    using is_page_next [OF Suc.prems(4)] Suc.prems(5) by (simp_all add: algebra_simps)
  show ?case
    unfolding k mappages_loop.simps if_not_P [OF neq]
  proof (rule wp_map_first [OF Suc.prems(1-4)])
    show "pte_of (mem s) pd a AND PTE_P = 0" using Suc.prems(8) [of a] a by simp
    fix ys s1
    assume post: "vm_post pd xs s ys s1" and m1: "mapped (mem s) pd a pa perm 1 (mem s1)"
    have r1: "km_ready s1" "kmem_inv s1 ys" "pt_ok (mem s1) pd ys"
      using post km_step_ready [OF Suc.prems(1)] by (simp_all add: vm_post_def)
    have free: "pte_of (mem s1) pd va AND PTE_P = 0"
      if "unat (PGROUNDDOWN va - (a + 4096)) < 4096 * Suc n" for va
    proof -
      have d: "is_page (PGROUNDDOWN va - a)" by (rule is_page_diff [OF is_page_PGROUNDDOWN Suc.prems(4)])
      have "unat (PGROUNDDOWN va - a - 4096) < 4096 * Suc n" using that by (simp add: diff_diff_eq)
      then have *: "PGROUNDDOWN va - a \<noteq> 0" "unat (PGROUNDDOWN va - a) < 4096 * Suc (Suc n)"
        using page_index [OF d Suc.prems(7)] by blast+
      then have "4096 \<le> unat (PGROUNDDOWN va - a)"
        using d unfolding is_page_def by (metis dvd_imp_le neq0_conv unat_eq_0)
      then show ?thesis
        using m1 Suc.prems(8) [OF *(2)] by (simp add: mapped_def)
    qed
    show "wp (mappages_loop k' pd (a + PGSIZE) lst (pa + PGSIZE) perm) (\<lambda>r s'. \<exists>ys m. vm_post pd xs s ys s' \<and>
        mapped (mem s) pd a pa perm m (mem s') \<and> (r = 0 \<and> m = Suc (Suc n) \<or> r = - 1 \<and> m \<le> Suc n \<and> ys = [])) s1"
    proof (rule wp_mono [OF Suc.IH [OF r1 a1 k(2) _ free]])
      show "Suc n * 4096 \<le> 2 ^ 32" using Suc.prems(7) by simp
      fix r s2
      assume "\<exists>zs m. vm_post pd ys s1 zs s2 \<and> mapped (mem s1) pd (a + 4096) (pa + PGSIZE) perm m (mem s2) \<and>
          (r = 0 \<and> m = Suc n \<or> r = - 1 \<and> m \<le> n \<and> zs = [])"
      then obtain zs m where z: "vm_post pd ys s1 zs s2" "mapped (mem s1) pd (a + 4096) (pa + PGSIZE) perm m (mem s2)"
        "r = 0 \<and> m = Suc n \<or> r = - 1 \<and> m \<le> n \<and> zs = []" by blast
      have "mapped (mem s) pd a pa perm (Suc m) (mem s2)"
        by (rule mapped_cons [OF m1 z(2) Suc.prems(4)]) (use z(3) Suc.prems(7) in auto)
      with z vm_post_trans [OF Suc.prems(1) post z(1)]
      show "\<exists>ys m. vm_post pd xs s ys s2 \<and> mapped (mem s) pd a pa perm m (mem s2) \<and>
          (r = 0 \<and> m = Suc (Suc n) \<or> r = - 1 \<and> m \<le> Suc n \<and> ys = [])"
        by (intro exI [of _ zs] exI [of _ "Suc m"]) auto
    qed
  qed blast
qed

lemma page_span:
  assumes "0 < sz" "unat va + unat sz \<le> 2 ^ 32"
  defines "n \<equiv> (unat (PGROUNDDOWN (va + sz - 1)) - unat (PGROUNDDOWN va)) div 4096"
  shows "PGROUNDDOWN (va + sz - 1) = PGROUNDDOWN va + of_nat (4096 * n)" "n < 2 ^ 20" "Suc n * 4096 \<le> 2 ^ 32"
proof -
  have sz: "0 < unat sz" using assms(1) by (simp add: word_less_nat_alt)
  have "unat (va + (sz - 1)) = unat va + (unat sz - 1)"
    using assms(1,2) sz by (subst unat_add_lem [THEN iffD1]) (simp_all add: unat_minus_one unat_eq_0)
  then have top: "unat (va + sz - 1) = unat va + unat sz - 1" using sz by (simp add: add_diff_eq)
  let ?lo = "unat va div 4096" and ?hi = "(unat va + unat sz - 1) div 4096"
  have n: "n = ?hi - ?lo" unfolding n_def unat_PGROUNDDOWN top by (simp flip: diff_mult_distrib)
  have le: "?lo \<le> ?hi" using sz by (intro div_le_mono) simp
  have hi: "?hi < 2 ^ 20" using assms(2) sz by (intro less_mult_imp_div_less) simp
  show small: "n < 2 ^ 20" unfolding n using hi by (rule less_imp_diff_less)
  then show "Suc n * 4096 \<le> 2 ^ 32" by simp
  have "unat (PGROUNDDOWN (va + sz - 1)) = unat (PGROUNDDOWN va) + 4096 * n"
    unfolding unat_PGROUNDDOWN top n using le by (simp add: algebra_simps)
  then have "of_nat (unat (PGROUNDDOWN (va + sz - 1))) = (of_nat (unat (PGROUNDDOWN va) + 4096 * n) :: u32)" by simp
  then show "PGROUNDDOWN (va + sz - 1) = PGROUNDDOWN va + of_nat (4096 * n)" by simp
qed

section \<open>Properties\<close>

text \<open>C10: \<^verbatim>\<open>mappages\<close> on a well-formed page table maps every page that the range \<^verbatim>\<open>va .. va+size-1\<close>
  touches, in order, to consecutive physical pages with the given permissions, leaves every other
  mapping of the table unchanged, and writes only the directory, its tables and pages taken from
  the free list.  It fails with -1 only after the last free page has been used up, having mapped
  a prefix of the range.\<close>

theorem mappages_maps_range:
  assumes "km_ready s" "kmem_inv s xs" "pt_ok (mem s) pd xs" "0 < sz" "unat va + unat sz \<le> 2 ^ 32"
    and n: "n = Suc ((unat (PGROUNDDOWN (va + sz - 1)) - unat (PGROUNDDOWN va)) div 4096)"
    and "\<And>v. unat (PGROUNDDOWN v - PGROUNDDOWN va) < 4096 * n \<Longrightarrow> pte_of (mem s) pd v AND PTE_P = 0"
  shows "wp (mappages pd va sz pa perm) (\<lambda>r s'. \<exists>ys m.
    vm_post pd xs s ys s' \<and> mapped (mem s) pd (PGROUNDDOWN va) pa perm m (mem s') \<and>
    (r = 0 \<and> m = n \<or> r = - 1 \<and> m < n \<and> ys = [])) s"
  unfolding mappages_def
  by (rule wp_mono [OF wp_mappages_loop [OF assms(1-3) is_page_PGROUNDDOWN page_span [OF assms(4,5)]]])
    (use assms(7) n in \<open>auto simp: less_Suc_eq_le\<close>)

text \<open>A concrete state: one free page and an empty page directory.\<close>

lemma witness_pt_ok: "pt_ok (\<lambda>_. 0) 0x80401000 [0x80400000]" "pte_of (\<lambda>_. 0) 0x80401000 v = 0"
  by (simp_all add: pt_ok_def pte_of_def pgtab_def load32_def is_page_def)

theorem mappages_maps_range_witness:
  "wp (mappages 0x80401000 0x1000 PGSIZE 0x5000 PTE_W) (\<lambda>r s'. \<exists>ys m.
    vm_post 0x80401000 [0x80400000] witness_kmem ys s' \<and> mapped (\<lambda>_. 0) 0x80401000 0x1000 0x5000 PTE_W m (mem s') \<and>
    (r = 0 \<and> m = 1 \<or> r = - 1 \<and> m < 1 \<and> ys = [])) witness_kmem"
proof -
  have m: "mem witness_kmem = (\<lambda>_. 0)" by (simp add: witness_kmem_def)
  have "PGROUNDDOWN 0x1000 = 0x1000" "PGROUNDDOWN (0x1000 + PGSIZE - 1) = 0x1000"
    by (simp_all add: PGROUNDDOWN_def)
  then show ?thesis
    using mappages_maps_range [OF witness_kmem_ok, of "0x80401000" PGSIZE "0x1000" 1 "0x5000" PTE_W] witness_pt_ok
    by (simp add: m)
qed

end
