(* ===== verification/Proc.thy ===== *)
theory Proc
  imports Vm
begin

text \<open>
  The process table of \<^verbatim>\<open>proc.c\<close>: entering the scheduler, sleeping and waking, killing, allocating
  a slot, the scheduling parameters, the children query and the barrier of the labs, and the
  re-entrant acquisition of \<^verbatim>\<open>spinlock.c\<close>.  The processor loop and the three scheduling levels are
  in \<open>Sched\<close>, the operations that need the file system in \<open>Proc_Life\<close>.
\<close>

text \<open>\<open>sym_trapret\<close> and \<open>sym_forkret\<close> are the addresses of the two functions a new process starts in.\<close>

record proc_state = vm_state +
  ptable :: "proc list"
  initproc :: "nat option"
  nextpid :: int
  ticks :: u32
  barrier_max :: int
  barrier_counter :: int
  sym_trapret :: u32
  sym_forkret :: u32

definition get_proc :: "nat \<Rightarrow> ('z proc_state_scheme, proc) kM" where
  "get_proc i = get (\<lambda>s. ptable s ! i)"

definition upd_proc :: "nat \<Rightarrow> (proc \<Rightarrow> proc) \<Rightarrow> ('z proc_state_scheme, unit) kM" where
  "upd_proc i f = upd (\<lambda>s. s\<lparr>ptable := (ptable s)[i := f (ptable s ! i)]\<rparr>)"

text \<open>Reading through the pointer \<^verbatim>\<open>myproc()\<close>: when no process runs, the null page is not mapped and
  the fault in kernel mode ends in \<^verbatim>\<open>panic("trap")\<close>.\<close>

definition deref :: "nat option \<Rightarrow> (nat \<Rightarrow> ('z proc_state_scheme, 'a) kM) \<Rightarrow> ('z proc_state_scheme, 'a) kM" where
  "deref p k = (case p of None \<Rightarrow> panic ''trap'' | Some i \<Rightarrow> k i)"

text \<open>A kernel read through a null pointer while a process runs goes to the process's page at
  address 0.\<close>

definition null_read :: "u32 \<Rightarrow> ('z kbase_scheme, u32) kM" where
  "null_read off =
     bnd (get (\<lambda>s. pte_of (mem s) (P2V (cr3 (mach s))) 0)) (\<lambda>e.
     if e AND PTE_P = 0 then panic ''trap''
     else load_mem (P2V (PTE_ADDR e) + off))"

section \<open>The running process\<close>

definition pinit :: "('z kbase_scheme, unit) kM" where
  "pinit = initlock PtableLock ''ptable''"

definition myproc :: "('z kbase_scheme, nat option) kM" where
  "myproc =
     seq pushcli (
     bnd mycpu (\<lambda>c.
     bnd (get_cpu c) (\<lambda>cp.
     seq popcli (ret (cpu_proc cp)))))"

definition acquire_reentrant :: "lockid \<Rightarrow> ('z proc_state_scheme, unit) kM" where
  "acquire_reentrant L =
     seq pushcli (
     bnd (holding L) (\<lambda>h.
     if h then
       bnd (get (\<lambda>s. lk_pid (locks (mach s) L))) (\<lambda>pid.
       bnd myproc (\<lambda>p. deref p (\<lambda>i. bnd (get_proc i) (\<lambda>pr.
       if pid = p_pid pr then popcli else panic ''acquire''))))
     else
       seq (xchg_locked L) (
       bnd mycpu (\<lambda>c.
       seq (upd_lock L (\<lambda>lk. lk\<lparr>lk_cpu := Some c\<rparr>)) (
       bnd myproc (\<lambda>p. deref p (\<lambda>i. bnd (get_proc i) (\<lambda>pr.
       seq (upd_lock L (\<lambda>lk. lk\<lparr>lk_pid := p_pid pr\<rparr>))
           (upd (\<lambda>s. s\<lparr>mach := (mach s)\<lparr>locks := (locks (mach s))
              (L := (locks (mach s) L)\<lparr>lk_pcs := getcallerpcs (mem s) (frame (mach s))\<rparr>)\<rparr>\<rparr>))))))))))"

section \<open>Giving up the processor\<close>

definition sched :: "('z proc_state_scheme, unit) kM" where
  "sched =
     bnd myproc (\<lambda>p.
     bnd (holding PtableLock) (\<lambda>h.
     if \<not> h then panic ''sched ptable.lock''
     else
       bnd mycpu (\<lambda>c. bnd (get_cpu c) (\<lambda>cp.
       if ncli cp \<noteq> 1 then panic ''sched locks''
       else
         deref p (\<lambda>i. bnd (get_proc i) (\<lambda>pr.
         if p_state pr = RUNNING then panic ''sched running''
         else
           bnd (get (\<lambda>s. IF (mach s))) (\<lambda>fl.
           if fl then panic ''sched interruptible''
           else
             bnd mycpu (\<lambda>c. bnd (get_cpu c) (\<lambda>cp.
             seq handover (
             bnd mycpu (\<lambda>c. upd_cpu c (\<lambda>x. x\<lparr>intena := intena cp\<rparr>))))))))))))"

definition yield :: "('z proc_state_scheme, unit) kM" where
  "yield =
     seq (acquire PtableLock) (
     bnd myproc (\<lambda>p. deref p (\<lambda>i.
     seq (upd_proc i (\<lambda>x. x\<lparr>p_state := RUNNABLE\<rparr>)) (
     seq sched (release PtableLock)))))"

definition sleep :: "chan option \<Rightarrow> lockid option \<Rightarrow> ('z proc_state_scheme, unit) kM" where
  "sleep ch lk =
     bnd myproc (\<lambda>p.
     case p of None \<Rightarrow> panic ''sleep''
     | Some i \<Rightarrow>
         (case lk of None \<Rightarrow> panic ''sleep without lk''
          | Some L \<Rightarrow>
              seq (whenM (L \<noteq> PtableLock) (seq (acquire PtableLock) (release L))) (
              seq (upd_proc i (\<lambda>x. x\<lparr>p_chan := ch\<rparr>)) (
              seq (upd_proc i (\<lambda>x. x\<lparr>p_state := SLEEPING\<rparr>)) (
              seq sched (
              seq (upd_proc i (\<lambda>x. x\<lparr>p_chan := None\<rparr>)) (
              whenM (L \<noteq> PtableLock) (seq (release PtableLock) (acquire L)))))))))"

definition wake_one :: "chan option \<Rightarrow> proc \<Rightarrow> proc" where
  "wake_one ch p = (if p_state p = SLEEPING \<and> p_chan p = ch then p\<lparr>p_state := RUNNABLE\<rparr> else p)"

definition wakeup1 :: "chan option \<Rightarrow> ('z proc_state_scheme, unit) kM" where
  "wakeup1 ch = forM [0..<NPROC] (\<lambda>i. upd_proc i (wake_one ch))"

definition wakeup :: "chan option \<Rightarrow> ('z proc_state_scheme, unit) kM" where
  "wakeup ch = seq (acquire PtableLock) (seq (wakeup1 ch) (release PtableLock))"

definition kill :: "int \<Rightarrow> ('z proc_state_scheme, int) kM" where
  "kill pid =
     seq (acquire PtableLock) (
     bnd (firstM [0..<NPROC] (\<lambda>i.
        bnd (get_proc i) (\<lambda>p.
        if p_pid p = pid then
          seq (upd_proc i (\<lambda>x. x\<lparr>p_killed := True\<rparr>)) (
          seq (whenM (p_state p = SLEEPING) (upd_proc i (\<lambda>x. x\<lparr>p_state := RUNNABLE\<rparr>))) (
          seq (release PtableLock) (ret (Some 0))))
        else ret None))) (\<lambda>r.
     case r of Some v \<Rightarrow> ret v
     | None \<Rightarrow> seq (release PtableLock) (ret (- 1))))"

section \<open>Allocating a process\<close>

text \<open>The second half of \<^verbatim>\<open>allocproc\<close>: the kernel stack of slot \<open>i\<close>.\<close>

definition alloc_kstack :: "nat \<Rightarrow> ('z proc_state_scheme, nat option) kM" where
  "alloc_kstack i =
     bnd kalloc (\<lambda>k.
     seq (upd_proc i (\<lambda>p. p\<lparr>p_kstack := k\<rparr>)) (
     if k = 0 then seq (upd_proc i (\<lambda>p. p\<lparr>p_state := UNUSED\<rparr>)) (ret None)
     else
       let tf = k + KSTACKSIZE - sizeof_trapframe;
           sp = tf - 4;
           ctx = sp - sizeof_context in
       seq (upd_proc i (\<lambda>p. p\<lparr>p_tf := tf\<rparr>)) (
       bnd (get sym_trapret) (\<lambda>tr.
       seq (store_mem sp tr) (
       seq (upd_proc i (\<lambda>p. p\<lparr>p_context := ctx\<rparr>)) (
       seq (upd_mem (\<lambda>h. memset h ctx 0 sizeof_context)) (
       bnd (get sym_forkret) (\<lambda>fr.
       seq (store_mem (ctx + ctx_off Ceip) fr) (
       ret (Some i))))))))))"

definition allocproc :: "('z proc_state_scheme, nat option) kM" where
  "allocproc =
     seq (acquire PtableLock) (
     bnd (get (\<lambda>s. find_from (\<lambda>p. p_state p = UNUSED) (ptable s) 0)) (\<lambda>r.
     case r of None \<Rightarrow> seq (release PtableLock) (ret None)
     | Some i \<Rightarrow>
         seq (upd_proc i (\<lambda>p. p\<lparr>p_level := 0\<rparr>)) (
         seq (acquire TicksLock) (
         bnd (get ticks) (\<lambda>now.
         seq (release TicksLock) (
         seq (upd_proc i (\<lambda>p. p\<lparr>p_arrTime := sint now, p_ticket := 10, p_cycleNum := 1,
                p_remaining_priority := 10, p_state := EMBRYO\<rparr>)) (
         bnd (get nextpid) (\<lambda>pid.
         seq (upd (\<lambda>s. s\<lparr>nextpid := wrap32 (pid + 1)\<rparr>)) (
         seq (upd_proc i (\<lambda>p. p\<lparr>p_pid := pid\<rparr>)) (
         seq (release PtableLock) (
         alloc_kstack i)))))))))))"

definition growproc :: "int \<Rightarrow> ('z proc_state_scheme, int) kM" where
  "growproc n =
     bnd myproc (\<lambda>po. deref po (\<lambda>i. bnd (get_proc i) (\<lambda>p.
     bnd (if n > 0 then
            bnd (allocuvm (p_pgdir p) (p_sz p) (p_sz p + word_of_int n)) (\<lambda>sz.
            ret (if sz = 0 then None else Some sz))
          else if n < 0 then
            bnd (deallocuvm (p_pgdir p) (p_sz p) (p_sz p + word_of_int n)) (\<lambda>sz.
            ret (if sz = 0 then None else Some sz))
          else ret (Some (p_sz p))) (\<lambda>r.
     case r of None \<Rightarrow> ret (- 1)
     | Some sz \<Rightarrow>
         seq (upd_proc i (\<lambda>x. x\<lparr>p_sz := sz\<rparr>)) (
         bnd (get_proc i) (\<lambda>p.
         seq (switchuvm (Some p)) (ret 0)))))))"

section \<open>Scheduling parameters and queries of the labs\<close>

definition for_pid :: "int \<Rightarrow> (proc \<Rightarrow> proc) \<Rightarrow> ('z proc_state_scheme, unit) kM" where
  "for_pid pid f = forM [0..<NPROC] (\<lambda>i. upd_proc i (\<lambda>p. if p_pid p = pid then f p else p))"

definition change_process_level :: "int \<Rightarrow> int \<Rightarrow> ('z proc_state_scheme, unit) kM" where
  "change_process_level pid level = for_pid pid (\<lambda>p. p\<lparr>p_level := level\<rparr>)"

definition set_process_ticket :: "int \<Rightarrow> int \<Rightarrow> ('z proc_state_scheme, unit) kM" where
  "set_process_ticket pid ticket = for_pid pid (\<lambda>p. p\<lparr>p_ticket := ticket\<rparr>)"

definition set_process_remaining_priority :: "int \<Rightarrow> int \<Rightarrow> ('z proc_state_scheme, unit) kM" where
  "set_process_remaining_priority pid priority = for_pid pid (\<lambda>p. p\<lparr>p_remaining_priority := priority\<rparr>)"

primrec pow_loop :: "nat \<Rightarrow> int \<Rightarrow> int \<Rightarrow> int" where
  "pow_loop 0 a p = p"
| "pow_loop (Suc n) a p = pow_loop n a (wrap32 (p * a))"

definition pow :: "int \<Rightarrow> int \<Rightarrow> int" where
  "pow a n = (if n = 0 then 1 else pow_loop (nat (n - 1)) a a)"

text \<open>The loop of \<^verbatim>\<open>get_children_of\<close> carries the number built so far, the count and the flag.\<close>

primrec children_loop :: "int \<Rightarrow> nat list \<Rightarrow> int \<times> int \<times> bool \<Rightarrow> ('z proc_state_scheme, int \<times> int \<times> bool) kM" where
  "children_loop pid [] acc = ret acc"
| "children_loop pid (i # is) acc =
     bnd (get_proc i) (\<lambda>p.
     bnd (case p_parent p of None \<Rightarrow> bnd (null_read 16) (\<lambda>w. ret (sint w))
          | Some j \<Rightarrow> bnd (get_proc j) (\<lambda>q. ret (p_pid q))) (\<lambda>ppid.
     if ppid = pid then
       (case acc of (concat_children, num, has_zero) \<Rightarrow>
          children_loop pid is (wrap32 (concat_children + wrap32 (p_pid p * pow 10 num)), num + 1,
            has_zero \<or> p_pid p = 0))
     else children_loop pid is acc))"

definition get_children_of :: "int \<Rightarrow> ('z proc_state_scheme, int) kM" where
  "get_children_of pid =
     seq (acquire PtableLock) (
     bnd (children_loop pid [0..<NPROC] (0, 0, False)) (\<lambda>(concat_children, num, has_zero).
     seq (release PtableLock) (
     ret (if concat_children = 0 \<and> \<not> has_zero then - 1 else concat_children))))"

definition barrier_init :: "int \<Rightarrow> ('z proc_state_scheme, unit) kM" where
  "barrier_init n =
     seq (upd (\<lambda>s. s\<lparr>barrier_counter := 0, barrier_max := n\<rparr>))
         (call_cprintf (''Kernel: barrier initialized.'' @ [CHR 0x0A]) [])"

definition barrier_wait :: "('z proc_state_scheme, unit) kM" where
  "barrier_wait =
     seq (upd (\<lambda>s. s\<lparr>barrier_counter := wrap32 (barrier_counter s + 1)\<rparr>)) (
     bnd (get (\<lambda>s. barrier_counter s < barrier_max s)) (\<lambda>more.
     if more then
       seq (acquire PtableLock) (
       seq (sleep (Some ChBarrier) (Some PtableLock)) (
       release PtableLock))
     else
       seq (call_cprintf (''-------------------'' @ [CHR 0x0A] @ ''Kernel: Barrier is broken!'' @ [CHR 0x0A]) []) (
       wakeup (Some ChBarrier))))"

definition reentrant_spinlock_test :: "('z proc_state_scheme, unit) kM" where
  "reentrant_spinlock_test =
     stmts [
       call_cprintf (''Kernel: spinlock init!'' @ [CHR 0x0A]) [],
       initlock LocalLock ''splinlock'',
       acquire_reentrant LocalLock,
       acquire_reentrant LocalLock,
       release LocalLock,
       call_cprintf (''Kernel: spinlock release!'' @ [CHR 0x0A]) []]"

section \<open>Runs\<close>

lemmas proc_run = get_proc_def upd_proc_def load_mem_def store_mem_def upd_mem_def

declare proc_run [krun]

lemma inside_push_pop:
  assumes "mach_ok m\<^sub>0" "inside m\<^sub>0 A m"
  shows "inside m\<^sub>0 A (pop (push m))"
proof -
  have ok: "mach_ok m" by (rule inside_ok [OF assms])
  then have c: "this_cpu m \<noteq> None" "0 \<le> depth m" "0 < depth m \<longrightarrow> \<not> IF m" by (simp_all add: mach_ok_def)
  show ?thesis
  proof (cases "depth m = 0")
    case True
    have "depth m = depth m\<^sub>0 + int (card A)" "0 \<le> depth m\<^sub>0" "finite A"
      using assms by (simp_all add: inside_def mach_ok_def)
    then have "card A = 0" using True by linarith
    then have "A = {}" using \<open>finite A\<close> by simp
    then show ?thesis
      using assms c True unfolding inside_def mach_ok_def by auto
  next
    case False
    then show ?thesis using pop_push_nested [OF ok] c assms(2) by simp
  qed
qed

lemma myproc_run:
  assumes "mach_ok (mach s)"
  shows "myproc s es = Ret (cpu_proc (the_cpu (mach s))) (s\<lparr>mach := pop (push (mach s))\<rparr>) es"
proof -
  let ?s = "s\<lparr>mach := push (mach s)\<rparr>"
  have c: "this_cpu (mach s) \<noteq> None" "0 \<le> depth (mach s)" using assms by (simp_all add: mach_ok_def)
  have "mycpu ?s es = Ret (the (this_cpu (mach s))) ?s es"
    using mycpu_run [of ?s es] assms c by simp
  moreover have "popcli ?s es = Ret () (s\<lparr>mach := pop (push (mach s))\<rparr>) es"
    using popcli_run [of ?s es] assms c by simp
  moreover have "cpu_proc (cpus (push (mach s)) ! the (this_cpu (mach s))) = cpu_proc (the_cpu (mach s))"
    using push_simps(7) [OF c(1)] push_simps(1) [OF c(1)] by (simp add: the_cpu_def)
  ultimately show ?thesis
    using pushcli_run [OF assms, of es] by (simp add: myproc_def get_cpu_def krun)
qed

lemma wp_myproc:
  assumes "mach_ok m\<^sub>0" "inside m\<^sub>0 A (mach s)"
    and "\<And>m. inside m\<^sub>0 A m \<Longrightarrow> Q (cpu_proc (the_cpu m\<^sub>0)) (s\<lparr>mach := m\<rparr>)"
  shows "wp myproc Q s"
proof -
  have "cpu_proc (the_cpu (mach s)) = cpu_proc (the_cpu m\<^sub>0)" using assms(2) by (simp add: inside_def)
  then show ?thesis
    using myproc_run [OF inside_ok [OF assms(1,2)]] assms(3) [OF inside_push_pop [OF assms(1,2)]]
    by (intro wp_runI) auto
qed

text \<open>A scan of the whole table that updates every entry.\<close>

lemma forM_upd_proc_upto:
  "n \<le> length (ptable s) \<Longrightarrow> forM [0..<n] (\<lambda>i. upd_proc i f) s es =
     Ret () (s\<lparr>ptable := map f (take n (ptable s)) @ drop n (ptable s)\<rparr>) es"
proof (induction n)
  case (Suc n)
  then have n: "n < length (ptable s)" by simp
  have "(map f (take n (ptable s)) @ drop n (ptable s))[n := f (ptable s ! n)] =
      map f (take (Suc n) (ptable s)) @ drop (Suc n) (ptable s)"
    using n by (simp add: list_update_append take_Suc_conv_app_nth Cons_nth_drop_Suc [symmetric] min_def)
  moreover have "(map f (take n (ptable s)) @ drop n (ptable s)) ! n = ptable s ! n"
    using n by (simp add: nth_append Cons_nth_drop_Suc [symmetric] min_def)
  ultimately show ?case
    using Suc by (simp add: forM_append krun)
qed simp

lemma forM_upd_proc:
  "length (ptable s) = NPROC \<Longrightarrow>
     forM [0..<NPROC] (\<lambda>i. upd_proc i f) s es = Ret () (s\<lparr>ptable := map f (ptable s)\<rparr>) es"
  using forM_upd_proc_upto [of NPROC s f es] by simp

lemma wakeup1_run:
  "length (ptable s) = NPROC \<Longrightarrow>
     wakeup1 ch s es = Ret () (s\<lparr>ptable := map (wake_one ch) (ptable s)\<rparr>) es"
  unfolding wakeup1_def by (rule forM_upd_proc)

lemma for_pid_run:
  "length (ptable s) = NPROC \<Longrightarrow> for_pid pid f s es =
     Ret () (s\<lparr>ptable := map (\<lambda>p. if p_pid p = pid then f p else p) (ptable s)\<rparr>) es"
  unfolding for_pid_def by (rule forM_upd_proc)

section \<open>Sleeping\<close>

text \<open>Locks do not use up the schedule; \<^verbatim>\<open>sleep\<close>, when it returns, has.\<close>

lemma keeps_lock [uses]:
  "keeps pushcli" "keeps popcli" "keeps mycpu" "keeps (holding L)" "keeps (acquire L)" "keeps (release L)" "keeps myproc"
proof -
  show c: "keeps mycpu"
    unfolding mycpu_def by (auto intro!: uses split: option.splits)
  show pu: "keeps pushcli"
    unfolding pushcli_def by (auto intro!: uses c simp: machine_run get_cpu_def)
  show po: "keeps popcli"
    unfolding popcli_def by (auto intro!: uses c simp: machine_run get_cpu_def)
  show h: "keeps (holding L)"
    unfolding holding_def by (auto intro!: uses c pu po simp: machine_run get_cpu_def)
  show "keeps (acquire L)"
    unfolding acquire_def xchg_locked_def by (auto intro!: uses c pu po h simp: machine_run)
  show "keeps (release L)"
    unfolding release_def by (auto intro!: uses c pu po h simp: machine_run)
  show "keeps myproc"
    unfolding myproc_def get_cpu_def by (intro uses c pu po)
qed

lemma strict_sched: "strict sched"
  unfolding sched_def deref_def get_cpu_def get_proc_def upd_cpu_def upd_mach_def
  by (auto intro!: strict_bnd2 strict_seq1 uses split: option.splits)

lemma strict_sleep: "strict (sleep ch lk)"
  unfolding sleep_def upd_proc_def
  by (auto intro!: strict_bnd2 strict_seq2 strict_seq1 [OF strict_sched] uses split: option.splits)

text \<open>What \<^verbatim>\<open>sched\<close> does to the state on either side of the switch.\<close>

definition resume :: "bool \<Rightarrow> machine \<Rightarrow> machine" where
  "resume ie m = on_cpu (\<lambda>c. c\<lparr>intena := ie\<rparr>) m"

lemma sched_run:
  assumes ok: "mach_ok (mach s)" "depth (mach s) = 1" "holds (mach s) PtableLock"
    and p: "cpu_proc (the_cpu (mach s)) = Some i" "p_state (ptable s ! i) \<noteq> RUNNING"
  shows "sched s [] = Blocked s"
    "mach_ok (mach (e s)) \<Longrightarrow> \<not> IF (mach (e s)) \<Longrightarrow> sched s (e # es) =
       Ret () ((e s)\<lparr>mach := resume (intena (the_cpu (mach s))) (mach (e s))\<rparr>) es"
proof -
  have nested: "pop (push (mach s)) = mach s" using pop_push_nested ok by simp
  have IF: "\<not> IF (mach s)" using ok by (simp add: mach_ok_def)
  have my: "myproc s es = Ret (Some i) s es" for es using myproc_run [OF ok(1), of es] nested p(1) by simp
  have h: "holding PtableLock s es = Ret True s es" for es using holding_run [of s PtableLock es] ok by simp
  have c: "mycpu s es = Ret (the (this_cpu (mach s))) s es" for es
    using mycpu_run [OF ok(1) IF] by simp
  have n: "ncli (cpus (mach s) ! the (this_cpu (mach s))) = 1"
    using ok(2) by (simp add: depth_def the_cpu_def)
  show "sched s [] = Blocked s"
    using my h c n p(2) IF by (simp add: sched_def get_cpu_def deref_def krun)
  assume e: "mach_ok (mach (e s))" "\<not> IF (mach (e s))"
  obtain j where j: "this_cpu (mach (e s)) = Some j" using e(1) by (auto simp: mach_ok_def)
  have "mycpu (e s) es = Ret j (e s) es"
    using mycpu_run [OF e] j by simp
  then show "sched s (e # es) =
      Ret () ((e s)\<lparr>mach := resume (intena (the_cpu (mach s))) (mach (e s))\<rparr>) es"
    using my h c n p(2) IF j this_cpu_bound [OF j]
    by (simp add: sched_def get_cpu_def deref_def krun resume_def on_cpu_def the_cpu_def)
qed

lemma inside_swap:
  assumes "mach_ok m\<^sub>0" "inside m\<^sub>0 {L} m" "lock_free m\<^sub>0 L'" "L \<noteq> L'"
  shows "inside m\<^sub>0 {L'} (rel L (acq h L' m))"
proof -
  have "inside m\<^sub>0 {L', L} (acq h L' m)" using inside_acq [OF assms(1-3)] assms(4) by auto
  then have "inside m\<^sub>0 ({L', L} - {L}) (rel L (acq h L' m))" by (rule inside_rel [OF assms(1)]) simp
  moreover have "{L', L} - {L} = {L'}" using assms(4) by auto
  ultimately show ?thesis by simp
qed

lemma swap_run:
  assumes "mach_ok m\<^sub>0" "inside m\<^sub>0 {L} (mach s)" "lock_free m\<^sub>0 L'" "L \<noteq> L'"
  shows "seq (acquire L') (release L) s es = Ret () (s\<lparr>mach := rel L (acq (mem s) L' (mach s))\<rparr>) es"
proof -
  have a: "acquire L' s es = Ret () (s\<lparr>mach := acq (mem s) L' (mach s)\<rparr>) es"
    using assms inside_free [OF assms(2,3)] inside_ok [OF assms(1,2)] by (intro acquire_run) auto
  have w: "inside m\<^sub>0 {L', L} (acq (mem s) L' (mach s))" using inside_acq [OF assms(1-3)] assms(4) by auto
  have "release L (s\<lparr>mach := acq (mem s) L' (mach s)\<rparr>) es =
      Ret () (s\<lparr>mach := rel L (acq (mem s) L' (mach s))\<rparr>) es"
    using release_run [of "s\<lparr>mach := acq (mem s) L' (mach s)\<rparr>" L es] inside_ok [OF assms(1) w]
      inside_depth [OF assms(1) w, of L] inside_holds [OF w, of L] by simp
  with a show ?thesis by (simp add: seq_run)
qed

lemma back_run:
  assumes "mach_ok m\<^sub>0" "inside m\<^sub>0 {L'} (mach s)" "lock_free m\<^sub>0 L"
  shows "\<exists>m. inside m\<^sub>0 {L} m \<and> (\<forall>es. seq (release L') (acquire L) s es = Ret () (s\<lparr>mach := m\<rparr>) es)"
proof -
  let ?m = "rel L' (mach s)"
  have w: "inside m\<^sub>0 {} ?m" using inside_rel [OF assms(1,2), of L'] by simp
  have r: "release L' s es = Ret () (s\<lparr>mach := ?m\<rparr>) es" for es
    using release_run [of s L' es] inside_ok [OF assms(1,2)] inside_depth [OF assms(1,2), of L']
      inside_holds [OF assms(2), of L'] by simp
  have "acquire L (s\<lparr>mach := ?m\<rparr>) es = Ret () (s\<lparr>mach := acq (mem s) L ?m\<rparr>) es" for es
    using acquire_run [of "s\<lparr>mach := ?m\<rparr>" L es] inside_ok [OF assms(1) w] inside_free [OF w assms(3)] by simp
  moreover have "inside m\<^sub>0 {L} (acq (mem s) L ?m)" using inside_acq [OF assms(1) w assms(3)] by simp
  ultimately show ?thesis using r by (auto simp: seq_run)
qed

definition asleep :: "chan option \<Rightarrow> proc \<Rightarrow> proc" where
  "asleep ch p = p\<lparr>p_chan := ch, p_state := SLEEPING\<rparr>"

lemma sleep_run:
  assumes ok: "mach_ok m\<^sub>0" "depth m\<^sub>0 = 0" and w: "inside m\<^sub>0 {L} (mach s)"
    and L: "lock_free m\<^sub>0 PtableLock" "L \<noteq> PtableLock"
    and p: "cpu_proc (the_cpu m\<^sub>0) = Some i" "i < length (ptable s)"
  shows "\<exists>m. inside m\<^sub>0 {PtableLock} m \<and>
    (let s1 = s\<lparr>mach := m, ptable := (ptable s)[i := asleep ch (ptable s ! i)]\<rparr> in
     sleep ch (Some L) s [] = Blocked s1 \<and>
     (\<forall>e. mach_ok (mach (e s1)) \<longrightarrow> inside m\<^sub>0 {PtableLock} (resume (IF m\<^sub>0) (mach (e s1))) \<longrightarrow>
        (\<exists>m'. inside m\<^sub>0 {L} m' \<and> (\<forall>es. sleep ch (Some L) s (e # es) =
           Ret () ((e s1)\<lparr>ptable := (ptable (e s1))[i := (ptable (e s1) ! i)\<lparr>p_chan := None\<rparr>], mach := m'\<rparr>) es))))"
proof -
  let ?m = "rel L (acq (mem s) PtableLock (mach s))"
  let ?s1 = "s\<lparr>mach := ?m, ptable := (ptable s)[i := asleep ch (ptable s ! i)]\<rparr>"
  have Lf: "lock_free m\<^sub>0 L" using w by (simp add: inside_def)
  have wm: "inside m\<^sub>0 {PtableLock} ?m" by (rule inside_swap [OF ok(1) w L])
  have my: "myproc s es = Ret (Some i) s es" for es
    using myproc_run [OF inside_ok [OF ok(1) w], of es] pop_push_nested [OF inside_ok [OF ok(1) w] inside_depth [OF ok(1) w]]
      w p(1) by (simp add: inside_def)
  have start: "sleep ch (Some L) s es =
      bnd sched (\<lambda>_. seq (upd_proc i (\<lambda>x. x\<lparr>p_chan := None\<rparr>)) (seq (release PtableLock) (acquire L))) ?s1 es" for es
    using my swap_run [OF ok(1) w L] L(2) p(2)
    by (simp add: sleep_def bnd_run seq_run upd_run upd_proc_def whenM_run asleep_def split: outcome.split)
  have s1: "mach_ok (mach ?s1)" "depth (mach ?s1) = 1" "holds (mach ?s1) PtableLock"
      "cpu_proc (the_cpu (mach ?s1)) = Some i" "p_state (ptable ?s1 ! i) \<noteq> RUNNING"
      "intena (the_cpu (mach ?s1)) = IF m\<^sub>0"
    using inside_ok [OF ok(1) wm] wm p ok(2) by (simp_all add: inside_def asleep_def)
  have "sleep ch (Some L) s [] = Blocked ?s1"
    unfolding start using sched_run(1) [OF s1(1-5)] by (simp add: bnd_run)
  moreover have "\<exists>m'. inside m\<^sub>0 {L} m' \<and> (\<forall>es. sleep ch (Some L) s (e # es) =
      Ret () ((e ?s1)\<lparr>ptable := (ptable (e ?s1))[i := (ptable (e ?s1) ! i)\<lparr>p_chan := None\<rparr>], mach := m'\<rparr>) es)"
    if e: "mach_ok (mach (e ?s1))" "inside m\<^sub>0 {PtableLock} (resume (IF m\<^sub>0) (mach (e ?s1)))" for e
  proof -
    let ?t = "(e ?s1)\<lparr>mach := resume (IF m\<^sub>0) (mach (e ?s1)),
      ptable := (ptable (e ?s1))[i := (ptable (e ?s1) ! i)\<lparr>p_chan := None\<rparr>]\<rparr>"
    have "\<not> IF (mach (e ?s1))" using e(2) by (simp add: inside_def resume_def)
    then have sc: "sched ?s1 (e # es) = Ret () ((e ?s1)\<lparr>mach := resume (IF m\<^sub>0) (mach (e ?s1))\<rparr>) es" for es
      using sched_run(2) [OF s1(1-5), of e es] e(1) s1(6) by simp
    obtain m' where m': "inside m\<^sub>0 {L} m'"
      "\<And>es. seq (release PtableLock) (acquire L) ?t es = Ret () (?t\<lparr>mach := m'\<rparr>) es"
      using back_run [OF ok(1) _ Lf, of PtableLock ?t] e(2) by auto
    then show ?thesis
      unfolding start by (intro exI [of _ m']) (simp add: bnd_run sc seq_run upd_proc_def upd_run)
  qed
  ultimately show ?thesis using wm by (intro exI [of _ ?m]) (auto simp: Let_def)
qed

section \<open>Waking and killing\<close>

definition table_ok :: "'z proc_state_scheme \<Rightarrow> bool" where
  "table_ok s \<longleftrightarrow> mach_ok (mach s) \<and> lock_free (mach s) PtableLock \<and> length (ptable s) = NPROC"

lemma wp_wakeup:
  assumes "table_ok s"
    and "\<And>m. inside (mach s) {} m \<Longrightarrow> Q () (s\<lparr>ptable := map (wake_one ch) (ptable s), mach := m\<rparr>)"
  shows "wp (wakeup ch) Q s"
proof -
  have ok: "mach_ok (mach s)" "lock_free (mach s) PtableLock" "length (ptable s) = NPROC"
    using assms(1) by (simp_all add: table_ok_def)
  show ?thesis
    unfolding wakeup_def
    by (rule wp_seq, rule wp_acquire [OF ok(1) inside_refl [OF ok(1)] ok(2)], simp, rule wp_seq,
        rule wp_runI, rule wakeup1_run, simp add: ok(3), rule wp_release [OF ok(1), of "{PtableLock}"])
      (use assms(2) in simp_all)
qed

definition killed :: "proc \<Rightarrow> proc" where
  "killed p = p\<lparr>p_killed := True, p_state := (if p_state p = SLEEPING then RUNNABLE else p_state p)\<rparr>"

lemma kill_body:
  assumes "mach_ok m\<^sub>0" "inside m\<^sub>0 {PtableLock} (mach s)" "i < length (ptable s)"
  shows "\<exists>m. inside m\<^sub>0 {} m \<and> (\<forall>es.
    seq (upd_proc i (\<lambda>x. x\<lparr>p_killed := True\<rparr>)) (
    seq (whenM (p_state (ptable s ! i) = SLEEPING) (upd_proc i (\<lambda>x. x\<lparr>p_state := RUNNABLE\<rparr>))) (
    seq (release PtableLock) (ret (Some (0 :: int))))) s es =
    Ret (Some 0) (s\<lparr>ptable := (ptable s)[i := killed (ptable s ! i)], mach := m\<rparr>) es)"
proof -
  let ?s = "s\<lparr>ptable := (ptable s)[i := killed (ptable s ! i)]\<rparr>"
  have w: "inside m\<^sub>0 {PtableLock} (mach ?s)" using assms(2) by simp
  have "release PtableLock ?s es = Ret () (?s\<lparr>mach := rel PtableLock (mach s)\<rparr>) es" for es
    using release_run [of ?s PtableLock es] inside_ok [OF assms(1) w] inside_depth [OF assms(1) w, of PtableLock]
      inside_holds [OF w, of PtableLock] by simp
  moreover have "inside m\<^sub>0 {} (rel PtableLock (mach s))" using inside_rel [OF assms(1,2), of PtableLock] by simp
  ultimately show ?thesis
    using assms(3) by (intro exI [of _ "rel PtableLock (mach s)"]) (auto simp: krun killed_def)
qed

lemma wp_kill:
  assumes "table_ok s"
  shows "wp (kill pid) (\<lambda>r s'. \<exists>m. inside (mach s) {} m \<and>
    (case find_from (\<lambda>p. p_pid p = pid) (ptable s) 0 of
       None \<Rightarrow> r = - 1 \<and> s' = s\<lparr>mach := m\<rparr>
     | Some i \<Rightarrow> r = 0 \<and> s' = s\<lparr>ptable := (ptable s)[i := killed (ptable s ! i)], mach := m\<rparr>)) s"
proof -
  have ok: "mach_ok (mach s)" "lock_free (mach s) PtableLock" "length (ptable s) = NPROC"
    using assms by (simp_all add: table_ok_def)
  define m\<^sub>1 where "m\<^sub>1 = acq (mem s) PtableLock (mach s)"
  define s1 where "s1 = s\<lparr>mach := m\<^sub>1\<rparr>"
  have w: "inside (mach s) {PtableLock} m\<^sub>1"
    using inside_acq [OF ok(1) inside_refl [OF ok(1)] ok(2)] by (simp add: m\<^sub>1_def)
  have acq: "acquire PtableLock s es = Ret () s1 es" for es
    using acquire_run [OF ok(1,2)] by (simp add: s1_def m\<^sub>1_def)
  have s1: "ptable s1 = ptable s" "mach s1 = m\<^sub>1" by (simp_all add: s1_def)
  have find: "find (\<lambda>i. p_pid (ptable s1 ! i) = pid) [0..<NPROC] = find_from (\<lambda>p. p_pid p = pid) (ptable s) 0"
    using find_upt_find_from [of "\<lambda>p. p_pid p = pid" "ptable s"] ok(3) s1 by simp
  show ?thesis
  proof (cases "find_from (\<lambda>p. p_pid p = pid) (ptable s) 0")
    case None
    have "release PtableLock s1 es = Ret () (s\<lparr>mach := rel PtableLock m\<^sub>1\<rparr>) es" for es
      using release_run [of s1 PtableLock es] inside_ok [OF ok(1) w] inside_depth [OF ok(1) w, of PtableLock]
        inside_holds [OF w, of PtableLock] by (simp add: s1_def)
    then have "kill pid s es = Ret (- 1) (s\<lparr>mach := rel PtableLock m\<^sub>1\<rparr>) es" for es
      unfolding kill_def get_proc_def seq_run acq using None find
      by (simp add: bnd_run firstM_scan_None seq_run)
    moreover have "inside (mach s) {} (rel PtableLock m\<^sub>1)" using inside_rel [OF ok(1) w, of PtableLock] by simp
    ultimately show ?thesis using None by (intro wp_runI) auto
  next
    case (Some i)
    then have i: "i < length (ptable s1)" by (simp add: find_from_0 s1)
    obtain m where m: "inside (mach s) {} m" "\<And>es. seq (upd_proc i (\<lambda>x. x\<lparr>p_killed := True\<rparr>)) (
        seq (whenM (p_state (ptable s1 ! i) = SLEEPING) (upd_proc i (\<lambda>x. x\<lparr>p_state := RUNNABLE\<rparr>))) (
        seq (release PtableLock) (ret (Some (0 :: int))))) s1 es =
        Ret (Some 0) (s1\<lparr>ptable := (ptable s1)[i := killed (ptable s1 ! i)], mach := m\<rparr>) es"
      using kill_body [OF ok(1) _ i] w s1 by auto
    define body :: "nat \<Rightarrow> proc \<Rightarrow> ('a proc_state_scheme, int option) kM" where
      "body = (\<lambda>i p. seq (upd_proc i (\<lambda>x. x\<lparr>p_killed := True\<rparr>)) (
        seq (whenM (p_state p = SLEEPING) (upd_proc i (\<lambda>x. x\<lparr>p_state := RUNNABLE\<rparr>))) (
        seq (release PtableLock) (ret (Some (0 :: int))))))"
    have "firstM [0..<NPROC] (\<lambda>i. bnd (get (\<lambda>s. ptable s ! i)) (\<lambda>p. if p_pid p = pid then body i p else ret None)) s1 es =
        Ret (Some 0) (s1\<lparr>ptable := (ptable s1)[i := killed (ptable s1 ! i)], mach := m\<rparr>) es" for es
      by (rule firstM_scan_Some [where g = "\<lambda>s i. ptable s ! i" and P = "\<lambda>p. p_pid p = pid"])
        (use find Some m(2) in \<open>simp_all add: body_def\<close>)
    then have "kill pid s es = Ret 0 (s\<lparr>ptable := (ptable s)[i := killed (ptable s ! i)], mach := m\<rparr>) es" for es
      unfolding kill_def get_proc_def seq_run acq body_def by (simp add: bnd_run s1_def)
    then show ?thesis using Some m(1) by (intro wp_runI) auto
  qed
qed

section \<open>The re-entrant lock\<close>

definition set_lk_pid :: "lockid \<Rightarrow> int \<Rightarrow> machine \<Rightarrow> machine" where
  "set_lk_pid L x m = m\<lparr>locks := (locks m)(L := (locks m L)\<lparr>lk_pid := x\<rparr>)\<rparr>"

lemma inside_lk_pid: "inside m\<^sub>0 A m \<Longrightarrow> inside m\<^sub>0 A (set_lk_pid L x m)"
  unfolding inside_def holds_def set_lk_pid_def by auto

lemma reentrant_free_run:
  assumes "mach_ok (mach s)" "lock_free (mach s) L" "cpu_proc (the_cpu (mach s)) = Some i"
  shows "acquire_reentrant L s es =
    Ret () (s\<lparr>mach := set_lk_pid L (p_pid (ptable s ! i)) (acq (mem s) L (mach s))\<rparr>) es"
proof -
  have c: "this_cpu (mach s) \<noteq> None" "0 \<le> depth (mach s)" using assms(1) by (simp_all add: mach_ok_def)
  let ?m = "push (mach s)"
  have ok: "mach_ok ?m" "0 < depth ?m" "\<not> IF ?m" using assms(1) c by simp_all
  have h: "holding L (s\<lparr>mach := ?m\<rparr>) es = Ret False (s\<lparr>mach := ?m\<rparr>) es"
    using holding_run [of "s\<lparr>mach := ?m\<rparr>" L es] ok assms(2) c by (simp add: holds_def lock_free_def)
  have cpu: "mycpu (s\<lparr>mach := ?m\<lparr>locks := l\<rparr>\<rparr>) es = Ret (the (this_cpu (mach s))) (s\<lparr>mach := ?m\<lparr>locks := l\<rparr>\<rparr>) es" for l
    using mycpu_run [of "s\<lparr>mach := ?m\<lparr>locks := l\<rparr>\<rparr>" es] ok c by simp
  have my: "myproc (s\<lparr>mach := ?m\<lparr>locks := l\<rparr>\<rparr>) es = Ret (Some i) (s\<lparr>mach := ?m\<lparr>locks := l\<rparr>\<rparr>) es" for l
    using myproc_run [of "s\<lparr>mach := ?m\<lparr>locks := l\<rparr>\<rparr>" es] pop_push_nested [of "?m\<lparr>locks := l\<rparr>"] ok c assms(3) by simp
  show ?thesis
    using h cpu my pushcli_run [OF assms(1), of es] assms(2) c
    by (simp add: acquire_reentrant_def xchg_locked_def deref_def krun lock_free_def acq_def set_lk_pid_def fun_upd_def cong: if_cong)
      (auto simp: fun_eq_iff intro!: arg_cong [where f = "\<lambda>l. s\<lparr>mach := push (mach s)\<lparr>locks := l\<rparr>\<rparr>"])
qed

lemma reentrant_held_run:
  assumes "mach_ok (mach s)" "0 < depth (mach s)" "holds (mach s) L" "cpu_proc (the_cpu (mach s)) = Some i"
    and "lk_pid (locks (mach s) L) = p_pid (ptable s ! i)"
  shows "acquire_reentrant L s es = Ret () s es"
proof -
  have c: "this_cpu (mach s) \<noteq> None" "0 \<le> depth (mach s)" using assms(1) by (simp_all add: mach_ok_def)
  let ?s = "s\<lparr>mach := push (mach s)\<rparr>"
  have ok: "mach_ok (push (mach s))" "0 < depth (push (mach s))" using assms(1) c by simp_all
  have h: "holding L ?s es = Ret True ?s es"
    using holding_run [of ?s L es] ok assms(3) c by (simp add: holds_def)
  have my: "myproc ?s es = Ret (Some i) ?s es"
    using myproc_run [of ?s es] pop_push_nested [OF ok] ok c assms(4) by simp
  have "popcli ?s es = Ret () s es"
    using popcli_run [of ?s es] ok pop_push_nested [OF assms(1,2)] by simp
  then show ?thesis
    using h my pushcli_run [OF assms(1), of es] assms(5) c
    by (simp add: acquire_reentrant_def deref_def krun)
qed

section \<open>Allocation\<close>

text \<open>The kernel stack \<^verbatim>\<open>allocproc\<close> lays out in the page \<open>k\<close>.\<close>

definition new_stack :: "mem \<Rightarrow> u32 \<Rightarrow> u32 \<Rightarrow> u32 \<Rightarrow> mem" where
  "new_stack h k trapret forkret =
     store32 (memset (store32 h (k + 4016) trapret) (k + 3996) 0 20) (k + 4012) forkret"

lemma page_offset:
  assumes "is_page k" "unat i < 4096"
  shows "unat (k + i) = unat k + unat i"
  using unat_add_block [of 4096 k i] assms by (simp add: is_page_def)

lemma new_stack_words:
  assumes "is_page k"
  shows "load32 (new_stack h k tr fr) (k + 4016) = tr" "load32 (new_stack h k tr fr) (k + 4012) = fr"
    "\<not> in_range a k 4096 \<Longrightarrow> new_stack h k tr fr a = h a"
proof -
  have k: "4 dvd unat k" using is_page_aligned4 [OF assms] by (simp add: aligned4_def)
  have al: "aligned4 (k + 4016)" "aligned4 (k + 4012)"
    using page_offset [OF assms, of 4016] page_offset [OF assms, of 4012] k by (simp_all add: aligned4_def)
  show "load32 (new_stack h k tr fr) (k + 4012) = fr"
    unfolding new_stack_def by (rule load32_store32_same)
  have ms: "load32 (memset h' (k + 3996) 0 20) (k + 4016) = load32 h' (k + 4016)" for h'
  proof (rule load32_cong)
    fix i :: u32 assume i: "unat i < 4"
    have "unat (k + 4016 + i - (k + 3996)) = 20 + unat i"
      using i by (simp add: unat_word_ariths)
    then show "memset h' (k + 3996) 0 20 (k + 4016 + i) = h' (k + 4016 + i)"
      by (simp add: memset_apply in_range_def)
  qed
  have "load32 (new_stack h k tr fr) (k + 4016) =
      load32 (memset (store32 h (k + 4016) tr) (k + 3996) 0 20) (k + 4016)"
    unfolding new_stack_def by (rule load32_store32_other [OF al(2,1)]) simp
  then show "load32 (new_stack h k tr fr) (k + 4016) = tr"
    unfolding ms load32_store32_same .
  assume a: "\<not> in_range a k 4096"
  have off: "a \<noteq> k + j" if "unat j < 4096" for j using a that by (auto simp: in_range_def)
  have "\<not> in_range a (k + 3996) 20"
  proof
    assume r: "in_range a (k + 3996) 20"
    then have "unat (a - (k + 3996) + 3996) < 4096"
      unfolding in_range_def by (simp only: unat_word_ariths) simp
    with off [of "a - (k + 3996) + 3996"] show False by simp
  qed
  then show "new_stack h k tr fr a = h a"
    using off [of 4012] off [of 4013] off [of 4014] off [of 4015] off [of 4016] off [of 4017] off [of 4018] off [of 4019]
    unfolding new_stack_def store32_def by (simp add: memset_apply add.assoc)
qed

definition fresh_proc :: "u32 \<Rightarrow> int \<Rightarrow> u32 \<Rightarrow> proc \<Rightarrow> proc" where
  "fresh_proc k pid now p = p\<lparr>p_level := 0, p_arrTime := sint now, p_ticket := 10, p_cycleNum := 1,
     p_remaining_priority := 10, p_state := EMBRYO, p_pid := pid, p_kstack := k,
     p_tf := k + 4020, p_context := k + 3996\<rparr>"

definition alloc_ready :: "'z proc_state_scheme \<Rightarrow> bool" where
  "alloc_ready s \<longleftrightarrow> table_ok s \<and> lock_free (mach s) TicksLock \<and> km_ready s"

lemma km_step_fields:
  assumes "km_step s (s' :: 'z proc_state_scheme)"
  shows "ptable s' = ptable s" "nextpid s' = nextpid s" "sym_trapret s' = sym_trapret s"
    "sym_forkret s' = sym_forkret s" "inside (mach s) {} (mach s')" "ticks s' = ticks s" "initproc s' = initproc s"
proof -
  have "s' = s\<lparr>mem := mem s', kmem_freelist := kmem_freelist s', mach := mach s'\<rparr>"
    and w: "inside (mach s) {} (mach s')" using assms unfolding km_step_def by blast+
  then show "ptable s' = ptable s" "nextpid s' = nextpid s" "sym_trapret s' = sym_trapret s"
    "sym_forkret s' = sym_forkret s" "ticks s' = ticks s" "initproc s' = initproc s"
    by (metis proc_state.ext_inject proc_state.surjective kbase.update_convs kmem_state.update_convs(3)
        proc_state.select_convs)+
  show "inside (mach s) {} (mach s')" by (rule w)
qed

lemma wp_allocproc_full:
  assumes r: "alloc_ready s" and none: "find_from (\<lambda>p. p_state p = UNUSED) (ptable s) 0 = None"
  shows "wp allocproc (\<lambda>r s'. r = None \<and> (\<exists>m. inside (mach s) {} m \<and> s' = s\<lparr>mach := m\<rparr>)) s"
proof -
  have ok: "mach_ok (mach s)" "lock_free (mach s) PtableLock"
    using r by (simp_all add: alloc_ready_def table_ok_def)
  show ?thesis
    unfolding allocproc_def
    by (rule wp_seq, rule wp_acquire [OF ok(1) inside_refl [OF ok(1)] ok(2)], simp, rule wp_bnd, simp add: wp_get none,
        rule wp_seq, rule wp_release [OF ok(1), of "{PtableLock}"]) (auto simp: wp_ret)
qed

definition stack_post :: "nat \<Rightarrow> u32 list \<Rightarrow> 'z proc_state_scheme \<Rightarrow> nat option \<Rightarrow> 'z proc_state_scheme \<Rightarrow> bool" where
  "stack_post i xs s r s' \<longleftrightarrow> inside (mach s) {} (mach s') \<and> kmem_inv s' (tl xs) \<and> nextpid s' = nextpid s \<and>
     (case xs of
        [] \<Rightarrow> r = None \<and> mem s' = mem s \<and>
          ptable s' = (ptable s)[i := (ptable s ! i)\<lparr>p_kstack := 0, p_state := UNUSED\<rparr>]
      | k # _ \<Rightarrow> r = Some i \<and> mem s' = new_stack (mem s) k (sym_trapret s) (sym_forkret s) \<and>
          ptable s' = (ptable s)[i := (ptable s ! i)\<lparr>p_kstack := k, p_tf := k + 4020, p_context := k + 3996\<rparr>])"

lemma wp_alloc_kstack:
  assumes inv: "kmem_inv s xs" and ready: "km_ready s" and i: "i < length (ptable s)"
  shows "wp (alloc_kstack i) (stack_post i xs s) s"
  unfolding alloc_kstack_def
proof (rule wp_bndI [OF kalloc_step [OF ready inv]], elim conjE, goal_cases)
  case (1 k s2)
  note k = "1"(1) and inv2 = "1"(2) and mem2 = "1"(3)
  note f = km_step_fields [OF "1"(4)]
  show ?case
  proof (cases xs)
    case Nil
    then show ?thesis
      using k f i mem2 inv2
      by (intro wp_runI [where a = None and s' = "s2\<lparr>ptable := (ptable s)[i := (ptable s ! i)\<lparr>p_kstack := 0, p_state := UNUSED\<rparr>]\<rparr>"])
        (auto simp: krun kmem_inv_def stack_post_def)
  next
    case (Cons x ys)
    have x: "x \<noteq> 0" "is_page x" "x \<notin> set ys"
      using inv Cons page_ok_nonzero by (auto simp: kmem_inv_def page_ok_def)
    let ?h = "new_stack (mem s) x (sym_trapret s) (sym_forkret s)"
    have "kmem_inv (s2\<lparr>mem := ?h\<rparr>) ys"
    proof (rule kmem_inv_frame)
      show "kmem_inv s2 ys" using inv2 Cons by simp
      fix y a assume y: "y \<in> set ys" "in_range a y 4096"
      then have "is_page y" "y \<noteq> x" using inv Cons x(3) by (auto simp: kmem_inv_def page_ok_def)
      then show "?h a = mem s2 a" using new_stack_words(3) [OF x(2)] in_other_page [OF x(2) _ _ y(2)] mem2 by simp
    qed
    then show ?thesis
      using k f i mem2 inv2 Cons x
      by (intro wp_runI [where a = "Some i" and s' = "s2\<lparr>ptable := (ptable s)[i := (ptable s ! i)\<lparr>p_kstack := x, p_tf := x + 4020, p_context := x + 3996\<rparr>], mem := ?h\<rparr>"])
        (auto simp: krun new_stack_def Let_def kmem_inv_def stack_post_def add.commute)
  qed
qed

lemma wp_allocproc_slot:
  assumes r: "alloc_ready s" and inv: "kmem_inv s xs"
    and slot: "find_from (\<lambda>p. p_state p = UNUSED) (ptable s) 0 = Some i"
  shows "wp allocproc (\<lambda>r s'. inside (mach s) {} (mach s') \<and> kmem_inv s' (tl xs) \<and>
    nextpid s' = wrap32 (nextpid s + 1) \<and>
    (case xs of
       [] \<Rightarrow> r = None \<and> mem s' = mem s \<and> p_state (ptable s' ! i) = UNUSED \<and> ptable s' = (ptable s)[i := ptable s' ! i]
     | k # _ \<Rightarrow> r = Some i \<and> mem s' = new_stack (mem s) k (sym_trapret s) (sym_forkret s) \<and>
         ptable s' = (ptable s)[i := fresh_proc k (nextpid s) (ticks s) (ptable s ! i)])) s"
proof -
  have ok: "mach_ok (mach s)" "lock_free (mach s) PtableLock" "lock_free (mach s) TicksLock" "km_ready s"
    using r by (simp_all add: alloc_ready_def table_ok_def)
  have i: "i < length (ptable s)" using slot by (simp add: find_from_0)
  note w = inside_refl [OF ok(1)]
  have tail: "wp (alloc_kstack i) (\<lambda>r s'. inside (mach s) {} (mach s') \<and> kmem_inv s' (tl xs) \<and>
      nextpid s' = wrap32 (nextpid s + 1) \<and>
      (case xs of
         [] \<Rightarrow> r = None \<and> mem s' = mem s \<and> p_state (ptable s' ! i) = UNUSED \<and> ptable s' = (ptable s)[i := ptable s' ! i]
       | k # _ \<Rightarrow> r = Some i \<and> mem s' = new_stack (mem s) k (sym_trapret s) (sym_forkret s) \<and>
           ptable s' = (ptable s)[i := fresh_proc k (nextpid s) (ticks s) (ptable s ! i)])) t"
    if t: "inside (mach s) {} (mach t)" "mem t = mem s" "kend t = kend s" "kmem_freelist t = kmem_freelist s"
      "kmem_use_lock t = kmem_use_lock s" "sym_trapret t = sym_trapret s" "sym_forkret t = sym_forkret s"
      "nextpid t = wrap32 (nextpid s + 1)"
      "ptable t = (ptable s)[i := (ptable s ! i)\<lparr>p_level := 0, p_arrTime := sint (ticks s), p_ticket := 10,
        p_cycleNum := 1, p_remaining_priority := 10, p_state := EMBRYO, p_pid := nextpid s\<rparr>]"
    for t :: "'a proc_state_scheme"
  proof (rule wp_mono [OF wp_alloc_kstack])
    show "kmem_inv t xs" using inv t by (simp add: kmem_inv_def)
    show "km_ready t" using ok(4) inside_ok [OF ok(1) t(1)] inside_free [OF t(1)] t(5) by (auto simp: km_ready_def)
    show "i < length (ptable t)" using i t by simp
    fix r s' assume "stack_post i xs t r s'"
    then show "inside (mach s) {} (mach s') \<and> kmem_inv s' (tl xs) \<and>
      nextpid s' = wrap32 (nextpid s + 1) \<and>
      (case xs of
         [] \<Rightarrow> r = None \<and> mem s' = mem s \<and> p_state (ptable s' ! i) = UNUSED \<and> ptable s' = (ptable s)[i := ptable s' ! i]
       | k # _ \<Rightarrow> r = Some i \<and> mem s' = new_stack (mem s) k (sym_trapret s) (sym_forkret s) \<and>
           ptable s' = (ptable s)[i := fresh_proc k (nextpid s) (ticks s) (ptable s ! i)])"
      using t i inside_trans [OF ok(1) t(1)] by (auto simp: stack_post_def fresh_proc_def split: list.splits)
  qed
  show ?thesis
    unfolding allocproc_def
    apply (rule wp_seq, rule wp_acquire [OF ok(1) w ok(2)], simp)
    apply (rule wp_bnd, simp add: wp_get slot)
    apply (rule wp_seq, simp only: wp_upd upd_proc_def)
    apply (rule wp_seq, rule wp_acquire [OF ok(1) _ ok(3)], simp, simp)
    apply (rule wp_bnd, simp only: wp_get)
    apply (rule wp_seq, rule wp_release [OF ok(1)], simp, simp)
    apply (rule wp_seq, simp only: wp_upd upd_proc_def)
    apply (rule wp_bnd, simp only: wp_get)
    apply (rule wp_seq, simp only: wp_upd)
    apply (rule wp_seq, simp only: wp_upd upd_proc_def)
    apply (rule wp_seq, rule wp_release [OF ok(1), of "{PtableLock}"], simp add: insert_Diff_if, simp)
    apply (rule tail; use i in \<open>simp\<close>)
    done
qed

section \<open>Properties\<close>

text \<open>The state of a kernel that has started: an empty process table, zeroed as the C program starts
  with it.\<close>

definition witness_procs :: proc_state where
  "witness_procs = \<lparr>mach = boot_machine, mem = (\<lambda>_. 0), kend = 0x80110000, kmem_use_lock = True,
     kmem_freelist = 0x80400000, cons_locking = True, panicked = False,
     crt = (\<lambda>_. 0), crt_reg = (\<lambda>_. 0), uart = True, uart_out = [], kpgdir = 0, kdata = 0x80108000, ts_addr = (\<lambda>_. 0),
     ptable = (zero_proc\<lparr>p_state := RUNNING, p_pid := 1\<rparr>) # replicate 63 zero_proc,
     initproc = Some 0, nextpid = 2, ticks = 7, barrier_max = 0, barrier_counter = 0,
     sym_trapret = 0x80105000, sym_forkret = 0x80103000\<rparr>"

lemma boot_machine_cpu [simp]:
  "depth boot_machine = 0" "cpu_proc (the_cpu boot_machine) = Some 0" "IF boot_machine"
  by (simp_all add: depth_def the_cpu_def this_cpu_def boot_machine_def boot_cpu_def)

lemma witness_procs_ok: "alloc_ready witness_procs" "kmem_inv witness_procs [0x80400000]"
  by (simp_all add: alloc_ready_def table_ok_def km_ready_def kmem_inv_def witness_procs_def page_ok_def is_page_def
      V2P_def load32_def)

text \<open>C11: \<^verbatim>\<open>sleep\<close> is atomic with respect to \<^verbatim>\<open>wakeup\<close>.  A caller that holds the lock \<open>L\<close> of the
  condition gives up the processor with \<open>L\<close> released, the lock of the process table held, and the process
  already SLEEPING on its channel: a \<^verbatim>\<open>wakeup\<close> of that channel by whoever takes \<open>L\<close> next makes it
  RUNNABLE, so that no wake-up is lost.  When it is given the processor again, \<^verbatim>\<open>sleep\<close> returns holding \<open>L\<close>, and only \<open>L\<close>, with the
  channel cleared.\<close>

theorem sleep_loses_no_wakeup:
  assumes "mach_ok m\<^sub>0" "depth m\<^sub>0 = 0" "inside m\<^sub>0 {L} (mach s)" "lock_free m\<^sub>0 PtableLock" "L \<noteq> PtableLock"
    and "cpu_proc (the_cpu m\<^sub>0) = Some i" "i < length (ptable s)"
  shows "\<exists>s1. sleep ch (Some L) s [] = Blocked s1 \<and> inside m\<^sub>0 {PtableLock} (mach s1) \<and> lock_free (mach s1) L \<and>
    p_state (ptable s1 ! i) = SLEEPING \<and> p_state (map (wake_one ch) (ptable s1) ! i) = RUNNABLE \<and>
    (\<forall>e es. mach_ok (mach (e s1)) \<longrightarrow> inside m\<^sub>0 {PtableLock} (resume (IF m\<^sub>0) (mach (e s1))) \<longrightarrow>
       (\<exists>m'. inside m\<^sub>0 {L} m' \<and> sleep ch (Some L) s (e # es) =
          Ret () ((e s1)\<lparr>ptable := (ptable (e s1))[i := (ptable (e s1) ! i)\<lparr>p_chan := None\<rparr>], mach := m'\<rparr>) es))"
proof -
  obtain m where m: "inside m\<^sub>0 {PtableLock} m" and run: "let s1 = s\<lparr>mach := m, ptable := (ptable s)[i := asleep ch (ptable s ! i)]\<rparr> in
     sleep ch (Some L) s [] = Blocked s1 \<and>
     (\<forall>e es. mach_ok (mach (e s1)) \<longrightarrow> inside m\<^sub>0 {PtableLock} (resume (IF m\<^sub>0) (mach (e s1))) \<longrightarrow>
        (\<exists>m'. inside m\<^sub>0 {L} m' \<and> sleep ch (Some L) s (e # es) =
           Ret () ((e s1)\<lparr>ptable := (ptable (e s1))[i := (ptable (e s1) ! i)\<lparr>p_chan := None\<rparr>], mach := m'\<rparr>) es))"
    using sleep_run [OF assms, of ch] unfolding Let_def by meson
  have "lock_free m\<^sub>0 L" using assms(3) by (simp add: inside_def)
  then have "lock_free m L" using inside_free [OF m] assms(5) by simp
  then show ?thesis
    using run m assms(7) by (intro exI [of _ "s\<lparr>mach := m, ptable := (ptable s)[i := asleep ch (ptable s ! i)]\<rparr>"])
      (simp add: Let_def asleep_def wake_one_def)
qed

theorem sleep_loses_no_wakeup_witness:
  "\<exists>s1. sleep (Some ChBarrier) (Some TicksLock) (witness_procs\<lparr>mach := acq (\<lambda>_. 0) TicksLock boot_machine\<rparr>) [] = Blocked s1 \<and>
     p_state (ptable s1 ! 0) = SLEEPING"
proof -
  have "inside boot_machine {TicksLock} (acq (\<lambda>_. 0) TicksLock boot_machine)"
    using inside_acq [of boot_machine "{}" boot_machine TicksLock "\<lambda>_. 0"] by (simp add: inside_refl)
  then show ?thesis
    using sleep_loses_no_wakeup [of boot_machine TicksLock "witness_procs\<lparr>mach := acq (\<lambda>_. 0) TicksLock boot_machine\<rparr>" 0 "Some ChBarrier"]
    by (auto simp: witness_procs_def)
qed

text \<open>C12: \<^verbatim>\<open>allocproc\<close> takes the first UNUSED slot and the page on top of the free list: the
  process has the next pid, state EMBRYO, level 0 with ten tickets, the current tick as its arrival
  time, and a kernel stack that returns to \<^verbatim>\<open>forkret\<close> and from there to \<^verbatim>\<open>trapret\<close>; no other slot and no other byte
  of memory changes.  Without a free slot or a free page it returns null, and no slot is
  left occupied.\<close>

theorem allocproc_spec:
  assumes r: "alloc_ready s" and inv: "kmem_inv s xs"
  shows "wp allocproc (\<lambda>r s'. inside (mach s) {} (mach s') \<and>
    (case (find_from (\<lambda>p. p_state p = UNUSED) (ptable s) 0, xs) of
       (Some i, k # ks) \<Rightarrow> r = Some i \<and> kmem_inv s' ks \<and> nextpid s' = wrap32 (nextpid s + 1) \<and>
         ptable s' = (ptable s)[i := fresh_proc k (nextpid s) (ticks s) (ptable s ! i)] \<and>
         load32 (mem s') (k + 4012) = sym_forkret s \<and> load32 (mem s') (k + 4016) = sym_trapret s \<and>
         (\<forall>a. \<not> in_range a k 4096 \<longrightarrow> mem s' a = mem s a)
     | _ \<Rightarrow> r = None \<and> mem s' = mem s \<and> map p_state (ptable s') = map p_state (ptable s))) s"
proof (cases "find_from (\<lambda>p. p_state p = UNUSED) (ptable s) 0")
  case None
  show ?thesis by (rule wp_mono [OF wp_allocproc_full [OF r None]]) (auto simp: None)
next
  case (Some i)
  then have i: "i < length (ptable s)" "p_state (ptable s ! i) = UNUSED" by (simp_all add: find_from_0)
  show ?thesis
  proof (rule wp_mono [OF wp_allocproc_slot [OF r inv Some]], goal_cases)
    case (1 x s')
    show ?case
    proof (cases xs)
      case Nil
      then have "ptable s' = (ptable s)[i := ptable s' ! i]" "p_state (ptable s' ! i) = UNUSED" using 1 by simp_all
      then have "map p_state (ptable s') = map p_state (ptable s)"
        using i by (metis list_update_id map_update nth_map)
      then show ?thesis using 1 Nil Some by simp
    next
      case (Cons k ks)
      have "is_page k" using inv Cons by (simp add: kmem_inv_def page_ok_def)
      then show ?thesis using 1 Cons Some new_stack_words by simp
    qed
  qed
qed

theorem allocproc_spec_witness:
  "wp allocproc (\<lambda>r s'. r = Some 1 \<and> nextpid s' = 3 \<and> load32 (mem s') 0x80400FAC = 0x80103000) witness_procs"
proof (rule wp_mono [OF allocproc_spec [OF witness_procs_ok]], goal_cases)
  case (1 r s')
  have "find_from (\<lambda>p. p_state p = UNUSED) (ptable witness_procs) 0 = Some 1"
    unfolding find_from_0 by (simp add: witness_procs_def zero_proc_def)
  then show ?case using 1 by (simp add: witness_procs_def wrap32_def)
qed

text \<open>C13: \<^verbatim>\<open>kill\<close> marks the first process with the given pid and wakes it when it sleeps, returning 0; it
  returns -1 when there is none.  Beyond that one slot of the process table it changes no part of the state but the machine's, and there
  it leaves the interrupt flag, the nesting depth and the holder of every lock as they were.\<close>

theorem kill_spec:
  assumes "table_ok s"
  shows "wp (kill pid) (\<lambda>r s'. inside (mach s) {} (mach s') \<and>
    (case find_from (\<lambda>p. p_pid p = pid) (ptable s) 0 of
       None \<Rightarrow> r = - 1 \<and> s' = s\<lparr>mach := mach s'\<rparr>
     | Some i \<Rightarrow> r = 0 \<and> s' = s\<lparr>ptable := (ptable s)[i := killed (ptable s ! i)], mach := mach s'\<rparr>)) s"
  by (rule wp_mono [OF wp_kill [OF assms]]) (auto split: option.splits)

theorem kill_spec_witness:
  "wp (kill 1) (\<lambda>r s'. r = 0 \<and> p_killed (ptable s' ! 0)) witness_procs"
proof (rule wp_mono [OF kill_spec], goal_cases)
  case 1
  then show ?case using witness_procs_ok(1) by (simp add: alloc_ready_def)
next
  case (2 r s')
  then have "r = 0" "ptable s' = (ptable witness_procs)[0 := killed (ptable witness_procs ! 0)]"
    by (auto simp: witness_procs_def dest: arg_cong [where f = ptable])
  then show ?case by (simp add: witness_procs_def killed_def)
qed

text \<open>C14: A process that acquires a re-entrant lock it already holds does not deadlock, and one release
  undoes any number of acquisitions: the nesting is not counted, the first release frees the lock.\<close>

theorem reentrant_not_counted:
  assumes ok: "mach_ok (mach s)" and L: "lock_free (mach s) L" and p: "cpu_proc (the_cpu (mach s)) = Some i"
  shows "\<exists>m. inside (mach s) {} m \<and>
    seq (forM [0..<Suc n] (\<lambda>_. acquire_reentrant L)) (release L) s es = Ret () (s\<lparr>mach := m\<rparr>) es"
proof -
  define m1 where "m1 = set_lk_pid L (p_pid (ptable s ! i)) (acq (mem s) L (mach s))"
  let ?s = "s\<lparr>mach := m1\<rparr>"
  have w: "inside (mach s) {L} m1"
    unfolding m1_def using inside_lk_pid [OF inside_acq [OF ok inside_refl [OF ok] L]] by simp
  have h: "mach_ok m1" "0 < depth m1" "holds m1 L" "cpu_proc (the_cpu m1) = Some i"
    using inside_ok [OF ok w] inside_depth [OF ok w, of L] inside_holds [OF w, of L] w p by (simp_all add: inside_def)
  have pid: "lk_pid (locks m1 L) = p_pid (ptable s ! i)" by (simp add: m1_def set_lk_pid_def)
  have again: "forM [Suc 0..<Suc n] (\<lambda>_. acquire_reentrant L) ?s es = Ret () ?s es"
    using reentrant_held_run [of ?s L i es] h pid by (induction n) (simp_all add: forM_append seq_run)
  have "acquire_reentrant L s es = Ret () ?s es"
    unfolding m1_def by (rule reentrant_free_run [OF ok L p])
  then have "forM [0..<Suc n] (\<lambda>_. acquire_reentrant L) s es = Ret () ?s es"
    using again by (simp add: upt_conv_Cons seq_run del: upt_Suc)
  moreover have "release L ?s es = Ret () (?s\<lparr>mach := rel L m1\<rparr>) es"
    using release_run [of ?s L es] h by simp
  moreover have "inside (mach s) ({L} - {L}) (rel L m1)" by (rule inside_rel [OF ok w]) simp
  ultimately show ?thesis by (auto simp: seq_run intro!: exI [of _ "rel L m1"])
qed

theorem reentrant_not_counted_witness:
  "\<exists>m. inside boot_machine {} m \<and>
    seq (forM [0..<3] (\<lambda>_. acquire_reentrant LocalLock)) (release LocalLock) witness_procs [] = Ret () (witness_procs\<lparr>mach := m\<rparr>) []"
  using reentrant_not_counted [of witness_procs LocalLock 0 2 "[]"] by (simp add: witness_procs_def numeral_3_eq_3)

end
