(* ===== verification/Sleeplock.thy ===== *)
theory Sleeplock
  imports Proc
begin

text \<open>
  Sleep locks (\<^verbatim>\<open>sleeplock.c\<close>): long-term locks that give up the processor while they wait.  A lock is
  named by the structure it sits in, its fields are kept in the map \<open>sleeplocks\<close>, the spin lock
  inside it is \<^term>\<open>SleepLk l\<close>.
\<close>

record sleeplock =
  sl_locked :: bool
  sl_name :: string
  sl_pid :: int

record sleep_state = proc_state +
  sleeplocks :: "sleeplock_id \<Rightarrow> sleeplock"

section \<open>The code\<close>

definition upd_sl :: "sleeplock_id \<Rightarrow> (sleeplock \<Rightarrow> sleeplock) \<Rightarrow> ('z sleep_state_scheme, unit) kM" where
  "upd_sl l f = upd (\<lambda>s. s\<lparr>sleeplocks := (sleeplocks s)(l := f (sleeplocks s l))\<rparr>)"

definition initsleeplock :: "sleeplock_id \<Rightarrow> string \<Rightarrow> ('z sleep_state_scheme, unit) kM" where
  "initsleeplock l name =
     seq (initlock (SleepLk l) ''sleep lock'')
         (upd_sl l (\<lambda>k. k\<lparr>sl_name := name, sl_locked := False, sl_pid := 0\<rparr>))"

text \<open>\<^verbatim>\<open>myproc()->pid\<close>\<close>

definition mypid :: "('z proc_state_scheme, int) kM" where
  "mypid = bnd myproc (\<lambda>p. deref p (\<lambda>i. bnd (get_proc i) (\<lambda>pr. ret (p_pid pr))))"

definition acquiresleep :: "sleeplock_id \<Rightarrow> ('z sleep_state_scheme, unit) kM" where
  "acquiresleep l =
     seq (acquire (SleepLk l)) (
     seq (while_sleep (\<lambda>s. sl_locked (sleeplocks s l)) (sleep (Some (ChSleep l)) (Some (SleepLk l)))) (
     seq (upd_sl l (\<lambda>k. k\<lparr>sl_locked := True\<rparr>)) (
     bnd mypid (\<lambda>pid.
     seq (upd_sl l (\<lambda>k. k\<lparr>sl_pid := pid\<rparr>)) (
     release (SleepLk l))))))"

definition releasesleep :: "sleeplock_id \<Rightarrow> ('z sleep_state_scheme, unit) kM" where
  "releasesleep l =
     seq (acquire (SleepLk l)) (
     seq (upd_sl l (\<lambda>k. k\<lparr>sl_locked := False\<rparr>)) (
     seq (upd_sl l (\<lambda>k. k\<lparr>sl_pid := 0\<rparr>)) (
     seq (wakeup (Some (ChSleep l))) (
     release (SleepLk l)))))"

definition holdingsleep :: "sleeplock_id \<Rightarrow> ('z sleep_state_scheme, bool) kM" where
  "holdingsleep l =
     seq (acquire (SleepLk l)) (
     bnd (get (\<lambda>s. sleeplocks s l)) (\<lambda>k.
     bnd (if sl_locked k then bnd mypid (\<lambda>pid. ret (sl_pid k = pid)) else ret False) (\<lambda>r.
     seq (release (SleepLk l)) (ret r))))"

section \<open>Runs\<close>

text \<open>The machine a process runs on, outside any critical section of the lock \<open>l\<close>.\<close>

definition run_ok :: "machine \<Rightarrow> nat \<Rightarrow> lockid set \<Rightarrow> 'z proc_state_scheme \<Rightarrow> bool" where
  "run_ok m\<^sub>0 i A s \<longleftrightarrow> mach_ok m\<^sub>0 \<and> inside m\<^sub>0 A (mach s) \<and> cpu_proc (the_cpu m\<^sub>0) = Some i \<and> i < length (ptable s)"

lemma wp_mypid:
  assumes "mach_ok m\<^sub>0" "inside m\<^sub>0 A (mach s)" "cpu_proc (the_cpu m\<^sub>0) = Some i"
    and "\<And>m. inside m\<^sub>0 A m \<Longrightarrow> Q (p_pid (ptable s ! i)) (s\<lparr>mach := m\<rparr>)"
  shows "wp mypid Q s"
  unfolding mypid_def
  by (rule wp_bnd, rule wp_myproc [OF assms(1,2)])
    (simp add: assms(3) deref_def, rule wp_bnd, simp add: get_proc_def wp_get wp_ret assms(4))

definition owned :: "int \<Rightarrow> sleeplock \<Rightarrow> sleeplock" where
  "owned pid k = k\<lparr>sl_locked := True, sl_pid := pid\<rparr>"

definition free_sl :: "sleeplock \<Rightarrow> sleeplock" where
  "free_sl k = k\<lparr>sl_locked := False, sl_pid := 0\<rparr>"

lemma while_sleep_skip: "\<not> c s \<Longrightarrow> while_sleep c (sleep ch lk) s es = Ret () s es"
  by (simp add: while_sleep_unfold [OF strict_sleep])

lemma wp_acquiresleep_tail:
  assumes "mach_ok m\<^sub>0" "inside m\<^sub>0 (insert (SleepLk l) A) (mach s)" "SleepLk l \<notin> A" "cpu_proc (the_cpu m\<^sub>0) = Some i"
    and Q: "\<And>m. inside m\<^sub>0 A m \<Longrightarrow>
      Q () (s\<lparr>sleeplocks := (sleeplocks s)(l := owned (p_pid (ptable s ! i)) (sleeplocks s l)), mach := m\<rparr>)"
  shows "wp (seq (upd_sl l (\<lambda>k. k\<lparr>sl_locked := True\<rparr>)) (
     bnd mypid (\<lambda>pid.
     seq (upd_sl l (\<lambda>k. k\<lparr>sl_pid := pid\<rparr>)) (
     release (SleepLk l))))) Q s"
  apply (rule wp_seq, simp only: upd_sl_def wp_upd)
  apply (rule wp_bnd, rule wp_mypid [OF assms(1) _ assms(4)], simp, rule assms(2))
  apply (rule wp_seq, simp only: wp_upd)
  apply (rule wp_release [OF assms(1), of "insert (SleepLk l) A"], simp, simp)
  using Q assms(3) by (simp add: owned_def)

lemma wp_acquiresleep:
  assumes ok: "mach_ok m\<^sub>0" and w: "inside m\<^sub>0 A (mach s)" and p: "cpu_proc (the_cpu m\<^sub>0) = Some i"
    and l: "lock_free m\<^sub>0 (SleepLk l)" "SleepLk l \<notin> A" "\<not> sl_locked (sleeplocks s l)"
    and Q: "\<And>m. inside m\<^sub>0 A m \<Longrightarrow>
      Q () (s\<lparr>sleeplocks := (sleeplocks s)(l := owned (p_pid (ptable s ! i)) (sleeplocks s l)), mach := m\<rparr>)"
  shows "wp (acquiresleep l) Q s"
  unfolding acquiresleep_def
proof (rule wp_seq, rule wp_acquire [OF ok w l(1,2)], rule wp_seq)
  fix m assume m: "inside m\<^sub>0 (insert (SleepLk l) A) m"
  show "wp (while_sleep (\<lambda>s. sl_locked (sleeplocks s l)) (sleep (Some (ChSleep l)) (Some (SleepLk l))))
     (\<lambda>_. wp (seq (upd_sl l (sl_locked_update (\<lambda>_. True))) (
     bnd mypid (\<lambda>pid. seq (upd_sl l (sl_pid_update (\<lambda>_. pid))) (release (SleepLk l))))) Q) (s\<lparr>mach := m\<rparr>)"
    by (rule wp_runI, rule while_sleep_skip, simp add: l(3),
        rule wp_acquiresleep_tail [OF ok _ l(2) p], use m Q in simp_all)
qed

lemma wp_holdingsleep:
  assumes ok: "mach_ok m\<^sub>0" and w: "inside m\<^sub>0 A (mach s)" and p: "cpu_proc (the_cpu m\<^sub>0) = Some i"
    and l: "lock_free m\<^sub>0 (SleepLk l)" "SleepLk l \<notin> A"
    and Q: "\<And>m. inside m\<^sub>0 A m \<Longrightarrow>
      Q (sl_locked (sleeplocks s l) \<and> sl_pid (sleeplocks s l) = p_pid (ptable s ! i)) (s\<lparr>mach := m\<rparr>)"
  shows "wp (holdingsleep l) Q s"
  unfolding holdingsleep_def
proof (rule wp_seq, rule wp_acquire [OF ok w l(1,2)], rule wp_bnd, simp only: wp_get, rule wp_bnd)
  fix m assume m: "inside m\<^sub>0 (insert (SleepLk l) A) m"
  let ?k = "sleeplocks (s\<lparr>mach := m\<rparr>) l"
  have rel: "wp (seq (release (SleepLk l)) (ret b)) Q (s\<lparr>mach := m'\<rparr>)"
    if "inside m\<^sub>0 (insert (SleepLk l) A) m'" "b = (sl_locked ?k \<and> sl_pid ?k = p_pid (ptable s ! i))" for m' b
    by (rule wp_seq, rule wp_release [OF ok, of "insert (SleepLk l) A"]) (use that Q l(2) in \<open>simp_all add: wp_ret\<close>)
  show "wp (if sl_locked ?k then bnd mypid (\<lambda>pid. ret (sl_pid ?k = pid)) else ret False)
      (\<lambda>r. wp (seq (release (SleepLk l)) (ret r)) Q) (s\<lparr>mach := m\<rparr>)"
  proof (cases "sl_locked ?k")
    case True
    then show ?thesis
      by (simp, intro wp_bnd, intro wp_mypid [OF ok _ p]) (use m in \<open>auto intro: rel simp: wp_ret\<close>)
  next
    case False
    then show ?thesis using m rel by (simp add: wp_ret)
  qed
qed

lemma wp_wakeup_in:
  assumes ok: "mach_ok m\<^sub>0" and w: "inside m\<^sub>0 A (mach s)" and l: "lock_free m\<^sub>0 PtableLock" "PtableLock \<notin> A" "length (ptable s) = NPROC"
    and Q: "\<And>m. inside m\<^sub>0 A m \<Longrightarrow> Q () (s\<lparr>ptable := map (wake_one ch) (ptable s), mach := m\<rparr>)"
  shows "wp (wakeup ch) Q s"
  unfolding wakeup_def
  by (rule wp_seq, rule wp_acquire [OF ok w l(1,2)], rule wp_seq, rule wp_runI, rule wakeup1_run, simp add: l(3),
      rule wp_release [OF ok, of "insert PtableLock A"]) (use l(2) Q in simp_all)

lemma wp_releasesleep:
  assumes ok: "mach_ok m\<^sub>0" and w: "inside m\<^sub>0 A (mach s)"
    and l: "lock_free m\<^sub>0 (SleepLk l)" "SleepLk l \<notin> A" "lock_free m\<^sub>0 PtableLock" "PtableLock \<notin> A" "length (ptable s) = NPROC"
    and Q: "\<And>m. inside m\<^sub>0 A m \<Longrightarrow>
      Q () (s\<lparr>sleeplocks := (sleeplocks s)(l := free_sl (sleeplocks s l)),
              ptable := map (wake_one (Some (ChSleep l))) (ptable s), mach := m\<rparr>)"
  shows "wp (releasesleep l) Q s"
  unfolding releasesleep_def upd_sl_def
  apply (rule wp_seq, rule wp_acquire [OF ok w l(1,2)])
  apply (rule wp_seq, simp only: wp_upd)
  apply (rule wp_seq, simp only: wp_upd)
  apply (rule wp_seq, rule wp_wakeup_in [OF ok _ l(3)], simp, use l in simp, use l in simp)
  apply (rule wp_release [OF ok, of "insert (SleepLk l) A"], simp, simp)
  subgoal for m m' m''
    using Q [of m''] l(2) by (cases s) (simp add: free_sl_def)
  done

section \<open>Waiting for a sleep lock\<close>

text \<open>What the rest of the system promises a process that gave up the processor holding only the lock
  of the process table: it gets the processor back in the same condition, in its slot and with its pid.\<close>

definition env_ok :: "machine \<Rightarrow> nat \<Rightarrow> ('z proc_state_scheme \<Rightarrow> 'z proc_state_scheme) \<Rightarrow> bool" where
  "env_ok m\<^sub>0 i e \<longleftrightarrow> (\<forall>s. inside m\<^sub>0 {PtableLock} (mach s) \<and> i < length (ptable s) \<longrightarrow>
     mach_ok (mach (e s)) \<and> inside m\<^sub>0 {PtableLock} (resume (IF m\<^sub>0) (mach (e s))) \<and>
     i < length (ptable (e s)) \<and> p_pid (ptable (e s) ! i) = p_pid (ptable s ! i))"

text \<open>The rule for \<^verbatim>\<open>sleep\<close>: the process blocks marked as sleeping on the channel, with only the lock of the
  process table held, or one step of the environment runs and it continues with its lock taken again.\<close>

lemma wpb_sleep:
  assumes ok: "mach_ok m\<^sub>0" "depth m\<^sub>0 = 0" and w: "inside m\<^sub>0 {L} (mach s)"
    and L: "lock_free m\<^sub>0 PtableLock" "L \<noteq> PtableLock"
    and p: "cpu_proc (the_cpu m\<^sub>0) = Some i" "i < length (ptable s)"
    and E: "\<And>e. e \<in> E \<Longrightarrow> env_ok m\<^sub>0 i e"
    and B: "\<And>m. inside m\<^sub>0 {PtableLock} m \<Longrightarrow> B (s\<lparr>mach := m, ptable := (ptable s)[i := asleep ch (ptable s ! i)]\<rparr>)"
    and Q: "\<And>e m m' t. e \<in> E \<Longrightarrow> inside m\<^sub>0 {PtableLock} m \<Longrightarrow> inside m\<^sub>0 {L} m' \<Longrightarrow>
      t = e (s\<lparr>mach := m, ptable := (ptable s)[i := asleep ch (ptable s ! i)]\<rparr>) \<Longrightarrow>
      i < length (ptable t) \<Longrightarrow> p_pid (ptable t ! i) = p_pid (ptable s ! i) \<Longrightarrow>
      Q () (t\<lparr>ptable := (ptable t)[i := (ptable t ! i)\<lparr>p_chan := None\<rparr>], mach := m'\<rparr>)"
  shows "wpb E B (sleep ch (Some L)) Q s"
proof -
  obtain m where m: "inside m\<^sub>0 {PtableLock} m" and run: "let s1 = s\<lparr>mach := m, ptable := (ptable s)[i := asleep ch (ptable s ! i)]\<rparr> in
     sleep ch (Some L) s [] = Blocked s1 \<and>
     (\<forall>e. mach_ok (mach (e s1)) \<longrightarrow> inside m\<^sub>0 {PtableLock} (resume (IF m\<^sub>0) (mach (e s1))) \<longrightarrow>
        (\<exists>m'. inside m\<^sub>0 {L} m' \<and> (\<forall>es. sleep ch (Some L) s (e # es) =
           Ret () ((e s1)\<lparr>ptable := (ptable (e s1))[i := (ptable (e s1) ! i)\<lparr>p_chan := None\<rparr>], mach := m'\<rparr>) es)))"
    using sleep_run [OF ok w L p, of ch] by blast
  let ?s = "s\<lparr>mach := m, ptable := (ptable s)[i := asleep ch (ptable s ! i)]\<rparr>"
  have "case sleep ch (Some L) s es of Ret a s' es' \<Rightarrow> Q a s' \<and> set es' \<subseteq> E | Panic p \<Rightarrow> False | Blocked s' \<Rightarrow> B s' | Spin \<Rightarrow> False"
    if es: "set es \<subseteq> E" for es
  proof (cases es)
    case Nil
    then show ?thesis using run B [OF m] by (simp add: Let_def)
  next
    case (Cons e es')
    then have e: "e \<in> E" "env_ok m\<^sub>0 i e" using es E by auto
    then have e': "mach_ok (mach (e ?s))" "inside m\<^sub>0 {PtableLock} (resume (IF m\<^sub>0) (mach (e ?s)))"
      "i < length (ptable (e ?s))" "p_pid (ptable (e ?s) ! i) = p_pid (ptable ?s ! i)"
      using m p(2) unfolding env_ok_def by simp_all
    obtain m' where m': "inside m\<^sub>0 {L} m'" "sleep ch (Some L) s (e # es') =
        Ret () ((e ?s)\<lparr>ptable := (ptable (e ?s))[i := (ptable (e ?s) ! i)\<lparr>p_chan := None\<rparr>], mach := m'\<rparr>) es'"
      using run e'(1,2) unfolding Let_def by meson
    then show ?thesis
      using Q [OF e(1) m m'(1) refl e'(3)] e'(4) p(2) es Cons by (simp add: asleep_def)
  qed
  then show ?thesis by (simp add: wpb_def)
qed

text \<open>A property of the state that neither the lock operations nor putting a process to sleep nor the steps
  \<open>E\<close> of the environment invalidate.\<close>

definition stable :: "('z proc_state_scheme \<Rightarrow> 'z proc_state_scheme) set \<Rightarrow> ('z proc_state_scheme \<Rightarrow> bool) \<Rightarrow> bool" where
  "stable E I \<longleftrightarrow> (\<forall>s m t. I s \<longrightarrow> length t = length (ptable s) \<longrightarrow> I (s\<lparr>mach := m, ptable := t\<rparr>)) \<and> (\<forall>e \<in> E. \<forall>s. I s \<longrightarrow> I (e s))"

lemma stableD:
  assumes "stable E I" "I s"
  shows "I (s\<lparr>mach := m\<rparr>)" "length t = length (ptable s) \<Longrightarrow> I (s\<lparr>mach := m, ptable := t\<rparr>)"
    "length t = length (ptable s) \<Longrightarrow> I (s\<lparr>ptable := t, mach := m\<rparr>)" "e \<in> E \<Longrightarrow> I (e s)"
proof -
  show 2: "length t = length (ptable s) \<Longrightarrow> I (s\<lparr>mach := m, ptable := t\<rparr>)" for t m
    using assms unfolding stable_def by blast
  have "s\<lparr>mach := m, ptable := ptable s\<rparr> = s\<lparr>mach := m\<rparr>" by simp
  then show "I (s\<lparr>mach := m\<rparr>)" using 2 [of "ptable s" m] by simp
  show "length t = length (ptable s) \<Longrightarrow> I (s\<lparr>ptable := t, mach := m\<rparr>)" using 2 [of t m] by (cases s) simp
  show "e \<in> E \<Longrightarrow> I (e s)" using assms unfolding stable_def by blast
qed

text \<open>A process that holds the lock \<open>L\<close> in a state satisfying \<open>I\<close> and sleeps comes back in such a state.\<close>

definition waiting :: "machine \<Rightarrow> nat \<Rightarrow> lockid \<Rightarrow> int \<Rightarrow> ('z proc_state_scheme \<Rightarrow> bool) \<Rightarrow> 'z proc_state_scheme \<Rightarrow> bool" where
  "waiting m\<^sub>0 i L pid I s \<longleftrightarrow> inside m\<^sub>0 {L} (mach s) \<and> i < length (ptable s) \<and> p_pid (ptable s ! i) = pid \<and> I s"

lemma wpb_sleep_waiting:
  assumes ok: "mach_ok m\<^sub>0" "depth m\<^sub>0 = 0" "lock_free m\<^sub>0 PtableLock" "L \<noteq> PtableLock" "cpu_proc (the_cpu m\<^sub>0) = Some i"
    and w: "waiting m\<^sub>0 i L pid I s" and E: "\<And>e. e \<in> E \<Longrightarrow> env_ok m\<^sub>0 i e" "stable E I"
    and B: "\<And>s'. I s' \<Longrightarrow> s' = s\<lparr>mach := mach s', ptable := (ptable s)[i := asleep ch (ptable s ! i)]\<rparr> \<Longrightarrow>
      inside m\<^sub>0 {PtableLock} (mach s') \<Longrightarrow> B s'"
  shows "wpb E B (sleep ch (Some L)) (\<lambda>_. waiting m\<^sub>0 i L pid I) s"
proof (rule wpb_sleep [OF ok(1,2) _ ok(3,4,5)])
  show W: "inside m\<^sub>0 {L} (mach s)" "i < length (ptable s)" using w by (simp_all add: waiting_def)
  have I: "I s" "p_pid (ptable s ! i) = pid" using w by (simp_all add: waiting_def)
  let ?s = "\<lambda>m. s\<lparr>mach := m, ptable := (ptable s)[i := asleep ch (ptable s ! i)]\<rparr>"
  have s1: "I (?s m)" for m using stableD(2) [OF E(2) I(1)] by simp
  show "B (?s m)" if "inside m\<^sub>0 {PtableLock} m" for m by (rule B) (use s1 that in simp_all)
  fix e m m' t
  assume e: "e \<in> E" "inside m\<^sub>0 {L} m'" "t = e (?s m)" "i < length (ptable t)" "p_pid (ptable t ! i) = p_pid (ptable s ! i)"
  have "I t" using e stableD(4) [OF E(2) s1] by simp
  then have "I (t\<lparr>ptable := (ptable t)[i := (ptable t ! i)\<lparr>p_chan := None\<rparr>], mach := m'\<rparr>)"
    using stableD(3) [OF E(2)] by simp
  then show "waiting m\<^sub>0 i L pid I (t\<lparr>ptable := (ptable t)[i := (ptable t ! i)\<lparr>p_chan := None\<rparr>], mach := m'\<rparr>)"
    using e I(2) by (simp add: waiting_def)
qed (use E in simp)

lemma wake_one_pid [simp]: "p_pid (wake_one ch q) = p_pid q"
  by (simp add: wake_one_def)

lemma wp_wakeup_waiting:
  assumes ok: "mach_ok m\<^sub>0" "lock_free m\<^sub>0 PtableLock" "L \<noteq> PtableLock"
    and w: "waiting m\<^sub>0 i L pid I s" "length (ptable s) = NPROC" and E: "stable E I"
  shows "wp (wakeup ch) (\<lambda>_ s'. waiting m\<^sub>0 i L pid I s' \<and> s' = s\<lparr>ptable := map (wake_one ch) (ptable s), mach := mach s'\<rparr>) s"
proof (rule wp_wakeup_in [OF ok(1) _ ok(2) _ w(2)])
  show "inside m\<^sub>0 {L} (mach s)" using w(1) by (simp add: waiting_def)
  fix m assume "inside m\<^sub>0 {L} m"
  then show "waiting m\<^sub>0 i L pid I (s\<lparr>ptable := map (wake_one ch) (ptable s), mach := m\<rparr>) \<and>
      s\<lparr>ptable := map (wake_one ch) (ptable s), mach := m\<rparr> =
      s\<lparr>ptable := map (wake_one ch) (ptable s), mach := mach (s\<lparr>ptable := map (wake_one ch) (ptable s), mach := m\<rparr>)\<rparr>"
    using w(1) stableD(3) [OF E, of s "map (wake_one ch) (ptable s)" m] by (auto simp: waiting_def)
qed (use ok(3) in simp)

lemma consumes_sleep: "consumes (seq (sleep ch lk) (ret None))"
  by (intro consumes_strict strict_seq1 strict_sleep keeps_simps)

text \<open>A process that has slept is taken off its channel when it goes on.\<close>

definition off_chan :: "nat \<Rightarrow> 'e list \<Rightarrow> proc list \<Rightarrow> proc list" where
  "off_chan i ds T = (if ds = [] then T else T[i := (T ! i)\<lparr>p_chan := None\<rparr>])"

lemma off_chan_simps [simp]:
  "off_chan i [] T = T" "length (off_chan i ds T) = length T" "i < length T \<Longrightarrow> p_pid (off_chan i ds T ! i) = p_pid (T ! i)"
  by (simp_all add: off_chan_def)

text \<open>One \<^verbatim>\<open>sleep\<close>: where it waits, and where it goes on after a step of the environment.\<close>

lemma sleep_env_run:
  fixes s :: "'z proc_state_scheme"
  assumes ok: "mach_ok m\<^sub>0" "depth m\<^sub>0 = 0" "lock_free m\<^sub>0 PtableLock" "L \<noteq> PtableLock" "cpu_proc (the_cpu m\<^sub>0) = Some i"
    and w: "inside m\<^sub>0 {L} (mach s)" "i < length (ptable s)"
  obtains m s0 where "s0 = s\<lparr>mach := m, ptable := (ptable s)[i := asleep ch (ptable s ! i)]\<rparr>" "sleep ch (Some L) s [] = Blocked s0"
    "\<And>e. env_ok m\<^sub>0 i e \<Longrightarrow> \<exists>t. (\<forall>es. sleep ch (Some L) s (e # es) = Ret () t es) \<and>
       t = (e s0)\<lparr>ptable := off_chan i [e] (ptable (e s0)), mach := mach t\<rparr> \<and> inside m\<^sub>0 {L} (mach t) \<and>
       i < length (ptable t) \<and> p_pid (ptable t ! i) = p_pid (ptable s ! i)"
proof -
  obtain m where m: "inside m\<^sub>0 {PtableLock} m" and run: "let s1 = s\<lparr>mach := m, ptable := (ptable s)[i := asleep ch (ptable s ! i)]\<rparr> in
     sleep ch (Some L) s [] = Blocked s1 \<and>
     (\<forall>e. mach_ok (mach (e s1)) \<longrightarrow> inside m\<^sub>0 {PtableLock} (resume (IF m\<^sub>0) (mach (e s1))) \<longrightarrow>
        (\<exists>m'. inside m\<^sub>0 {L} m' \<and> (\<forall>es. sleep ch (Some L) s (e # es) =
           Ret () ((e s1)\<lparr>ptable := (ptable (e s1))[i := (ptable (e s1) ! i)\<lparr>p_chan := None\<rparr>], mach := m'\<rparr>) es)))"
    using sleep_run [OF ok(1,2) w(1) ok(3,4,5) w(2), of ch] by blast
  define s0 where "s0 = s\<lparr>mach := m, ptable := (ptable s)[i := asleep ch (ptable s ! i)]\<rparr>"
  have s0: "inside m\<^sub>0 {PtableLock} (mach s0)" "i < length (ptable s0)" "p_pid (ptable s0 ! i) = p_pid (ptable s ! i)"
    using m w(2) by (simp_all add: s0_def asleep_def)
  show thesis
  proof (rule that [OF s0_def])
    show "sleep ch (Some L) s [] = Blocked s0" using run by (simp add: s0_def Let_def)
    fix e :: "'z proc_state_scheme \<Rightarrow> 'z proc_state_scheme" assume "env_ok m\<^sub>0 i e"
    then have e: "mach_ok (mach (e s0))" "inside m\<^sub>0 {PtableLock} (resume (IF m\<^sub>0) (mach (e s0)))"
      "i < length (ptable (e s0))" "p_pid (ptable (e s0) ! i) = p_pid (ptable s ! i)"
      using s0 unfolding env_ok_def by auto
    obtain m' where "inside m\<^sub>0 {L} m'"
      "\<And>es. sleep ch (Some L) s (e # es) = Ret () ((e s0)\<lparr>ptable := off_chan i [e] (ptable (e s0)), mach := m'\<rparr>) es"
      using run e(1,2) unfolding Let_def s0_def off_chan_def by auto
    then show "\<exists>t. (\<forall>es. sleep ch (Some L) s (e # es) = Ret () t es) \<and>
       t = (e s0)\<lparr>ptable := off_chan i [e] (ptable (e s0)), mach := mach t\<rparr> \<and> inside m\<^sub>0 {L} (mach t) \<and>
       i < length (ptable t) \<and> p_pid (ptable t ! i) = p_pid (ptable s ! i)"
      using e(3,4) by (intro exI [of _ "(e s0)\<lparr>ptable := off_chan i [e] (ptable (e s0)), mach := m'\<rparr>"]) simp
  qed
qed

text \<open>A loop \<^verbatim>\<open>while(c) sleep(ch, L)\<close> ends exactly where it is given the processor in a state without \<open>c\<close>.\<close>

definition waited :: "machine \<Rightarrow> nat \<Rightarrow> lockid \<Rightarrow> chan \<Rightarrow> ('z proc_state_scheme \<Rightarrow> bool) \<Rightarrow> ('z proc_state_scheme, unit) kM \<Rightarrow>
    'z proc_state_scheme \<Rightarrow> ('z proc_state_scheme \<Rightarrow> 'z proc_state_scheme) list \<Rightarrow> bool" where
  "waited m\<^sub>0 i L ch c W s es \<longleftrightarrow>
    (case W s es of
       Ret _ t es' \<Rightarrow> (\<exists>ds s1. es = ds @ es' \<and> handed W s ds s1 \<and> \<not> c s1 \<and>
         t = s1\<lparr>ptable := off_chan i ds (ptable s1), mach := mach t\<rparr> \<and> inside m\<^sub>0 {L} (mach t) \<and>
         i < length (ptable t) \<and> p_pid (ptable t ! i) = p_pid (ptable s ! i))
     | Panic p \<Rightarrow> False
     | Blocked t \<Rightarrow> c t \<and> p_state (ptable t ! i) = SLEEPING \<and> p_chan (ptable t ! i) = Some ch
     | Spin \<Rightarrow> False)"

lemma waited_step:
  assumes IH: "waited m\<^sub>0 i L ch c W t es" and b: "W s [] = Blocked s0" and W: "\<And>es. W s (e # es) = W t es"
    and c: "\<And>s m T. c (s\<lparr>ptable := T, mach := m\<rparr>) = c s"
    and t: "t = (e s0)\<lparr>ptable := off_chan i [e] (ptable (e s0)), mach := mach t\<rparr>" "p_pid (ptable t ! i) = p_pid (ptable s ! i)"
  shows "waited m\<^sub>0 i L ch c W s (e # es)"
proof (cases "W t es")
  case (Ret a u es')
  with IH obtain ds s1 where *: "es = ds @ es'" "handed W t ds s1" "\<not> c s1" "u = s1\<lparr>ptable := off_chan i ds (ptable s1), mach := mach u\<rparr>"
      "inside m\<^sub>0 {L} (mach u)" "i < length (ptable u)" "p_pid (ptable u ! i) = p_pid (ptable t ! i)"
    by (auto simp: waited_def)
  have "\<exists>s2. handed W s (e # ds) s2 \<and> \<not> c s2 \<and> u = s2\<lparr>ptable := off_chan i (e # ds) (ptable s2), mach := mach u\<rparr>"
  proof (cases "ds = []")
    case True
    then have u: "u = t\<lparr>mach := mach u\<rparr>" "\<not> c t" using * by simp_all
    have "c t = c (e s0)" by (subst t(1)) (rule c)
    moreover have "u = (e s0)\<lparr>ptable := off_chan i [e] (ptable (e s0)), mach := mach u\<rparr>" by (subst u(1), subst t(1)) simp
    ultimately show ?thesis using True u(2) handed_first [of W s s0 e] b by (intro exI [of _ "e s0"]) simp
  next
    case False
    then show ?thesis
      using * handed_later [where s = s and e = e, OF False *(2) W] by (intro exI [of _ s1]) (auto simp: off_chan_def)
  qed
  then show ?thesis using Ret * t(2) W by (auto simp: waited_def)
qed (use IH W in \<open>simp_all add: waited_def\<close>)

lemma while_sleep_run:
  fixes s :: "'z proc_state_scheme" and c :: "'z proc_state_scheme \<Rightarrow> bool" and ch L
  defines "W \<equiv> while_sleep c (sleep (Some ch) (Some L))"
  assumes ok: "mach_ok m\<^sub>0" "depth m\<^sub>0 = 0" "lock_free m\<^sub>0 PtableLock" "L \<noteq> PtableLock" "cpu_proc (the_cpu m\<^sub>0) = Some i"
    and c: "\<And>s m T. c (s\<lparr>ptable := T, mach := m\<rparr>) = c s"
  shows "inside m\<^sub>0 {L} (mach s) \<Longrightarrow> i < length (ptable s) \<Longrightarrow> (\<forall>e \<in> set es. env_ok m\<^sub>0 i e) \<Longrightarrow> waited m\<^sub>0 i L ch c W s es"
proof (induction es arbitrary: s)
  case Nil
  note step = while_sleep_unfold [OF strict_sleep, of c "Some ch" "Some L", folded W_def]
  have asleep_c: "c (s\<lparr>mach := m, ptable := T\<rparr>) = c s" for s m T using c [where s = s and T = T and m = m] by (cases s) simp
  show ?case
    by (rule sleep_env_run [OF ok Nil(1,2), of "Some ch"]) (use Nil in \<open>simp add: waited_def step seq_run asleep_c asleep_def\<close>)
next
  case (Cons e es)
  note step = while_sleep_unfold [OF strict_sleep, of c "Some ch" "Some L", folded W_def]
  show ?case
  proof (cases "c s")
    case False
    then show ?thesis using Cons.prems by (auto simp: waited_def step)
  next
    case True
    obtain m s0 where "s0 = s\<lparr>mach := m, ptable := (ptable s)[i := asleep (Some ch) (ptable s ! i)]\<rparr>"
      and b: "sleep (Some ch) (Some L) s [] = Blocked s0"
      and e: "\<And>e. env_ok m\<^sub>0 i e \<Longrightarrow> \<exists>t. (\<forall>es. sleep (Some ch) (Some L) s (e # es) = Ret () t es) \<and>
         t = (e s0)\<lparr>ptable := off_chan i [e] (ptable (e s0)), mach := mach t\<rparr> \<and> inside m\<^sub>0 {L} (mach t) \<and>
         i < length (ptable t) \<and> p_pid (ptable t ! i) = p_pid (ptable s ! i)"
      by (rule sleep_env_run [OF ok Cons.prems(1,2), of "Some ch"]) (rule that)
    have "env_ok m\<^sub>0 i e" using Cons.prems(3) by simp
    from e [OF this] obtain t where t: "\<And>es. sleep (Some ch) (Some L) s (e # es) = Ret () t es"
        "t = (e s0)\<lparr>ptable := off_chan i [e] (ptable (e s0)), mach := mach t\<rparr>" "inside m\<^sub>0 {L} (mach t)"
        "i < length (ptable t)" "p_pid (ptable t ! i) = p_pid (ptable s ! i)"
      by blast
    have "waited m\<^sub>0 i L ch c W t es" using Cons.IH [OF t(3,4)] Cons.prems(3) by simp
    then show ?thesis
      by (rule waited_step [OF _ _ _ c t(2,5)]) (use True b t(1) in \<open>simp_all add: step [of s] seq_run\<close>)
  qed
qed

text \<open>The shape of \<^verbatim>\<open>acquiresleep\<close> and \<^verbatim>\<open>begin_op\<close>: take the lock \<open>L\<close>, wait until the condition \<open>c\<close> is gone, update the state
  by \<open>f\<close> and give the lock back.\<close>

lemma guarded_run:
  fixes s :: "'z proc_state_scheme" and c :: "'z proc_state_scheme \<Rightarrow> bool" and ch L and tail :: "('z proc_state_scheme, unit) kM"
  defines "M \<equiv> seq (acquire L) (seq (while_sleep c (sleep (Some ch) (Some L))) tail)"
  assumes ok: "mach_ok (mach s)" "depth (mach s) = 0" "cpu_proc (the_cpu (mach s)) = Some i" "i < length (ptable s)"
    and l: "lock_free (mach s) PtableLock" "lock_free (mach s) L" "L \<noteq> PtableLock"
    and E: "\<forall>e \<in> set es. env_ok (mach s) i e"
    and c: "\<And>s m T. c (s\<lparr>ptable := T, mach := m\<rparr>) = c s"
    and f: "\<And>s m T. f (s\<lparr>ptable := T, mach := m\<rparr>) = (f s)\<lparr>ptable := T, mach := m\<rparr>"
    and tail: "\<And>t. inside (mach s) {L} (mach t) \<Longrightarrow> i < length (ptable t) \<Longrightarrow> p_pid (ptable t ! i) = p_pid (ptable s ! i) \<Longrightarrow>
      wp tail (\<lambda>_ s'. s' = (f t)\<lparr>mach := mach s'\<rparr> \<and> inside (mach s) {} (mach s')) t"
  shows "case M s es of
       Ret _ s' es' \<Rightarrow> (\<exists>ds s1. es = ds @ es' \<and> handed M s ds s1 \<and> \<not> c s1 \<and>
         s' = (f s1)\<lparr>ptable := off_chan i ds (ptable s1), mach := mach s'\<rparr> \<and> inside (mach s) {} (mach s'))
     | Panic p \<Rightarrow> False
     | Blocked s' \<Rightarrow> c s' \<and> p_state (ptable s' ! i) = SLEEPING \<and> p_chan (ptable s' ! i) = Some ch
     | Spin \<Rightarrow> False"
proof -
  let ?W = "while_sleep c (sleep (Some ch) (Some L))"
  obtain m where m: "inside (mach s) {L} m" "\<And>es. acquire L s es = Ret () (s\<lparr>mach := m\<rparr>) es"
    using acquire_run [OF ok(1) l(2)] inside_acq [OF ok(1) inside_refl [OF ok(1)] l(2)] by auto
  have M: "M s es = seq ?W tail (s\<lparr>mach := m\<rparr>) es" for es by (simp add: M_def seq_run m(2))
  have run: "waited (mach s) i L ch c ?W (s\<lparr>mach := m\<rparr>) es"
    by (rule while_sleep_run [OF ok(1,2) l(1,3) ok(3) c]) (use m(1) ok(4) E in simp_all)
  show ?thesis
  proof (cases "?W (s\<lparr>mach := m\<rparr>) es")
    case (Ret a t es')
    with run obtain ds s1 where *: "es = ds @ es'" "handed ?W (s\<lparr>mach := m\<rparr>) ds s1" "\<not> c s1"
        "t = s1\<lparr>ptable := off_chan i ds (ptable s1), mach := mach t\<rparr>" "inside (mach s) {L} (mach t)"
        "i < length (ptable t)" "p_pid (ptable t ! i) = p_pid (ptable s ! i)"
      by (auto simp: waited_def)
    obtain s' where s': "tail t es' = Ret () s' es'" "s' = (f t)\<lparr>mach := mach s'\<rparr>" "inside (mach s) {} (mach s')"
      using wpD [OF tail [OF *(5-7)], of es'] by auto
    have ft: "s' = (f s1)\<lparr>ptable := off_chan i ds (ptable s1), mach := mach s'\<rparr>"
      using s'(2) f [where s = s1 and m = "mach t" and T = "off_chan i ds (ptable s1)"] *(4) by simp
    have "\<exists>s2. handed M s ds s2 \<and> \<not> c s2 \<and> s' = (f s2)\<lparr>ptable := off_chan i ds (ptable s2), mach := mach s'\<rparr>"
    proof (cases "ds = []")
      case True
      then have s1: "s1 = s\<lparr>ptable := ptable s, mach := m\<rparr>" using *(2) by simp
      have "\<not> c s" using *(3) c [where s = s and m = m and T = "ptable s"] s1 by simp
      moreover have "f s1 = (f s)\<lparr>ptable := ptable s, mach := m\<rparr>" unfolding s1 by (rule f)
      ultimately show ?thesis using True ft s1 by (intro exI [of _ s]) simp
    next
      case False
      then show ?thesis
        using * ft handed_around [where a = "acquire L" and s = s and n = tail, OF False *(2) m(2)] unfolding M_def by (intro exI [of _ s1]) simp
    qed
    then show ?thesis using Ret * s'(1,3) by (auto simp: M seq_run)
  qed (use run in \<open>simp_all add: waited_def M seq_run\<close>)
qed

text \<open>C18: A sleep lock is given only to a process that finds it free, under every schedule of well-behaved steps:
  \<^verbatim>\<open>acquiresleep\<close> neither panics nor spins.  When it returns, with the steps \<open>ds\<close> used up, the lock was free in the state \<open>s1\<close>
  in which it was last given the processor, and what it returns in is \<open>s1\<close> with the lock marked as taken by the caller (and the caller off the
  channel).  As long as it has not returned, the lock is taken and the process sleeps on the channel \<^verbatim>\<open>releasesleep\<close> wakes.\<close>

theorem acquiresleep_exclusive:
  assumes ok: "mach_ok (mach s)" "depth (mach s) = 0" "cpu_proc (the_cpu (mach s)) = Some i" "i < length (ptable s)"
    and l: "lock_free (mach s) PtableLock" "lock_free (mach s) (SleepLk l)"
    and E: "\<forall>e \<in> set es. env_ok (mach s) i e"
  shows "case acquiresleep l s es of
       Ret _ s' es' \<Rightarrow> (\<exists>ds s1. es = ds @ es' \<and> handed (acquiresleep l) s ds s1 \<and> \<not> sl_locked (sleeplocks s1 l) \<and>
         s' = s1\<lparr>sleeplocks := (sleeplocks s1)(l := owned (p_pid (ptable s ! i)) (sleeplocks s1 l)),
           ptable := off_chan i ds (ptable s1), mach := mach s'\<rparr> \<and> inside (mach s) {} (mach s'))
     | Panic p \<Rightarrow> False
     | Blocked s' \<Rightarrow> sl_locked (sleeplocks s' l) \<and> p_state (ptable s' ! i) = SLEEPING \<and> p_chan (ptable s' ! i) = Some (ChSleep l)
     | Spin \<Rightarrow> False"
  unfolding acquiresleep_def
proof (rule guarded_run [OF ok l _ E, where f = "\<lambda>t. t\<lparr>sleeplocks := (sleeplocks t)(l := owned (p_pid (ptable s ! i)) (sleeplocks t l))\<rparr>"])
  fix t :: "'a sleep_state_scheme"
  assume t: "inside (mach s) {SleepLk l} (mach t)" "i < length (ptable t)" "p_pid (ptable t ! i) = p_pid (ptable s ! i)"
  show "wp (seq (upd_sl l (sl_locked_update (\<lambda>_. True))) (bnd mypid (\<lambda>pid. seq (upd_sl l (sl_pid_update (\<lambda>_. pid))) (release (SleepLk l)))))
      (\<lambda>_ s'. s' = t\<lparr>sleeplocks := (sleeplocks t)(l := owned (p_pid (ptable s ! i)) (sleeplocks t l)), mach := mach s'\<rparr> \<and>
         inside (mach s) {} (mach s')) t"
    by (rule wp_acquiresleep_tail [OF ok(1) _ _ ok(3), of _ "{}"]) (use t in simp_all)
qed simp_all

text \<open>A step of the environment that does not touch the processor or the process table is well behaved.\<close>

lemma env_ok_quiet:
  assumes ok: "mach_ok m\<^sub>0" "depth m\<^sub>0 = 0" and e: "\<And>s. mach (e s) = mach s" "\<And>s. ptable (e s) = ptable s"
  shows "env_ok m\<^sub>0 i e"
proof -
  have "resume (IF m\<^sub>0) m = m" if w: "inside m\<^sub>0 {PtableLock} m" for m
  proof -
    have m: "mach_ok m" "intena (the_cpu m) = IF m\<^sub>0" using w ok inside_ok [OF ok(1) w] by (simp_all add: inside_def)
    obtain c where c: "this_cpu m = Some c" using m(1) by (auto simp: mach_ok_def)
    have cpu: "(the_cpu m)\<lparr>intena := IF m\<^sub>0\<rparr> = the_cpu m" using m(2) by (cases "the_cpu m") simp
    show ?thesis
      using cpu c by (simp add: resume_def on_cpu_def the_cpu_def list_update_id)
  qed
  then show ?thesis using inside_ok [OF ok(1)] e by (auto simp: env_ok_def)
qed

definition witness_sleep :: sleep_state where
  "witness_sleep = proc_state.extend witness_procs
     \<lparr>sleeplocks = (\<lambda>_. \<lparr>sl_locked = True, sl_name = ''buffer'', sl_pid = 9\<rparr>)\<rparr>"

lemma witness_sleep_simps [simp]:
  "mach witness_sleep = boot_machine" "ptable witness_sleep = ptable witness_procs"
  by (simp_all add: witness_sleep_def proc_state.defs witness_procs_def)

lemma witness_procs_slot [simp]: "0 < length (ptable witness_procs)" "p_pid (ptable witness_procs ! 0) = 1" "length (ptable witness_procs) = NPROC"
  by (simp_all add: witness_procs_def)

text \<open>The lock is held by process 9, which frees it while the caller sleeps.\<close>

theorem acquiresleep_exclusive_witness:
  "case acquiresleep (BufLock 3) witness_sleep [\<lambda>s. s\<lparr>sleeplocks := \<lambda>l. free_sl (sleeplocks s l)\<rparr>] of
     Ret a s' es' \<Rightarrow> sl_locked (sleeplocks s' (BufLock 3)) \<and> sl_pid (sleeplocks s' (BufLock 3)) = 1
   | Panic p \<Rightarrow> False | Blocked s' \<Rightarrow> sl_locked (sleeplocks s' (BufLock 3)) | Spin \<Rightarrow> False"
proof -
  let ?e = "\<lambda>s :: sleep_state. s\<lparr>sleeplocks := \<lambda>l. free_sl (sleeplocks s l)\<rparr>"
  have e: "env_ok (mach witness_sleep) 0 ?e" by (rule env_ok_quiet) simp_all
  have upd: "sl_locked (sleeplocks t (BufLock 3)) \<and> sl_pid (sleeplocks t (BufLock 3)) = 1"
    if "t = s1\<lparr>sleeplocks := (sleeplocks s1)(BufLock 3 := owned 1 (sleeplocks s1 (BufLock 3))), ptable := T, mach := mach t\<rparr>"
    for s1 t :: sleep_state and T
    using arg_cong [where f = sleeplocks, OF that] by (simp add: owned_def)
  note a = acquiresleep_exclusive [of witness_sleep 0 "BufLock 3" "[?e]"]
  show ?thesis
    using a e by (cases "acquiresleep (BufLock 3) witness_sleep [?e]") (auto dest: upd)
qed

end
