(* ===== verification/Block.thy ===== *)
theory Block
  imports Mem_String
begin

text \<open>
  Disk blocks as lists of bytes, and the little-endian halfwords and words the on-disk
  structures (\<^verbatim>\<open>fs.h\<close>, \<^verbatim>\<open>struct logheader\<close>) keep in them.
\<close>

type_synonym block = "u8 list"

abbreviation "BSIZE \<equiv> 512 :: nat"

definition put_bytes :: "block \<Rightarrow> nat \<Rightarrow> u8 list \<Rightarrow> block" where
  "put_bytes d off xs = take off d @ xs @ drop (off + length xs) d"

definition get_bytes :: "block \<Rightarrow> nat \<Rightarrow> nat \<Rightarrow> u8 list" where
  "get_bytes d off n = take n (drop off d)"

definition get16 :: "block \<Rightarrow> nat \<Rightarrow> u16" where
  "get16 d i = ucast (d ! i) OR push_bit 8 (ucast (d ! (i + 1)))"

definition get32 :: "block \<Rightarrow> nat \<Rightarrow> u32" where
  "get32 d i = ucast (d ! i) OR push_bit 8 (ucast (d ! (i + 1)))
     OR push_bit 16 (ucast (d ! (i + 2))) OR push_bit 24 (ucast (d ! (i + 3)))"

definition bytes16 :: "u16 \<Rightarrow> u8 list" where
  "bytes16 v = [ucast v, ucast (drop_bit 8 v)]"

definition bytes32 :: "u32 \<Rightarrow> u8 list" where
  "bytes32 v = [ucast v, ucast (drop_bit 8 v), ucast (drop_bit 16 v), ucast (drop_bit 24 v)]"

abbreviation put16 :: "block \<Rightarrow> nat \<Rightarrow> u16 \<Rightarrow> block" where
  "put16 d i v \<equiv> put_bytes d i (bytes16 v)"

abbreviation put32 :: "block \<Rightarrow> nat \<Rightarrow> u32 \<Rightarrow> block" where
  "put32 d i v \<equiv> put_bytes d i (bytes32 v)"

section \<open>Laws\<close>

lemma length_bytes [simp]: "length (bytes16 v) = 2" "length (bytes32 w) = 4"
  by (simp_all add: bytes16_def bytes32_def)

lemma length_put_bytes [simp]: "off + length xs \<le> length d \<Longrightarrow> length (put_bytes d off xs) = length d"
  by (simp add: put_bytes_def)

lemma nth_put_bytes:
  assumes "off + length xs \<le> length d" "j < length d"
  shows "put_bytes d off xs ! j = (if off \<le> j \<and> j < off + length xs then xs ! (j - off) else d ! j)"
  using assms by (auto simp: put_bytes_def nth_append)

lemma get_bytes_put_bytes_same: "off + length xs \<le> length d \<Longrightarrow> get_bytes (put_bytes d off xs) off (length xs) = xs"
  by (simp add: get_bytes_def put_bytes_def)

lemma get_bytes_put_bytes_other:
  assumes "off + length xs \<le> length d" "p + n \<le> off \<or> off + length xs \<le> p" "p + n \<le> length d"
  shows "get_bytes (put_bytes d off xs) p n = get_bytes d p n"
  using assms by (intro nth_equalityI) (auto simp: get_bytes_def nth_put_bytes)

lemma word_of_bytes32:
  "ucast (ucast v :: u8) OR push_bit 8 (ucast (ucast (drop_bit 8 v) :: u8))
     OR push_bit 16 (ucast (ucast (drop_bit 16 v) :: u8)) OR push_bit 24 (ucast (ucast (drop_bit 24 v) :: u8)) = (v :: u32)"
proof (rule bit_word_eqI)
  fix n assume "n < LENGTH(32)"
  then have "n < 8 \<or> 8 \<le> n \<and> n < 16 \<or> 16 \<le> n \<and> n < 24 \<or> 24 \<le> n \<and> n < 32" by auto
  then show "bit (ucast (ucast v :: u8) OR push_bit 8 (ucast (ucast (drop_bit 8 v) :: u8))
     OR push_bit 16 (ucast (ucast (drop_bit 16 v) :: u8)) OR push_bit 24 (ucast (ucast (drop_bit 24 v) :: u8)) :: u32) n = bit v n"
    by (auto simp: bit_simps)
qed

lemma word_of_bytes16: "ucast (ucast v :: u8) OR push_bit 8 (ucast (ucast (drop_bit 8 v) :: u8)) = (v :: u16)"
proof (rule bit_word_eqI)
  fix n assume "n < LENGTH(16)"
  then have "n < 8 \<or> 8 \<le> n \<and> n < 16" by auto
  then show "bit (ucast (ucast v :: u8) OR push_bit 8 (ucast (ucast (drop_bit 8 v) :: u8)) :: u16) n = bit v n"
    by (auto simp: bit_simps)
qed

lemma get32_put32_same: "i + 4 \<le> length d \<Longrightarrow> get32 (put32 d i v) i = v"
  by (simp add: get32_def nth_put_bytes) (simp add: bytes32_def word_of_bytes32)

lemma get32_put_other: "i + length xs \<le> length d \<Longrightarrow> j + 4 \<le> i \<or> i + length xs \<le> j \<Longrightarrow> j + 4 \<le> length d \<Longrightarrow>
    get32 (put_bytes d i xs) j = get32 d j"
  by (auto simp: get32_def nth_put_bytes)

lemma get16_put16_same: "i + 2 \<le> length d \<Longrightarrow> get16 (put16 d i v) i = v"
  by (simp add: get16_def nth_put_bytes) (simp add: bytes16_def word_of_bytes16)

lemma get16_put_other: "i + length xs \<le> length d \<Longrightarrow> j + 2 \<le> i \<or> i + length xs \<le> j \<Longrightarrow> j + 2 \<le> length d \<Longrightarrow>
    get16 (put_bytes d i xs) j = get16 d j"
  by (auto simp: get16_def nth_put_bytes)

end
