(* ===== verification/Bio.thy ===== *)
theory Bio
  imports Sleeplock Block
begin

text \<open>
  The buffer cache (\<^verbatim>\<open>bio.c\<close>) over the memory disk (\<^verbatim>\<open>memide.c\<close>).

  A \<^verbatim>\<open>struct buf *\<close> is an index into \<open>bufs\<close>; index \<open>NBUF\<close> is \<^verbatim>\<open>bcache.head\<close>.  The recency list is kept
  in the \<^verbatim>\<open>prev\<close>/\<^verbatim>\<open>next\<close> fields, as in the code.  \<open>disk_hist\<close> holds the contents the disk had
  before each write, newest first: what a power failure could leave behind.
\<close>

section \<open>State\<close>

record buf =
  b_flags :: u32
  b_dev :: u32
  b_blockno :: u32
  b_refcnt :: u32
  b_prev :: nat
  b_next :: nat
  b_data :: block

abbreviation "B_VALID \<equiv> 2 :: u32"
abbreviation "B_DIRTY \<equiv> 4 :: u32"
abbreviation "HEAD \<equiv> NBUF"

record bio_state = sleep_state +
  bufs :: "buf list"
  disk :: "u32 \<Rightarrow> block"
  disksize :: u32
  disk_hist :: "(u32 \<Rightarrow> block) list"

definition get_buf :: "nat \<Rightarrow> ('z bio_state_scheme, buf) kM" where
  "get_buf b = get (\<lambda>s. bufs s ! b)"

definition upd_buf :: "nat \<Rightarrow> (buf \<Rightarrow> buf) \<Rightarrow> ('z bio_state_scheme, unit) kM" where
  "upd_buf b f = upd (\<lambda>s. s\<lparr>bufs := (bufs s)[b := f (bufs s ! b)]\<rparr>)"

text \<open>\<^verbatim>\<open>memmove\<close> between a buffer and its place on the memory disk.\<close>

definition disk_write :: "u32 \<Rightarrow> block \<Rightarrow> ('z bio_state_scheme, unit) kM" where
  "disk_write n d = upd (\<lambda>s. s\<lparr>disk := (disk s)(n := d), disk_hist := disk s # disk_hist s\<rparr>)"

section \<open>The memory disk\<close>

definition iderw :: "nat \<Rightarrow> ('z bio_state_scheme, unit) kM" where
  "iderw b =
     bnd (holdingsleep (BufLock b)) (\<lambda>h.
     if \<not> h then panic ''iderw: buf not locked''
     else
       bnd (get_buf b) (\<lambda>x.
       if b_flags x AND (B_VALID OR B_DIRTY) = B_VALID then panic ''iderw: nothing to do''
       else if b_dev x \<noteq> 1 then panic ''iderw: request not for disk 1''
       else
         bnd (get disksize) (\<lambda>n.
         if b_blockno x \<ge> n then panic ''iderw: block out of range''
         else
           seq (if b_flags x AND B_DIRTY \<noteq> 0 then
                  seq (upd_buf b (\<lambda>x. x\<lparr>b_flags := b_flags x AND NOT B_DIRTY\<rparr>))
                      (disk_write (b_blockno x) (b_data x))
                else
                  bnd (get (\<lambda>s. disk s (b_blockno x))) (\<lambda>d. upd_buf b (\<lambda>x. x\<lparr>b_data := d\<rparr>)))
               (upd_buf b (\<lambda>x. x\<lparr>b_flags := b_flags x OR B_VALID\<rparr>)))))"

section \<open>The buffer cache\<close>

definition link_front :: "nat \<Rightarrow> ('z bio_state_scheme, unit) kM" where
  "link_front b =
     bnd (get_buf HEAD) (\<lambda>h.
     seq (upd_buf b (\<lambda>x. x\<lparr>b_next := b_next h\<rparr>)) (
     seq (upd_buf b (\<lambda>x. x\<lparr>b_prev := HEAD\<rparr>)) (
     bnd (get_buf HEAD) (\<lambda>h.
     seq (upd_buf (b_next h) (\<lambda>x. x\<lparr>b_prev := b\<rparr>))
         (upd_buf HEAD (\<lambda>x. x\<lparr>b_next := b\<rparr>))))))"

definition binit :: "('z bio_state_scheme, unit) kM" where
  "binit =
     seq (initlock BcacheLock ''bcache'') (
     seq (upd_buf HEAD (\<lambda>x. x\<lparr>b_prev := HEAD\<rparr>)) (
     seq (upd_buf HEAD (\<lambda>x. x\<lparr>b_next := HEAD\<rparr>)) (
     forM [0..<NBUF] (\<lambda>b.
       bnd (get_buf HEAD) (\<lambda>h.
       seq (upd_buf b (\<lambda>x. x\<lparr>b_next := b_next h\<rparr>)) (
       seq (upd_buf b (\<lambda>x. x\<lparr>b_prev := HEAD\<rparr>)) (
       seq (initsleeplock (BufLock b) ''buffer'') (
       bnd (get_buf HEAD) (\<lambda>h.
       seq (upd_buf (b_next h) (\<lambda>x. x\<lparr>b_prev := b\<rparr>))
           (upd_buf HEAD (\<lambda>x. x\<lparr>b_next := b\<rparr>)))))))))))"

text \<open>A walk along the list from \<open>i\<close> to the head for the first buffer with property \<open>P\<close>; the list has at
  most \<open>NBUF\<close> nodes, so a walk of more steps than that never ends.\<close>

primrec scan :: "nat \<Rightarrow> (buf \<Rightarrow> nat) \<Rightarrow> (buf \<Rightarrow> bool) \<Rightarrow> buf list \<Rightarrow> nat \<Rightarrow> nat option option" where
  "scan 0 link P bs i = None"
| "scan (Suc n) link P bs i =
     (if i = HEAD then Some None
      else if P (bs ! i) then Some (Some i)
      else scan n link P bs (link (bs ! i)))"

definition scan_bufs :: "(buf \<Rightarrow> nat) \<Rightarrow> (buf \<Rightarrow> bool) \<Rightarrow> ('z bio_state_scheme, nat option) kM" where
  "scan_bufs link P =
     bnd (get (\<lambda>s. scan (Suc NBUF) link P (bufs s) (link (bufs s ! HEAD)))) (\<lambda>r.
     case r of None \<Rightarrow> spin | Some x \<Rightarrow> ret x)"

definition bget :: "u32 \<Rightarrow> u32 \<Rightarrow> ('z bio_state_scheme, nat) kM" where
  "bget dev blockno =
     seq (acquire BcacheLock) (
     bnd (scan_bufs b_next (\<lambda>x. b_dev x = dev \<and> b_blockno x = blockno)) (\<lambda>r.
     case r of
       Some b \<Rightarrow>
         seq (upd_buf b (\<lambda>x. x\<lparr>b_refcnt := b_refcnt x + 1\<rparr>)) (
         seq (release BcacheLock) (
         seq (acquiresleep (BufLock b)) (
         ret b)))
     | None \<Rightarrow>
         bnd (scan_bufs b_prev (\<lambda>x. b_refcnt x = 0 \<and> b_flags x AND B_DIRTY = 0)) (\<lambda>r.
         case r of
           Some b \<Rightarrow>
             seq (upd_buf b (\<lambda>x. x\<lparr>b_dev := dev, b_blockno := blockno, b_flags := 0, b_refcnt := 1\<rparr>)) (
             seq (release BcacheLock) (
             seq (acquiresleep (BufLock b)) (
             ret b)))
         | None \<Rightarrow> panic ''bget: no buffers'')))"

definition bread :: "u32 \<Rightarrow> u32 \<Rightarrow> ('z bio_state_scheme, nat) kM" where
  "bread dev blockno =
     bnd (bget dev blockno) (\<lambda>b.
     bnd (get_buf b) (\<lambda>x.
     seq (whenM (b_flags x AND B_VALID = 0) (iderw b)) (
     ret b)))"

definition bwrite :: "nat \<Rightarrow> ('z bio_state_scheme, unit) kM" where
  "bwrite b =
     bnd (holdingsleep (BufLock b)) (\<lambda>h.
     if \<not> h then panic ''bwrite''
     else
       seq (upd_buf b (\<lambda>x. x\<lparr>b_flags := b_flags x OR B_DIRTY\<rparr>)) (
       iderw b))"

definition unlink_buf :: "nat \<Rightarrow> ('z bio_state_scheme, unit) kM" where
  "unlink_buf b =
     bnd (get_buf b) (\<lambda>x.
     seq (upd_buf (b_next x) (\<lambda>y. y\<lparr>b_prev := b_prev x\<rparr>)) (
     bnd (get_buf b) (\<lambda>x.
     upd_buf (b_prev x) (\<lambda>y. y\<lparr>b_next := b_next x\<rparr>))))"

definition brelse :: "nat \<Rightarrow> ('z bio_state_scheme, unit) kM" where
  "brelse b =
     bnd (holdingsleep (BufLock b)) (\<lambda>h.
     if \<not> h then panic ''brelse''
     else
       seq (releasesleep (BufLock b)) (
       seq (acquire BcacheLock) (
       seq (upd_buf b (\<lambda>x. x\<lparr>b_refcnt := b_refcnt x - 1\<rparr>)) (
       bnd (get_buf b) (\<lambda>x.
       seq (whenM (b_refcnt x = 0) (seq (unlink_buf b) (link_front b))) (
       release BcacheLock))))))"

section \<open>The recency list\<close>

text \<open>\<open>chase f zs\<close>: following the pointers \<open>f\<close> from the first element of \<open>zs\<close> one meets its elements in order.\<close>

fun chase :: "(nat \<Rightarrow> nat) \<Rightarrow> nat list \<Rightarrow> bool" where
  "chase f (x # y # zs) \<longleftrightarrow> f x = y \<and> chase f (y # zs)"
| "chase f zs \<longleftrightarrow> True"

lemma chase_cong: "(\<And>x. x \<in> set (butlast zs) \<Longrightarrow> f x = g x) \<Longrightarrow> chase f zs = chase g zs"
  by (induction f zs rule: chase.induct) auto

lemma chase_append: "chase f (xs @ y # ys) \<longleftrightarrow> chase f (xs @ [y]) \<and> chase f (y # ys)"
proof (induction xs)
  case (Cons x xs)
  then show ?case by (cases xs) auto
qed (cases ys, auto)

lemma chase_remove:
  assumes "chase f (xs @ p # b # n # ys)" "p \<notin> set xs" "p \<notin> set (butlast (n # ys))"
  shows "chase (f(p := n)) (xs @ p # n # ys)"
proof -
  have "chase f (xs @ [p])" "chase f (n # ys)"
    using assms(1) chase_append [of f xs p "b # n # ys"] by simp_all
  moreover have "chase (f(p := n)) (xs @ [p]) = chase f (xs @ [p])" "chase (f(p := n)) (n # ys) = chase f (n # ys)"
    by (rule chase_cong; use assms(2,3) in \<open>auto split: if_splits\<close>)+
  ultimately show ?thesis using chase_append [of "f(p := n)" xs p "n # ys"] by simp
qed

lemma chase_front:
  assumes "chase f (h # zs @ [h])" "b \<notin> set zs" "b \<noteq> h" "h \<notin> set zs"
  shows "chase (f(b := f h, h := b)) (h # b # zs @ [h])"
proof (cases zs)
  case Nil
  then show ?thesis using assms by simp
next
  case (Cons z zs')
  have "chase (f(b := f h, h := b)) (z # zs' @ [h]) = chase f (z # zs' @ [h])"
    by (rule chase_cong) (use assms Cons in \<open>auto simp: butlast_append\<close>)
  then show ?thesis using assms Cons by simp
qed

lemma chase_back:
  assumes "chase f (h # zs @ [h])" "b \<notin> set zs" "b \<noteq> h" "h \<notin> set zs" "distinct zs"
  shows "chase (f(b := h, last (h # zs) := b)) (h # zs @ [b, h])"
proof -
  obtain ys l where l: "h # zs = ys @ [l]" "l = last (h # zs)"
    by (metis append_butlast_last_id list.distinct(1))
  let ?f = "f(b := h, l := b)"
  have "l \<notin> set ys" using l(1) assms(4,5) by (metis distinct.simps(2) distinct_append not_distinct_conv_prefix)
  moreover have "b \<notin> set ys" "b \<noteq> l" using l(1) assms(2,3) by (metis in_set_conv_decomp set_ConsD Un_iff set_append)+
  moreover have eq: "h # zs @ [h] = ys @ l # [h]" using l(1) by (metis append_Cons append_assoc append_Nil)
  moreover have "chase f (ys @ [l])" using assms(1) chase_append [of f ys l "[h]"] unfolding eq by blast
  moreover have "chase ?f (ys @ [l]) = chase f (ys @ [l])"
    by (rule chase_cong) (use calculation in auto)
  ultimately have "chase ?f (ys @ l # [b, h])" using chase_append [of ?f ys l "[b, h]"] by simp
  moreover have "h # zs @ [b, h] = ys @ l # [b, h]" using l(1) by (metis append_Cons append_assoc append_Nil)
  ultimately show ?thesis unfolding l(2) [symmetric] by (simp only:)
qed

lemma chase_hd: "chase f (h # zs @ [h]) \<Longrightarrow> f h = hd (zs @ [h]) \<and> chase f (zs @ [h])"
  by (cases zs) auto

lemma chase_out:
  assumes "chase f (h # xs @ b # ys @ [h])" "distinct (h # xs @ b # ys)"
  shows "f b = hd (ys @ [h])" "chase (f(last (h # xs) := f b)) (h # xs @ ys @ [h])"
proof -
  obtain A p where A: "h # xs = A @ [p]" "p = last (h # xs)"
    by (metis append_butlast_last_id list.distinct(1))
  obtain n B where n: "ys @ [h] = n # B" by (cases ys) auto
  have eq: "h # xs @ b # ys @ [h] = A @ p # b # n # B" "h # xs @ ys @ [h] = A @ p # n # B"
    using A(1) n by (metis append_Cons append_assoc append_Nil)+
  have "chase f (p # b # n # B)" using assms(1) chase_append [of f A p "b # n # B"] unfolding eq by blast
  then show f: "f b = hd (ys @ [h])" using n by simp
  have "distinct (A @ [p])" using assms(2) A(1) by (metis distinct_append append_Cons)
  then have "p \<notin> set A" by simp
  moreover have "butlast (n # B) = ys" using n by (metis butlast_snoc)
  moreover have "p \<notin> set ys" using assms(2) A(1) by (metis Un_iff distinct_append append_Cons disjoint_iff in_set_conv_decomp list.set_intros(2))
  ultimately have "chase (f(p := n)) (A @ p # n # B)"
    using assms(1) chase_remove [of f A p b n B] unfolding eq by simp
  moreover have "f b = n" using f n by simp
  ultimately show "chase (f(last (h # xs) := f b)) (h # xs @ ys @ [h])"
    unfolding eq A(2) [symmetric] by simp
qed

text \<open>Two-way lists through \<open>h\<close>: the pointers \<open>g\<close> run against the pointers \<open>f\<close>.\<close>

definition two_way :: "nat \<Rightarrow> (nat \<Rightarrow> nat) \<Rightarrow> (nat \<Rightarrow> nat) \<Rightarrow> nat list \<Rightarrow> bool" where
  "two_way h f g l \<longleftrightarrow> distinct (h # l) \<and> chase f (h # l @ [h]) \<and> chase g (h # rev l @ [h])"

lemma two_way_remove:
  assumes "two_way h f g (xs @ b # ys)"
  shows "two_way h (f(g b := f b)) (g(f b := g b)) (xs @ ys)" "f b = hd (ys @ [h])" "g b = last (h # xs)"
proof -
  have d: "distinct (h # xs @ b # ys)" "distinct (h # rev ys @ b # rev xs)" using assms by (auto simp: two_way_def)
  have p: "chase f (h # xs @ b # ys @ [h])" "chase g (h # rev ys @ b # rev xs @ [h])" using assms by (simp_all add: two_way_def)
  show fb: "f b = hd (ys @ [h])" by (rule chase_out(1) [OF p(1) d(1)])
  have "g b = hd (rev xs @ [h])" by (rule chase_out(1) [OF p(2) d(2)])
  also have "hd (rev xs @ [h]) = last (h # xs)" by (metis hd_rev rev.simps(2))
  finally show gb: "g b = last (h # xs)" .
  have "last (h # rev ys) = hd (ys @ [h])" by (metis last_rev rev_append rev.simps(2) rev_rev_ident append_Nil rev.simps(1) append_Cons)
  then show "two_way h (f(g b := f b)) (g(f b := g b)) (xs @ ys)"
    using chase_out(2) [OF p(1) d(1)] chase_out(2) [OF p(2) d(2)] d(1) unfolding two_way_def fb [symmetric] gb [symmetric]
    by (simp add: fb [symmetric])
qed

lemma two_way_front:
  assumes "two_way h f g l" "b \<notin> set (h # l)"
  shows "two_way h (f(b := f h, h := b)) (g(b := h, f h := b)) (b # l)" "f h = hd (l @ [h])"
proof -
  have d: "distinct (h # l)" "chase f (h # l @ [h])" "chase g (h # rev l @ [h])" using assms(1) by (simp_all add: two_way_def)
  show fh: "f h = hd (l @ [h])" using chase_hd [OF d(2)] by simp
  have last: "last (h # rev l) = f h" unfolding fh by (metis last_rev rev_append rev.simps(2) rev_rev_ident append_Nil rev.simps(1) append_Cons)
  have "chase (f(b := f h, h := b)) (h # b # l @ [h])" using chase_front [OF d(2)] assms(2) d(1) by auto
  moreover have "chase (g(b := h, f h := b)) (h # rev l @ [b, h])"
    using chase_back [OF d(3)] assms(2) d(1) unfolding last by auto
  ultimately show "two_way h (f(b := f h, h := b)) (g(b := h, f h := b)) (b # l)"
    using d(1) assms(2) by (simp add: two_way_def)
qed

text \<open>\<open>lru bs l\<close>: the list the \<^verbatim>\<open>next\<close> fields form is \<open>l\<close>, the one the \<^verbatim>\<open>prev\<close> fields form is its reversal.\<close>

definition lru :: "buf list \<Rightarrow> nat list \<Rightarrow> bool" where
  "lru bs l \<longleftrightarrow> length bs = Suc NBUF \<and> set l = {0..<NBUF} \<and> two_way HEAD (\<lambda>i. b_next (bs ! i)) (\<lambda>i. b_prev (bs ! i)) l"

text \<open>What the cache knows of a buffer apart from its place in the list.\<close>

definition core :: "buf \<Rightarrow> buf" where
  "core x = x\<lparr>b_prev := 0, b_next := 0\<rparr>"

lemma core_eq: "core x = core y \<longleftrightarrow> b_flags x = b_flags y \<and> b_dev x = b_dev y \<and> b_blockno x = b_blockno y \<and>
    b_refcnt x = b_refcnt y \<and> b_data x = b_data y"
  by (cases x, cases y) (auto simp: core_def)

text \<open>A walk along either list finds the first buffer in its direction.\<close>

lemma scan_chase:
  "chase (\<lambda>i. link (bs ! i)) (xs @ [HEAD]) \<Longrightarrow> HEAD \<notin> set xs \<Longrightarrow> length xs < n \<Longrightarrow>
     scan n link P bs (hd (xs @ [HEAD])) = Some (find (\<lambda>i. P (bs ! i)) xs)"
proof (induction xs arbitrary: n)
  case Nil
  then show ?case by (cases n) auto
next
  case (Cons x xs)
  then obtain k where n: "n = Suc k" by (cases n) auto
  have "link (bs ! x) = hd (xs @ [HEAD])" using Cons.prems(1) by (cases xs) auto
  moreover have "chase (\<lambda>i. link (bs ! i)) (xs @ [HEAD])" using Cons.prems(1) by (cases xs) auto
  ultimately show ?case using Cons n by auto
qed

lemma scan_bufs_run:
  assumes "lru (bufs s) l"
  shows "scan_bufs b_next P s es = Ret (find (\<lambda>i. P (bufs s ! i)) l) s es"
    "scan_bufs b_prev P s es = Ret (find (\<lambda>i. P (bufs s ! i)) (rev l)) s es"
proof -
  have "length l = NBUF" using assms distinct_card [of l] by (simp add: lru_def two_way_def)
  moreover have "HEAD \<notin> set l" using assms by (simp add: lru_def)
  ultimately show "scan_bufs b_next P s es = Ret (find (\<lambda>i. P (bufs s ! i)) l) s es"
    "scan_bufs b_prev P s es = Ret (find (\<lambda>i. P (bufs s ! i)) (rev l)) s es"
    using assms chase_hd [of "\<lambda>i. b_next (bufs s ! i)" HEAD l] chase_hd [of "\<lambda>i. b_prev (bufs s ! i)" HEAD "rev l"]
      scan_chase [of b_next "bufs s" l "Suc NBUF" P] scan_chase [of b_prev "bufs s" "rev l" "Suc NBUF" P]
    by (simp_all add: scan_bufs_def lru_def two_way_def bnd_run get_run del: scan.simps)
qed

text \<open>Releasing a buffer moves it to the front of the list.\<close>

definition unlinked :: "nat \<Rightarrow> buf list \<Rightarrow> buf list" where
  "unlinked b bs = (let n = b_next (bs ! b); p = b_prev (bs ! b); bs = bs[n := (bs ! n)\<lparr>b_prev := p\<rparr>] in bs[p := (bs ! p)\<lparr>b_next := n\<rparr>])"

definition fronted :: "nat \<Rightarrow> buf list \<Rightarrow> buf list" where
  "fronted b bs = (let h = b_next (bs ! HEAD); bs = bs[b := (bs ! b)\<lparr>b_next := h, b_prev := HEAD\<rparr>];
     bs = bs[h := (bs ! h)\<lparr>b_prev := b\<rparr>] in bs[HEAD := (bs ! HEAD)\<lparr>b_next := b\<rparr>])"

lemma unlinked_fields:
  assumes "b_next (bs ! b) < length bs" "b_prev (bs ! b) < length bs"
  shows "(\<lambda>i. b_next (unlinked b bs ! i)) = (\<lambda>i. b_next (bs ! i))(b_prev (bs ! b) := b_next (bs ! b))"
    "(\<lambda>i. b_prev (unlinked b bs ! i)) = (\<lambda>i. b_prev (bs ! i))(b_next (bs ! b) := b_prev (bs ! b))"
    "core (unlinked b bs ! i) = core (bs ! i)" "length (unlinked b bs) = length bs"
  using assms by (auto simp: unlinked_def Let_def fun_eq_iff nth_list_update core_def)

lemma fronted_fields:
  assumes "b < NBUF" "b_next (bs ! HEAD) < length bs" "length bs = Suc NBUF"
  shows "(\<lambda>i. b_next (fronted b bs ! i)) = (\<lambda>i. b_next (bs ! i))(b := b_next (bs ! HEAD), HEAD := b)"
    "(\<lambda>i. b_prev (fronted b bs ! i)) = (\<lambda>i. b_prev (bs ! i))(b := HEAD, b_next (bs ! HEAD) := b)"
    "core (fronted b bs ! i) = core (bs ! i)" "length (fronted b bs) = length bs"
  using assms by (auto simp: fronted_def Let_def fun_eq_iff nth_list_update core_def)

lemma lru_bounds:
  assumes "lru bs l" "l = xs @ b # ys"
  shows "b_next (bs ! b) < length bs" "b_prev (bs ! b) < length bs" "b_next (bs ! b) \<noteq> b" "b_prev (bs ! b) \<noteq> b" "b < NBUF"
proof -
  have w: "two_way HEAD (\<lambda>i. b_next (bs ! i)) (\<lambda>i. b_prev (bs ! i)) (xs @ b # ys)" "set l = {0..<NBUF}" "length bs = Suc NBUF"
    using assms by (simp_all add: lru_def)
  have n: "b_next (bs ! b) \<in> set (ys @ [HEAD])" unfolding two_way_remove(2) [OF w(1)] by (cases ys) auto
  have p: "b_prev (bs ! b) \<in> set (HEAD # xs)" unfolding two_way_remove(3) [OF w(1)] by (rule last_in_set) simp
  have sub: "set xs \<union> {b} \<union> set ys = {0..<NBUF}" using w(2) assms(2) by auto
  then have "set ys \<subseteq> {0..<NBUF}" "set xs \<subseteq> {0..<NBUF}" by blast+
  then show "b_next (bs ! b) < length bs" "b_prev (bs ! b) < length bs" using n p w(3) by (auto simp: subset_iff less_Suc_eq)
  show "b < NBUF" using sub by auto
  show "b_next (bs ! b) \<noteq> b" "b_prev (bs ! b) \<noteq> b"
    using n p w(1) \<open>b < NBUF\<close> unfolding two_way_def by auto
qed

lemma lru_release:
  assumes "lru bs l" "b < NBUF"
  shows "lru (fronted b (unlinked b bs)) (b # remove1 b l)" "core (fronted b (unlinked b bs) ! i) = core (bs ! i)"
    "length (fronted b (unlinked b bs)) = length bs"
proof -
  have "b \<in> set l" using assms by (simp add: lru_def)
  then obtain xs ys where l: "l = xs @ b # ys" "b \<notin> set xs" by (meson split_list_first)
  have w: "two_way HEAD (\<lambda>i. b_next (bs ! i)) (\<lambda>i. b_prev (bs ! i)) (xs @ b # ys)" "set l = {0..<NBUF}" "length bs = Suc NBUF"
    using assms(1) l by (simp_all add: lru_def)
  note u = unlinked_fields [OF lru_bounds(1,2) [OF assms(1) l(1)]]
  have w1: "two_way HEAD (\<lambda>i. b_next (unlinked b bs ! i)) (\<lambda>i. b_prev (unlinked b bs ! i)) (xs @ ys)"
    unfolding u using two_way_remove(1) [OF w(1)] by simp
  have nb: "b \<notin> set (HEAD # xs @ ys)" using w(1) assms(2) by (auto simp: two_way_def)
  have "set (xs @ ys) \<subseteq> {0..<NBUF}" using w(2) l by auto
  then have "b_next (unlinked b bs ! HEAD) < length (unlinked b bs)"
    using two_way_front(2) [OF w1 nb] w(3) u(4) hd_in_set [of "xs @ ys @ [HEAD]"] by fastforce
  note v = fronted_fields [OF assms(2) this]
  have rem: "remove1 b l = xs @ ys" using l by (simp add: remove1_append)
  have "two_way HEAD (\<lambda>i. b_next (fronted b (unlinked b bs) ! i)) (\<lambda>i. b_prev (fronted b (unlinked b bs) ! i)) (b # xs @ ys)"
    using two_way_front(1) [OF w1 nb] v(1,2) u(4) w(3) by simp
  then show "lru (fronted b (unlinked b bs)) (b # remove1 b l)"
    using rem w l u(4) v(4) by (auto simp: lru_def)
  show "core (fronted b (unlinked b bs) ! i) = core (bs ! i)" "length (fronted b (unlinked b bs)) = length bs"
    using u v w(3) by simp_all
qed

lemma move_front_run:
  assumes "lru (bufs s) l" "b < NBUF"
  shows "seq (unlink_buf b) (link_front b) s es = Ret () (s\<lparr>bufs := fronted b (unlinked b (bufs s))\<rparr>) es"
proof -
  have "b \<in> set l" using assms by (simp add: lru_def)
  then obtain xs ys where l: "l = xs @ b # ys" by (meson split_list)
  note bd = lru_bounds [OF assms(1) l]
  have len: "length (bufs s) = Suc NBUF" using assms(1) by (simp add: lru_def)
  have "unlink_buf b s es = Ret () (s\<lparr>bufs := unlinked b (bufs s)\<rparr>) es"
    using bd by (simp add: unlink_buf_def unlinked_def Let_def bnd_run seq_run get_run upd_run get_buf_def upd_buf_def)
  moreover have "link_front b s es = Ret () (s\<lparr>bufs := fronted b (bufs s)\<rparr>) es" if "length (bufs s) = Suc NBUF" for s :: "'a bio_state_scheme"
    using assms(2) that by (simp add: link_front_def fronted_def Let_def bnd_run seq_run get_run upd_run get_buf_def upd_buf_def)
  ultimately show ?thesis
    using len unlinked_fields(4) [OF bd(1,2)] by (simp add: seq_run)
qed

section \<open>The cache\<close>

definition valid :: "buf \<Rightarrow> bool" where
  "valid x \<longleftrightarrow> bit (b_flags x) 1"

definition dirty :: "buf \<Rightarrow> bool" where
  "dirty x \<longleftrightarrow> bit (b_flags x) 2"

lemma flag_tests:
  "f AND B_VALID = 0 \<longleftrightarrow> \<not> bit f 1" "f AND B_DIRTY = 0 \<longleftrightarrow> \<not> bit f 2"
  "f AND (B_VALID OR B_DIRTY) = B_VALID \<longleftrightarrow> bit f 1 \<and> \<not> bit f 2" for f :: u32
proof -
  show v: "f AND B_VALID = 0 \<longleftrightarrow> \<not> bit f 1" using and_exp_eq_0_iff_not_bit [of f 1] by simp
  show d: "f AND B_DIRTY = 0 \<longleftrightarrow> \<not> bit f 2" using and_exp_eq_0_iff_not_bit [of f 2] by simp
  have two: "bit (2 :: u32) n \<longleftrightarrow> n = 1" "bit (4 :: u32) n \<longleftrightarrow> n = 2" if "n < 32" for n
    using that bit_exp_iff [of 1 n, where 'a = u32] bit_exp_iff [of 2 n, where 'a = u32] by auto
  show "f AND (B_VALID OR B_DIRTY) = B_VALID \<longleftrightarrow> bit f 1 \<and> \<not> bit f 2"
  proof
    assume eq: "f AND (B_VALID OR B_DIRTY) = B_VALID"
    have "bit (f AND (B_VALID OR B_DIRTY)) 1 = bit (2 :: u32) 1" "bit (f AND (B_VALID OR B_DIRTY)) 2 = bit (2 :: u32) 2"
      by (simp_all only: eq)
    then show "bit f 1 \<and> \<not> bit f 2" by (simp add: bit_and_iff bit_or_iff two)
  next
    assume f: "bit f 1 \<and> \<not> bit f 2"
    show "f AND (B_VALID OR B_DIRTY) = B_VALID"
    proof (rule bit_word_eqI)
      fix n assume "n < LENGTH(32)"
      then show "bit (f AND (B_VALID OR B_DIRTY)) n \<longleftrightarrow> bit B_VALID n"
        unfolding bit_and_iff bit_or_iff using f two [of n] by auto
    qed
  qed
qed

lemma flag_updates:
  "bit (f OR B_DIRTY) 1 = bit f 1" "bit (f OR B_DIRTY) 2" "bit (f AND NOT B_DIRTY) 1 = bit f 1" "\<not> bit (f AND NOT B_DIRTY) 2"
  "bit (f OR B_VALID) 1" "bit (f OR B_VALID) 2 = bit f 2" for f :: u32
proof -
  have two: "bit (2 :: u32) 1" "\<not> bit (2 :: u32) 2" "bit (4 :: u32) 2" "\<not> bit (4 :: u32) 1"
    using bit_exp_iff [of 1 1, where 'a = u32] bit_exp_iff [of 1 2, where 'a = u32] bit_exp_iff [of 2 1, where 'a = u32]
      bit_exp_iff [of 2 2, where 'a = u32] by simp_all
  show "bit (f OR B_DIRTY) 1 = bit f 1" "bit (f OR B_DIRTY) 2" "bit (f AND NOT B_DIRTY) 1 = bit f 1" "\<not> bit (f AND NOT B_DIRTY) 2"
    "bit (f OR B_VALID) 1" "bit (f OR B_VALID) 2 = bit f 2"
    by (simp_all add: bit_or_iff bit_and_iff bit_not_iff two)
qed

text \<open>
  The invariant of the cache while the process \<open>pid\<close> holds the buffers \<open>H\<close> and nobody holds another one:
  a buffer that is not held is referenced by nobody and, unless it is dirty, holds what the disk holds; no
  block is in two buffers.
\<close>

definition buf_ok :: "nat set \<Rightarrow> int \<Rightarrow> (sleeplock_id \<Rightarrow> sleeplock) \<Rightarrow> (u32 \<Rightarrow> block) \<Rightarrow> u32 \<Rightarrow> nat \<Rightarrow> buf \<Rightarrow> bool" where
  "buf_ok H pid sl dk sz b x \<longleftrightarrow>
     b_refcnt x = (if b \<in> H then 1 else 0) \<and> (sl_locked (sl (BufLock b)) \<longleftrightarrow> b \<in> H) \<and> (b \<in> H \<longrightarrow> sl_pid (sl (BufLock b)) = pid) \<and>
     (b_dev x = 0 \<or> b_dev x = 1) \<and> (valid x \<longleftrightarrow> b_dev x = 1) \<and> (b \<in> H \<or> dirty x \<longrightarrow> valid x) \<and>
     (valid x \<longrightarrow> b_blockno x < sz) \<and> (valid x \<and> b \<notin> H \<and> \<not> dirty x \<longrightarrow> b_data x = dk (b_blockno x))"

definition cached :: "buf list \<Rightarrow> u32 \<Rightarrow> nat \<Rightarrow> bool" where
  "cached bs n b \<longleftrightarrow> b < NBUF \<and> b_dev (bs ! b) = 1 \<and> b_blockno (bs ! b) = n"

definition cache :: "nat set \<Rightarrow> int \<Rightarrow> buf list \<Rightarrow> (sleeplock_id \<Rightarrow> sleeplock) \<Rightarrow> (u32 \<Rightarrow> block) \<Rightarrow> u32 \<Rightarrow> bool" where
  "cache H pid bs sl dk sz \<longleftrightarrow> (\<exists>l. lru bs l) \<and> H \<subseteq> {0..<NBUF} \<and> (\<forall>b < NBUF. buf_ok H pid sl dk sz b (bs ! b)) \<and>
     (\<forall>n b b'. cached bs n b \<and> cached bs n b' \<longrightarrow> b = b')"

text \<open>The contents of block \<open>n\<close> as the kernel sees it, and the blocks whose buffer is newer than the disk.\<close>

definition view :: "buf list \<Rightarrow> (u32 \<Rightarrow> block) \<Rightarrow> u32 \<Rightarrow> block" where
  "view bs dk n = (case find (cached bs n) [0..<NBUF] of Some b \<Rightarrow> b_data (bs ! b) | None \<Rightarrow> dk n)"

definition dirty_blocks :: "buf list \<Rightarrow> u32 set" where
  "dirty_blocks bs = {n. \<exists>b. cached bs n b \<and> dirty (bs ! b)}"

lemma view_cached:
  assumes "cache H pid bs sl dk sz" "cached bs n b"
  shows "view bs dk n = b_data (bs ! b)"
proof -
  obtain b' where b': "find (cached bs n) [0..<NBUF] = Some b'"
    using assms(2) by (cases "find (cached bs n) [0..<NBUF]") (auto simp: find_None_iff cached_def)
  then have "cached bs n b'" by (auto simp: find_Some_iff)
  then have "b' = b" using assms unfolding cache_def by blast
  with b' show ?thesis by (simp add: view_def)
qed

lemma view_not_cached: "(\<And>b. \<not> cached bs n b) \<Longrightarrow> view bs dk n = dk n"
  by (auto simp: view_def find_None_iff [THEN iffD2] split: option.split)

lemma view_clean:
  assumes "cache {} pid bs sl dk sz" "n \<notin> dirty_blocks bs"
  shows "view bs dk n = dk n"
proof (cases "\<exists>b. cached bs n b")
  case True
  then obtain b where b: "cached bs n b" by blast
  then have "buf_ok {} pid sl dk sz b (bs ! b)" "\<not> dirty (bs ! b)" using assms by (auto simp: cache_def cached_def dirty_blocks_def)
  then have "b_data (bs ! b) = dk n" using b by (auto simp: buf_ok_def cached_def)
  then show ?thesis using view_cached [OF assms(1) b] by simp
qed (use view_not_cached in blast)

lemma cache_room:
  assumes "cache H pid bs sl dk sz" "finite D" "dirty_blocks bs \<subseteq> D" "card D + card H < NBUF"
  shows "\<exists>b < NBUF. b \<notin> H \<and> \<not> dirty (bs ! b)"
proof (rule ccontr)
  assume "\<not> ?thesis"
  then have sub: "{0..<NBUF} \<subseteq> H \<union> {b. b < NBUF \<and> dirty (bs ! b)}" by auto
  let ?D = "{b. b < NBUF \<and> dirty (bs ! b)}"
  have c: "cached bs (b_blockno (bs ! b)) b" if "b \<in> ?D" for b
    using that assms(1) by (auto simp: cache_def buf_ok_def cached_def)
  then have "inj_on (\<lambda>b. b_blockno (bs ! b)) ?D" using assms(1) unfolding cache_def inj_on_def by metis
  moreover have "(\<lambda>b. b_blockno (bs ! b)) ` ?D \<subseteq> D" using c assms(3) by (auto simp: dirty_blocks_def)
  ultimately have "card ?D \<le> card D" using assms(2) by (rule card_inj_on_le)
  moreover have "finite H" using assms(1) by (auto simp: cache_def intro: finite_subset)
  then have "card {0..<NBUF} \<le> card (H \<union> ?D)" using sub by (intro card_mono) auto
  ultimately show False using assms(4) card_Un_le [of H ?D] by simp
qed

text \<open>How the four operations act on the cache.\<close>

lemma nth_upd_field: "f x = f (bs ! b) \<Longrightarrow> f (bs[b := x] ! i) = f (bs ! i)"
  by (metis list_update_beyond linorder_not_le nth_list_update_eq nth_list_update_neq)

lemma lru_upd:
  assumes "lru bs l" "b_next x = b_next (bs ! b)" "b_prev x = b_prev (bs ! b)"
  shows "lru (bs[b := x]) l"
proof -
  show ?thesis
    using assms(1) unfolding lru_def nth_upd_field [of b_next, OF assms(2)] nth_upd_field [of b_prev, OF assms(3)] by simp
qed

lemma cache_upd:
  assumes c: "cache H pid bs sl dk sz" "b < NBUF" "H' \<subseteq> insert b H" "H \<subseteq> insert b H'"
    and x: "b_next x = b_next (bs ! b)" "b_prev x = b_prev (bs ! b)" "buf_ok H' pid sl' dk' sz b x"
    and sl: "\<And>b'. b' \<noteq> b \<Longrightarrow> sl' (BufLock b') = sl (BufLock b')"
    and dk: "\<And>b'. b' < NBUF \<Longrightarrow> b' \<noteq> b \<Longrightarrow> b_dev (bs ! b') = 1 \<Longrightarrow> dk' (b_blockno (bs ! b')) = dk (b_blockno (bs ! b'))"
    and u: "\<And>b'. b_dev x = 1 \<Longrightarrow> cached bs (b_blockno x) b' \<Longrightarrow> b' = b"
  shows "cache H' pid (bs[b := x]) sl' dk' sz"
proof -
  have len: "length bs = Suc NBUF" using c(1) by (auto simp: cache_def lru_def)
  have "buf_ok H' pid sl' dk' sz b' (bs[b := x] ! b')" if "b' < NBUF" for b'
  proof (cases "b' = b")
    case False
    then have "b' \<in> H' \<longleftrightarrow> b' \<in> H" using c(3,4) by blast
    moreover have "buf_ok H pid sl dk sz b' (bs ! b')" using c(1) that by (simp add: cache_def)
    ultimately show ?thesis using False sl [OF False] dk [OF that False] unfolding buf_ok_def by (cases "b_dev (bs ! b') = 1") (simp_all, blast+)
  qed (use len c(2) x(3) in simp)
  moreover have "b1 = b2" if "cached (bs[b := x]) n b1" "cached (bs[b := x]) n b2" for n b1 b2
  proof -
    have old: "cached bs n b1 \<Longrightarrow> cached bs n b2 \<Longrightarrow> b1 = b2" using c(1) unfolding cache_def by blast
    have c': "cached (bs[b := x]) n b' \<longleftrightarrow> (if b' = b then b_dev x = 1 \<and> b_blockno x = n else cached bs n b')" for b'
      using len c(2) by (simp add: cached_def nth_list_update)
    show ?thesis
      using that old u [of b1] u [of b2] unfolding c' by (metis (full_types))
  qed
  moreover have "\<exists>l. lru (bs[b := x]) l" using c(1) lru_upd [OF _ x(1,2)] by (auto simp: cache_def)
  moreover have "H' \<subseteq> {0..<NBUF}" using c by (auto simp: cache_def)
  ultimately show ?thesis unfolding cache_def by blast
qed

lemma cache_len: "cache H pid bs sl dk sz \<Longrightarrow> length bs = Suc NBUF"
  by (auto simp: cache_def lru_def)

lemma cache_buf: "cache H pid bs sl dk sz \<Longrightarrow> b < NBUF \<Longrightarrow> buf_ok H pid sl dk sz b (bs ! b)"
  by (simp add: cache_def)

text \<open>A buffer that keeps its block number, data and flags does not change the view.\<close>

lemma view_upd_same:
  assumes "b_dev x = b_dev (bs ! b)" "b_blockno x = b_blockno (bs ! b)" "b_data x = b_data (bs ! b)" "dirty x = dirty (bs ! b)"
  shows "view (bs[b := x]) dk = view bs dk" "dirty_blocks (bs[b := x]) = dirty_blocks bs"
proof -
  have c: "cached (bs[b := x]) = cached bs"
    unfolding cached_def fun_eq_iff nth_upd_field [of b_dev, OF assms(1)] nth_upd_field [of b_blockno, OF assms(2)] by blast
  show "view (bs[b := x]) dk = view bs dk"
    by (rule ext) (simp only: view_def c nth_upd_field [of b_data, OF assms(3)])
  show "dirty_blocks (bs[b := x]) = dirty_blocks bs"
    by (simp only: dirty_blocks_def c nth_upd_field [of dirty, OF assms(4)])
qed

lemma cache_hit:
  assumes "cache H pid bs sl dk sz" "cached bs n b" "b \<notin> H"
  shows "cache (insert b H) pid (bs[b := (bs ! b)\<lparr>b_refcnt := 1\<rparr>]) (sl(BufLock b := owned pid (sl (BufLock b)))) dk sz"
proof (rule cache_upd [OF assms(1)])
  show "b < NBUF" using assms(2) by (simp add: cached_def)
  then have "buf_ok H pid sl dk sz b (bs ! b)" by (rule cache_buf [OF assms(1)])
  then show "buf_ok (insert b H) pid (sl(BufLock b := owned pid (sl (BufLock b)))) dk sz b ((bs ! b)\<lparr>b_refcnt := 1\<rparr>)"
    using assms(2) by (auto simp: buf_ok_def cached_def owned_def valid_def dirty_def)
  show "\<And>b'. b_dev ((bs ! b)\<lparr>b_refcnt := 1\<rparr>) = 1 \<Longrightarrow> cached bs (b_blockno ((bs ! b)\<lparr>b_refcnt := 1\<rparr>)) b' \<Longrightarrow> b' = b"
    using assms(1,2) unfolding cache_def by (auto simp: cached_def)
qed auto

definition loaded :: "u32 \<Rightarrow> block \<Rightarrow> buf \<Rightarrow> buf" where
  "loaded n d x = x\<lparr>b_dev := 1, b_blockno := n, b_flags := B_VALID, b_refcnt := 1, b_data := d\<rparr>"

lemma valid_loaded [simp]: "valid (loaded n d x)" "\<not> dirty (loaded n d x)"
  using flag_updates(5) [of 0] flag_updates(6) [of 0] by (simp_all add: valid_def dirty_def loaded_def)

lemma cache_miss:
  assumes c: "cache H pid bs sl dk sz" and n: "\<And>b. \<not> cached bs n b" "n < sz" and b: "b < NBUF" "b \<notin> H" "\<not> dirty (bs ! b)"
  shows "cache (insert b H) pid (bs[b := loaded n (dk n) (bs ! b)]) (sl(BufLock b := owned pid (sl (BufLock b)))) dk sz"
    "view (bs[b := loaded n (dk n) (bs ! b)]) dk = view bs dk" "dirty_blocks (bs[b := loaded n (dk n) (bs ! b)]) = dirty_blocks bs"
proof -
  let ?x = "loaded n (dk n) (bs ! b)" and ?sl = "sl(BufLock b := owned pid (sl (BufLock b)))"
  let ?bs = "bs[b := ?x]"
  have ok: "buf_ok H pid sl dk sz b (bs ! b)" by (rule cache_buf [OF c b(1)])
  show c': "cache (insert b H) pid ?bs ?sl dk sz"
  proof (rule cache_upd [OF c b(1)])
    show "buf_ok (insert b H) pid ?sl dk sz b ?x"
      using n(2) by (simp add: buf_ok_def owned_def) (simp add: loaded_def)
    show "cached bs (b_blockno ?x) b' \<Longrightarrow> b' = b" for b' using n(1) by (simp add: loaded_def)
  qed (auto simp: loaded_def)
  have len: "length bs = Suc NBUF" by (rule cache_len [OF c])
  have cached': "cached ?bs k b' \<longleftrightarrow> (if b' = b then k = n else cached bs k b')" for k b'
    using b(1) len by (auto simp: cached_def nth_list_update loaded_def)
  show "view ?bs dk = view bs dk"
  proof
    fix k
    consider "k = n" | b' where "k \<noteq> n" "cached bs k b'" "b' \<noteq> b" | "k \<noteq> n" "cached bs k b" | "k \<noteq> n" "\<And>b'. \<not> cached bs k b'" by blast
    then show "view ?bs dk k = view bs dk k"
    proof cases
      case 1
      then show ?thesis
        using view_cached [OF c', of k b] cached' [of n b] view_not_cached [OF n(1), of dk] b(1) len by (simp add: loaded_def)
    next
      case 2
      then show ?thesis
        using view_cached [OF c', of k b'] cached' [of k b'] view_cached [OF c 2(2)] by simp
    next
      case 3
      then have "\<not> cached ?bs k b'" for b' using cached' [of k b'] c unfolding cache_def by metis
      moreover have "b_data (bs ! b) = dk k" using ok 3(2) b by (simp add: buf_ok_def cached_def)
      ultimately show ?thesis using view_not_cached [of ?bs k dk] view_cached [OF c 3(2)] by simp
    next
      case 4
      then show ?thesis using view_not_cached [of ?bs k dk] view_not_cached [of bs k dk] cached' by simp
    qed
  qed
  show "dirty_blocks ?bs = dirty_blocks bs"
  proof -
    have "cached ?bs k b' \<and> dirty (?bs ! b') \<longleftrightarrow> cached bs k b' \<and> dirty (bs ! b')" for k b'
      using cached' [of k b'] b len by (cases "b' = b") auto
    then show ?thesis by (simp add: dirty_blocks_def)
  qed
qed

lemma cache_held:
  assumes "cache H pid bs sl dk sz" "b \<in> H"
  shows "b < NBUF" "cached bs (b_blockno (bs ! b)) b" "valid (bs ! b)" "b_dev (bs ! b) = 1" "b_blockno (bs ! b) < sz"
    "b_refcnt (bs ! b) = 1" "sl_locked (sl (BufLock b))" "sl_pid (sl (BufLock b)) = pid"
proof -
  show b: "b < NBUF" using assms by (auto simp: cache_def)
  show "cached bs (b_blockno (bs ! b)) b" "valid (bs ! b)" "b_dev (bs ! b) = 1" "b_blockno (bs ! b) < sz"
    "b_refcnt (bs ! b) = 1" "sl_locked (sl (BufLock b))" "sl_pid (sl (BufLock b)) = pid"
    using cache_buf [OF assms(1) b] assms(2) b by (auto simp: buf_ok_def cached_def)
qed

lemma cache_unique: "cache H pid bs sl dk sz \<Longrightarrow> cached bs n b \<Longrightarrow> cached bs n b' \<Longrightarrow> b' = b"
  unfolding cache_def by blast

text \<open>Two caches whose buffers differ in \<open>b\<close> only, which holds the same block in both.\<close>

lemma view_upd_data:
  assumes c: "cache H pid bs sl dk sz" "cache H' pid (bs[b := x]) sl' dk' sz"
    and b: "b < NBUF" "b_dev (bs ! b) = 1" "b_dev x = 1" "b_blockno x = b_blockno (bs ! b)"
    and dk: "\<And>k. k \<noteq> b_blockno x \<Longrightarrow> dk' k = dk k"
  shows "view (bs[b := x]) dk' = (view bs dk)(b_blockno x := b_data x)"
proof
  fix k
  have len: "length bs = Suc NBUF" by (rule cache_len [OF c(1)])
  have cached': "cached (bs[b := x]) = cached bs"
    using nth_upd_field [of b_dev x bs b] nth_upd_field [of b_blockno x bs b] b by (simp add: cached_def fun_eq_iff)
  have cb: "cached bs (b_blockno x) b" using b by (simp add: cached_def)
  show "view (bs[b := x]) dk' k = ((view bs dk)(b_blockno x := b_data x)) k"
  proof (cases "k = b_blockno x")
    case True
    then show ?thesis using view_cached [OF c(2), of k b] cb b(1) len unfolding cached' by simp
  next
    case False
    show ?thesis
    proof (cases "\<exists>b'. cached bs k b'")
      case True
      then obtain b' where b': "cached bs k b'" by blast
      then have "b' \<noteq> b" using False b(4) by (auto simp: cached_def)
      then show ?thesis using view_cached [OF c(2), of k b'] view_cached [OF c(1) b'] b' False unfolding cached' by simp
    next
      case nc: False
      then show ?thesis using view_not_cached [of bs k dk] view_not_cached [of "bs[b := x]" k dk'] dk [OF False] False unfolding cached' by simp
    qed
  qed
qed

lemma cache_data:
  assumes "cache H pid bs sl dk sz" "b \<in> H"
  shows "cache H pid (bs[b := (bs ! b)\<lparr>b_data := d\<rparr>]) sl dk sz"
    "view (bs[b := (bs ! b)\<lparr>b_data := d\<rparr>]) dk = (view bs dk)(b_blockno (bs ! b) := d)"
    "dirty_blocks (bs[b := (bs ! b)\<lparr>b_data := d\<rparr>]) = dirty_blocks bs"
proof -
  note h = cache_held [OF assms]
  show c: "cache H pid (bs[b := (bs ! b)\<lparr>b_data := d\<rparr>]) sl dk sz"
  proof (rule cache_upd [OF assms(1) h(1)])
    show "buf_ok H pid sl dk sz b ((bs ! b)\<lparr>b_data := d\<rparr>)"
      using cache_buf [OF assms(1) h(1)] assms(2) by (auto simp: buf_ok_def valid_def dirty_def)
    show "cached bs (b_blockno ((bs ! b)\<lparr>b_data := d\<rparr>)) b' \<Longrightarrow> b' = b" for b' using cache_unique [OF assms(1) h(2)] by simp
  qed auto
  show "view (bs[b := (bs ! b)\<lparr>b_data := d\<rparr>]) dk = (view bs dk)(b_blockno (bs ! b) := d)"
    using view_upd_data [OF assms(1) c h(1,4)] h(4) by simp
  have "cached (bs[b := (bs ! b)\<lparr>b_data := d\<rparr>]) = cached bs"
    using nth_upd_field [of b_dev "(bs ! b)\<lparr>b_data := d\<rparr>" bs b] nth_upd_field [of b_blockno "(bs ! b)\<lparr>b_data := d\<rparr>" bs b]
    by (simp add: cached_def fun_eq_iff)
  then show "dirty_blocks (bs[b := (bs ! b)\<lparr>b_data := d\<rparr>]) = dirty_blocks bs"
    using nth_upd_field [of dirty "(bs ! b)\<lparr>b_data := d\<rparr>" bs b] by (simp add: dirty_blocks_def dirty_def)
qed

definition written :: "buf \<Rightarrow> buf" where
  "written x = x\<lparr>b_flags := ((b_flags x OR B_DIRTY) AND NOT B_DIRTY) OR B_VALID\<rparr>"

lemma written_flags [simp]: "valid (written x)" "\<not> dirty (written x)"
  using flag_updates by (simp_all add: valid_def dirty_def written_def)

lemma cache_write:
  assumes "cache H pid bs sl dk sz" "b \<in> H"
  defines "n \<equiv> b_blockno (bs ! b)"
  shows "cache H pid (bs[b := written (bs ! b)]) sl (dk(n := b_data (bs ! b))) sz"
    "view (bs[b := written (bs ! b)]) (dk(n := b_data (bs ! b))) = view bs dk"
    "dirty_blocks (bs[b := written (bs ! b)]) = dirty_blocks bs - {n}"
proof -
  note h = cache_held [OF assms(1,2)]
  let ?x = "written (bs ! b)" and ?dk = "dk(n := b_data (bs ! b))"
  have f: "b_dev ?x = b_dev (bs ! b)" "b_blockno ?x = n" "b_data ?x = b_data (bs ! b)" "b_refcnt ?x = b_refcnt (bs ! b)"
    "b_next ?x = b_next (bs ! b)" "b_prev ?x = b_prev (bs ! b)" by (simp_all add: written_def n_def)
  show c: "cache H pid (bs[b := ?x]) sl ?dk sz"
  proof (rule cache_upd [OF assms(1) h(1)])
    show "buf_ok H pid sl ?dk sz b ?x"
      using cache_buf [OF assms(1) h(1)] assms(2) h(4,5) by (simp add: buf_ok_def f n_def)
    show "cached bs (b_blockno ?x) b' \<Longrightarrow> b' = b" for b' using cache_unique [OF assms(1) h(2)] by (simp add: f n_def)
    fix b' assume b': "b' < NBUF" "b' \<noteq> b" "b_dev (bs ! b') = 1"
    then have "cached bs (b_blockno (bs ! b')) b'" by (simp add: cached_def)
    then have "b_blockno (bs ! b') \<noteq> n" using cache_unique [OF assms(1) h(2), of b'] b'(2) by (auto simp: n_def)
    then show "?dk (b_blockno (bs ! b')) = dk (b_blockno (bs ! b'))" by simp
  qed (auto simp: f)
  have "view (bs[b := ?x]) ?dk = (view bs dk)(b_blockno ?x := b_data ?x)"
    by (rule view_upd_data [OF assms(1) c h(1,4)]) (use h(4) in \<open>simp_all add: f n_def\<close>)
  also have "\<dots> = view bs dk"
    using view_cached [OF assms(1) h(2)] by (simp add: f n_def fun_eq_iff)
  finally show "view (bs[b := ?x]) ?dk = view bs dk" .
  have len: "length bs = Suc NBUF" by (rule cache_len [OF assms(1)])
  have cached': "cached (bs[b := ?x]) = cached bs"
    using nth_upd_field [of b_dev ?x bs b] nth_upd_field [of b_blockno ?x bs b] by (simp add: cached_def fun_eq_iff f n_def)
  have "cached bs k b' \<and> dirty (bs[b := ?x] ! b') \<longleftrightarrow> k \<noteq> n \<and> cached bs k b' \<and> dirty (bs ! b')" for k b'
  proof (cases "b' = b")
    case True
    then show ?thesis using h(1) len by (auto simp: cached_def n_def)
  next
    case False
    then have "cached bs k b' \<Longrightarrow> k \<noteq> n" using cache_unique [OF assms(1) h(2), of b'] by (auto simp: n_def)
    then show ?thesis using False by auto
  qed
  then show "dirty_blocks (bs[b := ?x]) = dirty_blocks bs - {n}" unfolding dirty_blocks_def cached' by auto
qed

lemma cache_core_cong:
  assumes "cache H pid bs sl dk sz" "\<And>i. core (bs' ! i) = core (bs ! i)" "lru bs' l"
  shows "cache H pid bs' sl dk sz" "view bs' dk = view bs dk" "dirty_blocks bs' = dirty_blocks bs"
proof -
  have f: "b_flags (bs' ! i) = b_flags (bs ! i)" "b_dev (bs' ! i) = b_dev (bs ! i)" "b_blockno (bs' ! i) = b_blockno (bs ! i)"
    "b_refcnt (bs' ! i) = b_refcnt (bs ! i)" "b_data (bs' ! i) = b_data (bs ! i)" for i
    using assms(2) [of i] by (simp_all add: core_eq)
  have c: "cached bs' = cached bs" "dirty (bs' ! i) = dirty (bs ! i)" "valid (bs' ! i) = valid (bs ! i)" for i
    by (simp_all add: cached_def fun_eq_iff dirty_def valid_def f)
  show "cache H pid bs' sl dk sz"
    using assms(1,3) unfolding cache_def c buf_ok_def f by blast
  show "view bs' dk = view bs dk" "dirty_blocks bs' = dirty_blocks bs"
    by (simp_all add: view_def dirty_blocks_def fun_eq_iff c f split: option.split)
qed

lemma cache_release:
  assumes c: "cache H pid bs sl dk sz" "b \<in> H" and d: "dirty (bs ! b) \<or> b_data (bs ! b) = dk (b_blockno (bs ! b))"
  defines "bs' \<equiv> fronted b (unlinked b (bs[b := (bs ! b)\<lparr>b_refcnt := 0\<rparr>]))"
  shows "cache (H - {b}) pid bs' (sl(BufLock b := free_sl (sl (BufLock b)))) dk sz"
    "view bs' dk = view bs dk" "dirty_blocks bs' = dirty_blocks bs" "lru (bs[b := (bs ! b)\<lparr>b_refcnt := 0\<rparr>]) l \<Longrightarrow> lru bs' (b # remove1 b l)"
    "b' \<noteq> b \<Longrightarrow> core (bs' ! b') = core (bs ! b')" "\<exists>l. lru (bs[b := (bs ! b)\<lparr>b_refcnt := 0\<rparr>]) l"
proof -
  let ?x = "(bs ! b)\<lparr>b_refcnt := 0\<rparr>" and ?sl = "sl(BufLock b := free_sl (sl (BufLock b)))"
  note h = cache_held [OF c]
  have c1: "cache (H - {b}) pid (bs[b := ?x]) ?sl dk sz"
  proof (rule cache_upd [OF c(1) h(1)])
    show "buf_ok (H - {b}) pid ?sl dk sz b ?x"
      using cache_buf [OF c(1) h(1)] h(3,4,5) d by (auto simp: buf_ok_def valid_def dirty_def free_sl_def)
    show "cached bs (b_blockno ?x) b' \<Longrightarrow> b' = b" for b' using cache_unique [OF c(1) h(2)] by simp
  qed auto
  then show lr: "\<exists>l. lru (bs[b := ?x]) l" by (simp add: cache_def)
  then obtain l0 where l0: "lru (bs[b := ?x]) l0" by blast
  note r = lru_release [OF l0 h(1)]
  note cc = cache_core_cong [OF c1, of bs', OF _ r(1) [folded bs'_def]]
  have v: "view (bs[b := ?x]) dk = view bs dk" "dirty_blocks (bs[b := ?x]) = dirty_blocks bs"
    by (rule view_upd_same; simp add: dirty_def)+
  show "cache (H - {b}) pid bs' ?sl dk sz" "view bs' dk = view bs dk" "dirty_blocks bs' = dirty_blocks bs"
    using cc r(2) v unfolding bs'_def by auto
  show "lru (bs[b := ?x]) l \<Longrightarrow> lru bs' (b # remove1 b l)" unfolding bs'_def by (rule lru_release(1) [OF _ h(1)])
  show "b' \<noteq> b \<Longrightarrow> core (bs' ! b') = core (bs ! b')" using r(2) [of b'] unfolding bs'_def by simp
qed

section \<open>The operations\<close>

text \<open>The process in slot \<open>i\<close> runs and no spin lock is held.\<close>

definition calm :: "machine \<Rightarrow> nat \<Rightarrow> int \<Rightarrow> 'z proc_state_scheme \<Rightarrow> bool" where
  "calm m\<^sub>0 i pid s \<longleftrightarrow> mach_ok m\<^sub>0 \<and> (\<forall>L. lock_free m\<^sub>0 L) \<and> cpu_proc (the_cpu m\<^sub>0) = Some i \<and> inside m\<^sub>0 {} (mach s) \<and>
     i < NPROC \<and> length (ptable s) = NPROC \<and> p_pid (ptable s ! i) = pid"

lemma calmD:
  assumes "calm m\<^sub>0 i pid s"
  shows "mach_ok m\<^sub>0" "lock_free m\<^sub>0 L" "cpu_proc (the_cpu m\<^sub>0) = Some i" "inside m\<^sub>0 {} (mach s)" "length (ptable s) = NPROC"
    "p_pid (ptable s ! i) = pid" "i < NPROC"
  using assms by (simp_all add: calm_def)

text \<open>Everything but what the cache works on stays as it is.\<close>

definition bio_frame :: "'z bio_state_scheme \<Rightarrow> 'z bio_state_scheme \<Rightarrow> bool" where
  "bio_frame s t \<longleftrightarrow> t = s\<lparr>mach := mach t, ptable := ptable t, sleeplocks := sleeplocks t, bufs := bufs t, disk := disk t, disk_hist := disk_hist t\<rparr>"

lemma bio_frame_refl [simp]: "bio_frame s s"
  by (simp add: bio_frame_def)

lemma bio_frame_trans: "bio_frame s t \<Longrightarrow> bio_frame t u \<Longrightarrow> bio_frame s u"
  by (cases s, cases t, cases u) (auto simp: bio_frame_def)

lemma bio_frame_simps: "bio_frame s t \<Longrightarrow> disksize t = disksize s \<and> bio_state.more t = bio_state.more s"
  by (cases s, cases t) (auto simp: bio_frame_def)

definition with_bufs :: "machine \<Rightarrow> nat \<Rightarrow> int \<Rightarrow> nat set \<Rightarrow> 'z bio_state_scheme \<Rightarrow> bool" where
  "with_bufs m\<^sub>0 i pid H s \<longleftrightarrow> calm m\<^sub>0 i pid s \<and> cache H pid (bufs s) (sleeplocks s) (disk s) (disksize s)"

lemma wp_holding_buf:
  assumes s: "calm m\<^sub>0 i pid s" "sl_locked (sleeplocks s (BufLock b))" "sl_pid (sleeplocks s (BufLock b)) = pid"
    and Q: "\<And>m. inside m\<^sub>0 {} m \<Longrightarrow> Q True (s\<lparr>mach := m\<rparr>)"
  shows "wp (holdingsleep (BufLock b)) Q s"
  by (rule wp_holdingsleep [OF calmD(1,4,3,2) [OF s(1)]]) (use s Q calmD(6) [OF s(1)] in auto)

lemma wp_iderw_write:
  assumes s: "calm m\<^sub>0 i pid s" "sl_locked (sleeplocks s (BufLock b))" "sl_pid (sleeplocks s (BufLock b)) = pid" "b < length (bufs s)"
    and x: "dirty (bufs s ! b)" "b_dev (bufs s ! b) = 1" "b_blockno (bufs s ! b) < disksize s"
    and Q: "\<And>m. inside m\<^sub>0 {} m \<Longrightarrow>
      Q () (s\<lparr>bufs := (bufs s)[b := (bufs s ! b)\<lparr>b_flags := (b_flags (bufs s ! b) AND NOT B_DIRTY) OR B_VALID\<rparr>],
         disk := (disk s)(b_blockno (bufs s ! b) := b_data (bufs s ! b)), disk_hist := disk s # disk_hist s, mach := m\<rparr>)"
  shows "wp (iderw b) Q s"
  unfolding iderw_def
proof (rule wp_bnd, rule wp_holding_buf [OF s(1-3)])
  fix m assume m: "inside m\<^sub>0 {} m"
  have f: "\<not> (b_flags (bufs s ! b) AND (B_VALID OR B_DIRTY) = B_VALID)" "b_flags (bufs s ! b) AND B_DIRTY \<noteq> 0" "\<not> disksize s \<le> b_blockno (bufs s ! b)"
    using x(1,3) unfolding flag_tests by (simp_all add: dirty_def not_le)
  show "wp (if \<not> True then panic ''iderw: buf not locked''
     else
       bnd (get_buf b) (\<lambda>x.
       if b_flags x AND (B_VALID OR B_DIRTY) = B_VALID then panic ''iderw: nothing to do''
       else if b_dev x \<noteq> 1 then panic ''iderw: request not for disk 1''
       else
         bnd (get disksize) (\<lambda>n.
         if b_blockno x \<ge> n then panic ''iderw: block out of range''
         else
           seq (if b_flags x AND B_DIRTY \<noteq> 0 then
                  seq (upd_buf b (\<lambda>x. x\<lparr>b_flags := b_flags x AND NOT B_DIRTY\<rparr>))
                      (disk_write (b_blockno x) (b_data x))
                else
                  bnd (get (\<lambda>s. disk s (b_blockno x))) (\<lambda>d. upd_buf b (\<lambda>x. x\<lparr>b_data := d\<rparr>)))
               (upd_buf b (\<lambda>x. x\<lparr>b_flags := b_flags x OR B_VALID\<rparr>))))) Q (s\<lparr>mach := m\<rparr>)"
    by (rule wp_runI [where s' = "s\<lparr>bufs := (bufs s)[b := (bufs s ! b)\<lparr>b_flags := (b_flags (bufs s ! b) AND NOT B_DIRTY) OR B_VALID\<rparr>],
         disk := (disk s)(b_blockno (bufs s ! b) := b_data (bufs s ! b)), disk_hist := disk s # disk_hist s, mach := m\<rparr>"])
      (use f x(2) s(4) Q [OF m] in \<open>simp_all add: bnd_run seq_run get_run upd_run get_buf_def upd_buf_def disk_write_def\<close>)
qed

lemma wp_iderw_read:
  assumes s: "calm m\<^sub>0 i pid s" "sl_locked (sleeplocks s (BufLock b))" "sl_pid (sleeplocks s (BufLock b)) = pid" "b < length (bufs s)"
    and x: "\<not> dirty (bufs s ! b)" "\<not> valid (bufs s ! b)" "b_dev (bufs s ! b) = 1" "b_blockno (bufs s ! b) < disksize s"
    and Q: "\<And>m. inside m\<^sub>0 {} m \<Longrightarrow>
      Q () (s\<lparr>bufs := (bufs s)[b := (bufs s ! b)\<lparr>b_data := disk s (b_blockno (bufs s ! b)), b_flags := b_flags (bufs s ! b) OR B_VALID\<rparr>], mach := m\<rparr>)"
  shows "wp (iderw b) Q s"
  unfolding iderw_def
proof (rule wp_bnd, rule wp_holding_buf [OF s(1-3)])
  fix m assume m: "inside m\<^sub>0 {} m"
  have f: "\<not> (b_flags (bufs s ! b) AND (B_VALID OR B_DIRTY) = B_VALID)" "b_flags (bufs s ! b) AND B_DIRTY = 0" "\<not> disksize s \<le> b_blockno (bufs s ! b)"
    using x unfolding flag_tests by (simp_all add: dirty_def valid_def not_le)
  show "wp (if \<not> True then panic ''iderw: buf not locked''
     else
       bnd (get_buf b) (\<lambda>x.
       if b_flags x AND (B_VALID OR B_DIRTY) = B_VALID then panic ''iderw: nothing to do''
       else if b_dev x \<noteq> 1 then panic ''iderw: request not for disk 1''
       else
         bnd (get disksize) (\<lambda>n.
         if b_blockno x \<ge> n then panic ''iderw: block out of range''
         else
           seq (if b_flags x AND B_DIRTY \<noteq> 0 then
                  seq (upd_buf b (\<lambda>x. x\<lparr>b_flags := b_flags x AND NOT B_DIRTY\<rparr>))
                      (disk_write (b_blockno x) (b_data x))
                else
                  bnd (get (\<lambda>s. disk s (b_blockno x))) (\<lambda>d. upd_buf b (\<lambda>x. x\<lparr>b_data := d\<rparr>)))
               (upd_buf b (\<lambda>x. x\<lparr>b_flags := b_flags x OR B_VALID\<rparr>))))) Q (s\<lparr>mach := m\<rparr>)"
    by (rule wp_runI [where s' = "s\<lparr>bufs := (bufs s)[b := (bufs s ! b)\<lparr>b_data := disk s (b_blockno (bufs s ! b)), b_flags := b_flags (bufs s ! b) OR B_VALID\<rparr>], mach := m\<rparr>"])
      (use f x(3) s(4) Q [OF m] in \<open>simp_all add: bnd_run seq_run get_run upd_run get_buf_def upd_buf_def disk_write_def\<close>)
qed

definition same_store :: "'z bio_state_scheme \<Rightarrow> 'z bio_state_scheme \<Rightarrow> bool" where
  "same_store s t \<longleftrightarrow> bio_frame s t \<and> disk t = disk s \<and> disk_hist t = disk_hist s \<and>
     view (bufs t) (disk t) = view (bufs s) (disk s) \<and> dirty_blocks (bufs t) = dirty_blocks (bufs s)"

lemma same_store_refl [simp]: "same_store s s"
  by (simp add: same_store_def)

lemma same_store_trans: "same_store s t \<Longrightarrow> same_store t u \<Longrightarrow> same_store s u"
  by (auto simp: same_store_def intro: bio_frame_trans)

lemma wp_bget_tail:
  assumes s: "calm m\<^sub>0 i pid (s\<lparr>mach := m\<^sub>1\<rparr>)" "inside m\<^sub>0 {BcacheLock} (mach s)" "\<not> sl_locked (sleeplocks s (BufLock b))"
    and Q: "\<And>m. inside m\<^sub>0 {} m \<Longrightarrow> Q b (s\<lparr>sleeplocks := (sleeplocks s)(BufLock b := owned pid (sleeplocks s (BufLock b))), mach := m\<rparr>)"
  shows "wp (seq (release BcacheLock) (seq (acquiresleep (BufLock b)) (ret b))) Q s"
proof (rule wp_seq, rule wp_release [OF calmD(1) [OF s(1)] s(2)], simp, rule wp_seq)
  fix m assume "inside m\<^sub>0 ({BcacheLock} - {BcacheLock}) m"
  then have m: "inside m\<^sub>0 {} (mach (s\<lparr>mach := m\<rparr>))" by simp
  show "wp (acquiresleep (BufLock b)) (\<lambda>_. wp (ret b) Q) (s\<lparr>mach := m\<rparr>)"
    by (rule wp_acquiresleep [OF calmD(1) [OF s(1)] m calmD(3) [OF s(1)] calmD(2) [OF s(1)]])
      (use s(3) Q calmD(6) [OF s(1)] in \<open>simp_all add: wp_ret\<close>)
qed

lemma calm_mach: "calm m\<^sub>0 i pid s \<Longrightarrow> inside m\<^sub>0 {} (mach t) \<Longrightarrow> ptable t = ptable s \<Longrightarrow> calm m\<^sub>0 i pid t"
  by (simp add: calm_def)

lemma wp_bread_hit:
  assumes s: "with_bufs m\<^sub>0 i pid H s" "b \<notin> H" "cached (bufs s) n b" "lru (bufs s) l" "find (\<lambda>b. cached (bufs s) n b) l = Some b"
    and Q: "\<And>t. with_bufs m\<^sub>0 i pid (insert b H) t \<Longrightarrow> same_store s t \<Longrightarrow> b_blockno (bufs t ! b) = n \<Longrightarrow>
      b_data (bufs t ! b) = view (bufs s) (disk s) n \<Longrightarrow> dirty (bufs t ! b) \<or> b_data (bufs t ! b) = disk t n \<Longrightarrow> (\<And>b'. b' \<noteq> b \<Longrightarrow> bufs t ! b' = bufs s ! b') \<Longrightarrow> Q b t"
  shows "wp (bread 1 n) Q s"
proof -
  have c: "calm m\<^sub>0 i pid s" "cache H pid (bufs s) (sleeplocks s) (disk s) (disksize s)" using s(1) by (simp_all add: with_bufs_def)
  have b: "b < NBUF" using s(3) by (simp add: cached_def)
  have x: "b_refcnt (bufs s ! b) = 0" "\<not> sl_locked (sleeplocks s (BufLock b))" "valid (bufs s ! b)"
    using cache_buf [OF c(2) b] s(2,3) by (auto simp: buf_ok_def cached_def)
  have len: "b < length (bufs s)" using cache_len [OF c(2)] b by simp
  have fnd: "find (\<lambda>i. b_dev (bufs s ! i) = 1 \<and> b_blockno (bufs s ! i) = n) l = Some b"
  proof -
    have "find (\<lambda>i. b_dev (bufs s ! i) = 1 \<and> b_blockno (bufs s ! i) = n) l = find (\<lambda>b. cached (bufs s) n b) l"
      by (rule find_cong) (use s(4) in \<open>auto simp: cached_def lru_def\<close>)
    then show ?thesis using s(5) by simp
  qed
  let ?s = "\<lambda>m. s\<lparr>bufs := (bufs s)[b := (bufs s ! b)\<lparr>b_refcnt := 1\<rparr>], sleeplocks := (sleeplocks s)(BufLock b := owned pid (sleeplocks s (BufLock b))), mach := m\<rparr>"
  have fin: "Q b (?s m)" if m: "inside m\<^sub>0 {} m" for m
  proof (rule Q)
    have v: "view ((bufs s)[b := (bufs s ! b)\<lparr>b_refcnt := 1\<rparr>]) (disk s) = view (bufs s) (disk s)"
      "dirty_blocks ((bufs s)[b := (bufs s ! b)\<lparr>b_refcnt := 1\<rparr>]) = dirty_blocks (bufs s)"
      by (rule view_upd_same; simp add: dirty_def)+
    show "with_bufs m\<^sub>0 i pid (insert b H) (?s m)"
      using cache_hit [OF c(2) s(3,2)] m c(1) by (simp add: with_bufs_def calm_def)
    show "same_store s (?s m)" using v by (cases s) (simp add: same_store_def bio_frame_def)
    show "b_blockno (bufs (?s m) ! b) = n" "b_data (bufs (?s m) ! b) = view (bufs s) (disk s) n"
      using s(3) len view_cached [OF c(2) s(3)] by (simp_all add: cached_def)
    show "dirty (bufs (?s m) ! b) \<or> b_data (bufs (?s m) ! b) = disk (?s m) n"
      using cache_buf [OF c(2) b] s(2,3) len by (auto simp: buf_ok_def cached_def dirty_def)
  qed simp
  show ?thesis
    unfolding bread_def bget_def
  proof (rule wp_bnd, rule wp_seq, rule wp_acquire [OF calmD(1,4,2) [OF c(1)]], simp, rule wp_bnd)
    fix m assume m: "inside m\<^sub>0 {BcacheLock} m"
    have "lru (bufs (s\<lparr>mach := m\<rparr>)) l" using s(4) by simp
    note sc = scan_bufs_run(1) [OF this]
    show "wp (scan_bufs b_next (\<lambda>x. b_dev x = 1 \<and> b_blockno x = n)) (\<lambda>r. wp (case r of
       Some b \<Rightarrow>
         seq (upd_buf b (\<lambda>x. x\<lparr>b_refcnt := b_refcnt x + 1\<rparr>)) (
         seq (release BcacheLock) (seq (acquiresleep (BufLock b)) (ret b)))
     | None \<Rightarrow>
         bnd (scan_bufs b_prev (\<lambda>x. b_refcnt x = 0 \<and> b_flags x AND B_DIRTY = 0)) (\<lambda>r.
         case r of
           Some b \<Rightarrow>
             seq (upd_buf b (\<lambda>x. x\<lparr>b_dev := 1, b_blockno := n, b_flags := 0, b_refcnt := 1\<rparr>)) (
             seq (release BcacheLock) (seq (acquiresleep (BufLock b)) (ret b)))
         | None \<Rightarrow> panic ''bget: no buffers''))
       (\<lambda>a. wp (bnd (get_buf a) (\<lambda>x. seq (whenM (b_flags x AND B_VALID = 0) (iderw a)) (ret a))) Q)) (s\<lparr>mach := m\<rparr>)"
    proof (rule wp_runI, rule sc, simp add: fnd, rule wp_seq, simp add: upd_buf_def wp_upd x(1), rule wp_bget_tail)
      let ?t = "s\<lparr>mach := m, bufs := (bufs s)[b := (bufs s ! b)\<lparr>b_refcnt := 1\<rparr>]\<rparr>"
      show "calm m\<^sub>0 i pid (?t\<lparr>mach := mach s\<rparr>)" by (rule calm_mach [OF c(1)]) (use calmD(4) [OF c(1)] in simp_all)
      show "inside m\<^sub>0 {BcacheLock} (mach ?t)" "\<not> sl_locked (sleeplocks ?t (BufLock b))" using m x(2) by simp_all
      fix m' assume "inside m\<^sub>0 {} m'"
      note fin = fin [OF this]
      have "\<not> (b_flags (bufs s ! b) AND B_VALID = 0)" using x(3) unfolding flag_tests by (simp add: valid_def)
      then show "wp (bnd (get_buf b) (\<lambda>x. seq (whenM (b_flags x AND B_VALID = 0) (iderw b)) (ret b))) Q
         (?t\<lparr>sleeplocks := (sleeplocks ?t)(BufLock b := owned pid (sleeplocks ?t (BufLock b))), mach := m'\<rparr>)"
        by (intro wp_runI [where a = b and s' = "?s m'"]) (use len fin in \<open>cases s, simp_all add: bnd_run seq_run get_run get_buf_def whenM_run\<close>)
    qed
  qed
qed

lemma find_SomeD: "find P xs = Some x \<Longrightarrow> x \<in> set xs \<and> P x"
  by (induction xs) (auto split: if_splits)

lemma wp_bread_miss:
  assumes s: "with_bufs m\<^sub>0 i pid H s" "\<And>b. \<not> cached (bufs s) n b" "n < disksize s" "lru (bufs s) l"
    and b: "find (\<lambda>b. b_refcnt (bufs s ! b) = 0 \<and> b_flags (bufs s ! b) AND B_DIRTY = 0) (rev l) = Some b"
    and Q: "\<And>t. with_bufs m\<^sub>0 i pid (insert b H) t \<Longrightarrow> same_store s t \<Longrightarrow> b \<notin> H \<Longrightarrow> b_blockno (bufs t ! b) = n \<Longrightarrow>
      b_data (bufs t ! b) = view (bufs s) (disk s) n \<Longrightarrow> dirty (bufs t ! b) \<or> b_data (bufs t ! b) = disk t n \<Longrightarrow> (\<And>b'. b' \<noteq> b \<Longrightarrow> bufs t ! b' = bufs s ! b') \<Longrightarrow> Q b t"
  shows "wp (bread 1 n) Q s"
proof -
  have c: "calm m\<^sub>0 i pid s" "cache H pid (bufs s) (sleeplocks s) (disk s) (disksize s)" using s(1) by (simp_all add: with_bufs_def)
  have b': "b \<in> set l" "b_refcnt (bufs s ! b) = 0" "\<not> bit (b_flags (bufs s ! b)) 2"
    using find_SomeD [OF b] unfolding flag_tests by simp_all
  have lt: "b < NBUF" using b'(1) s(4) by (simp add: lru_def)
  have x: "b \<notin> H" "\<not> sl_locked (sleeplocks s (BufLock b))" "\<not> dirty (bufs s ! b)"
    using cache_buf [OF c(2) lt] b'(2,3) by (auto simp: buf_ok_def dirty_def split: if_splits)
  have len: "b < length (bufs s)" using cache_len [OF c(2)] lt by simp
  have fnd: "find (\<lambda>i. b_dev (bufs s ! i) = 1 \<and> b_blockno (bufs s ! i) = n) l = None"
    using s(2,4) by (auto simp: find_None_iff cached_def lru_def)
  let ?sl = "(sleeplocks s)(BufLock b := owned pid (sleeplocks s (BufLock b)))"
  let ?s = "\<lambda>m. s\<lparr>bufs := (bufs s)[b := loaded n (disk s n) (bufs s ! b)], sleeplocks := ?sl, mach := m\<rparr>"
  note cm = cache_miss [OF c(2) s(2,3) lt x(1,3)]
  have fin: "Q b (?s m)" if m: "inside m\<^sub>0 {} m" for m
  proof (rule Q [OF _ _ x(1)])
    show "with_bufs m\<^sub>0 i pid (insert b H) (?s m)"
      using cm(1) m c(1) by (simp add: with_bufs_def calm_def)
    show "same_store s (?s m)" using cm(2,3) by (cases s) (simp add: same_store_def bio_frame_def)
    show "b_blockno (bufs (?s m) ! b) = n" "b_data (bufs (?s m) ! b) = view (bufs s) (disk s) n"
      using len view_not_cached [OF s(2)] by (simp_all add: loaded_def)
    show "dirty (bufs (?s m) ! b) \<or> b_data (bufs (?s m) ! b) = disk (?s m) n" using len by (simp add: loaded_def)
  qed simp
  let ?x = "(bufs s ! b)\<lparr>b_dev := 1, b_blockno := n, b_flags := 0, b_refcnt := 1\<rparr>"
  have rd: "wp (bnd (get_buf b) (\<lambda>x. seq (whenM (b_flags x AND B_VALID = 0) (iderw b)) (ret b))) Q
      (s\<lparr>bufs := (bufs s)[b := ?x], sleeplocks := ?sl, mach := m\<rparr>)" if m: "inside m\<^sub>0 {} m" for m
  proof (rule wp_bnd, simp add: get_buf_def wp_get len whenM_def, rule wp_seq, rule wp_iderw_read)
    let ?t = "s\<lparr>bufs := (bufs s)[b := ?x], sleeplocks := ?sl, mach := m\<rparr>"
    show "calm m\<^sub>0 i pid ?t" by (rule calm_mach [OF c(1)]) (use m in simp_all)
    show "sl_locked (sleeplocks ?t (BufLock b))" "sl_pid (sleeplocks ?t (BufLock b)) = pid" "b < length (bufs ?t)"
      "\<not> dirty (bufs ?t ! b)" "\<not> valid (bufs ?t ! b)" "b_dev (bufs ?t ! b) = 1" "b_blockno (bufs ?t ! b) < disksize ?t"
      using len s(3) by (simp_all add: owned_def dirty_def valid_def)
    fix m' assume "inside m\<^sub>0 {} m'"
    note f = fin [OF this]
    have l: "(bufs s ! b)\<lparr>b_dev := 1, b_blockno := n, b_refcnt := 1, b_data := disk s n, b_flags := B_VALID\<rparr> = loaded n (disk s n) (bufs s ! b)"
      by (cases "bufs s ! b") (simp add: loaded_def)
    have st: "s\<lparr>sleeplocks := sl, bufs := bs, mach := m'\<rparr> = s\<lparr>bufs := bs, sleeplocks := sl, mach := m'\<rparr>" for sl bs by (cases s) simp
    from f len show "wp (ret b) Q (?t\<lparr>bufs := (bufs ?t)[b := (bufs ?t ! b)\<lparr>b_data := disk ?t (b_blockno (bufs ?t ! b)), b_flags := b_flags (bufs ?t ! b) OR B_VALID\<rparr>], mach := m'\<rparr>)"
      by (simp add: wp_ret l st)
  qed
  show ?thesis
    unfolding bread_def bget_def
  proof (rule wp_bnd, rule wp_seq, rule wp_acquire [OF calmD(1,4,2) [OF c(1)]], simp, rule wp_bnd)
    fix m assume m: "inside m\<^sub>0 {BcacheLock} m"
    have l: "lru (bufs (s\<lparr>mach := m\<rparr>)) l" using s(4) by simp
    let ?k = "\<lambda>a. wp (bnd (get_buf a) (\<lambda>x. seq (whenM (b_flags x AND B_VALID = 0) (iderw a)) (ret a))) Q"
    have "wp (scan_bufs b_prev (\<lambda>x. b_refcnt x = 0 \<and> b_flags x AND B_DIRTY = 0)) (\<lambda>r. wp (
         case r of
           Some b \<Rightarrow>
             seq (upd_buf b (\<lambda>x. x\<lparr>b_dev := 1, b_blockno := n, b_flags := 0, b_refcnt := 1\<rparr>)) (
             seq (release BcacheLock) (seq (acquiresleep (BufLock b)) (ret b)))
         | None \<Rightarrow> panic ''bget: no buffers'') ?k) (s\<lparr>mach := m\<rparr>)"
    proof (rule wp_runI, rule scan_bufs_run(2) [OF l], simp add: b, rule wp_seq, simp add: upd_buf_def wp_upd, rule wp_bget_tail)
      let ?t = "s\<lparr>mach := m, bufs := (bufs s)[b := ?x]\<rparr>"
      show "calm m\<^sub>0 i pid (?t\<lparr>mach := mach s\<rparr>)" by (rule calm_mach [OF c(1)]) (use calmD(4) [OF c(1)] in simp_all)
      show "inside m\<^sub>0 {BcacheLock} (mach ?t)" "\<not> sl_locked (sleeplocks ?t (BufLock b))" using m x(2) by simp_all
      fix m' assume "inside m\<^sub>0 {} m'"
      from rd [OF this] show "?k b (?t\<lparr>sleeplocks := (sleeplocks ?t)(BufLock b := owned pid (sleeplocks ?t (BufLock b))), mach := m'\<rparr>)"
        by (cases s) simp
    qed
    then show "wp (scan_bufs b_next (\<lambda>x. b_dev x = 1 \<and> b_blockno x = n)) (\<lambda>r. wp (case r of
       Some b \<Rightarrow>
         seq (upd_buf b (\<lambda>x. x\<lparr>b_refcnt := b_refcnt x + 1\<rparr>)) (
         seq (release BcacheLock) (seq (acquiresleep (BufLock b)) (ret b)))
     | None \<Rightarrow>
         bnd (scan_bufs b_prev (\<lambda>x. b_refcnt x = 0 \<and> b_flags x AND B_DIRTY = 0)) (\<lambda>r.
         case r of
           Some b \<Rightarrow>
             seq (upd_buf b (\<lambda>x. x\<lparr>b_dev := 1, b_blockno := n, b_flags := 0, b_refcnt := 1\<rparr>)) (
             seq (release BcacheLock) (seq (acquiresleep (BufLock b)) (ret b)))
         | None \<Rightarrow> panic ''bget: no buffers'')) ?k) (s\<lparr>mach := m\<rparr>)"
      by - (rule wp_runI, rule scan_bufs_run(1) [OF l], simp add: fnd wp_bnd)
  qed
qed

text \<open>\<^verbatim>\<open>bread\<close>: the buffer returned is locked and holds the current contents of the block; nothing else changes.\<close>

lemma wp_bread:
  assumes s: "with_bufs m\<^sub>0 i pid H s" "n < disksize s" "\<And>b. b \<in> H \<Longrightarrow> b_blockno (bufs s ! b) \<noteq> n"
    and room: "n \<in> dirty_blocks (bufs s) \<or> finite D \<and> dirty_blocks (bufs s) \<subseteq> D \<and> card D + card H < NBUF"
    and Q: "\<And>b t. with_bufs m\<^sub>0 i pid (insert b H) t \<Longrightarrow> same_store s t \<Longrightarrow> b \<notin> H \<Longrightarrow> b_blockno (bufs t ! b) = n \<Longrightarrow>
      b_data (bufs t ! b) = view (bufs s) (disk s) n \<Longrightarrow> dirty (bufs t ! b) \<or> b_data (bufs t ! b) = disk t n \<Longrightarrow> (\<And>b'. b' \<noteq> b \<Longrightarrow> bufs t ! b' = bufs s ! b') \<Longrightarrow> Q b t"
  shows "wp (bread 1 n) Q s"
proof -
  have c: "cache H pid (bufs s) (sleeplocks s) (disk s) (disksize s)" using s(1) by (simp add: with_bufs_def)
  obtain l where l: "lru (bufs s) l" using c by (auto simp: cache_def)
  show ?thesis
  proof (cases "find (cached (bufs s) n) l")
    case (Some b)
    then have b: "cached (bufs s) n b" using find_SomeD by fast
    then have "b \<notin> H" using s(3) by (auto simp: cached_def)
    then show ?thesis using wp_bread_hit [OF s(1) _ b l Some] Q by blast
  next
    case None
    then have nc: "\<not> cached (bufs s) n b" for b using l by (auto simp: find_None_iff cached_def lru_def)
    have "n \<notin> dirty_blocks (bufs s)" using nc by (simp add: dirty_blocks_def)
    then obtain b where b: "b < NBUF" "b \<notin> H" "\<not> dirty (bufs s ! b)" using cache_room [OF c] room by blast
    let ?P = "\<lambda>b. b_refcnt (bufs s ! b) = 0 \<and> b_flags (bufs s ! b) AND B_DIRTY = 0"
    have "?P b" using cache_buf [OF c b(1)] b(2,3) unfolding flag_tests by (simp add: buf_ok_def dirty_def)
    moreover have "b \<in> set (rev l)" using b(1) l by (simp add: lru_def)
    ultimately obtain b' where "find ?P (rev l) = Some b'" by (cases "find ?P (rev l)") (auto simp: find_None_iff)
    then show ?thesis using wp_bread_miss [OF s(1) nc s(2) l] Q by blast
  qed
qed

lemma wp_bwrite:
  assumes s: "with_bufs m\<^sub>0 i pid H s" "b \<in> H"
    and Q: "\<And>t. with_bufs m\<^sub>0 i pid H t \<Longrightarrow> bio_frame s t \<Longrightarrow> disk t = (disk s)(b_blockno (bufs s ! b) := b_data (bufs s ! b)) \<Longrightarrow>
      disk_hist t = disk s # disk_hist s \<Longrightarrow> view (bufs t) (disk t) = view (bufs s) (disk s) \<Longrightarrow>
      dirty_blocks (bufs t) = dirty_blocks (bufs s) - {b_blockno (bufs s ! b)} \<Longrightarrow> (\<And>b'. b' \<noteq> b \<Longrightarrow> bufs t ! b' = bufs s ! b') \<Longrightarrow>
      b_blockno (bufs t ! b) = b_blockno (bufs s ! b) \<Longrightarrow> b_data (bufs t ! b) = b_data (bufs s ! b) \<Longrightarrow> Q () t"
  shows "wp (bwrite b) Q s"
proof -
  have c: "calm m\<^sub>0 i pid s" "cache H pid (bufs s) (sleeplocks s) (disk s) (disksize s)" using s(1) by (simp_all add: with_bufs_def)
  note h = cache_held [OF c(2) s(2)] and w = cache_write [OF c(2) s(2)]
  have len: "b < length (bufs s)" using cache_len [OF c(2)] h(1) by simp
  show ?thesis
    unfolding bwrite_def
  proof (rule wp_bnd, rule wp_holding_buf [OF c(1) h(7,8)], simp, rule wp_seq, simp add: upd_buf_def wp_upd, rule wp_iderw_write)
    fix m assume m: "inside m\<^sub>0 {} m"
    let ?t = "s\<lparr>mach := m, bufs := (bufs s)[b := (bufs s ! b)\<lparr>b_flags := b_flags (bufs s ! b) OR B_DIRTY\<rparr>]\<rparr>"
    show "calm m\<^sub>0 i pid ?t" by (rule calm_mach [OF c(1)]) (use m in simp_all)
    show "sl_locked (sleeplocks ?t (BufLock b))" "sl_pid (sleeplocks ?t (BufLock b)) = pid" "b < length (bufs ?t)"
      "dirty (bufs ?t ! b)" "b_dev (bufs ?t ! b) = 1" "b_blockno (bufs ?t ! b) < disksize ?t"
      using h len flag_updates(2) by (simp_all add: dirty_def)
    fix m' assume m': "inside m\<^sub>0 {} m'"
    let ?u = "s\<lparr>bufs := (bufs s)[b := written (bufs s ! b)], disk := (disk s)(b_blockno (bufs s ! b) := b_data (bufs s ! b)),
       disk_hist := disk s # disk_hist s, mach := m'\<rparr>"
    have "Q () ?u"
    proof (rule Q)
      show "with_bufs m\<^sub>0 i pid H ?u" using w(1) m' c(1) by (simp add: with_bufs_def calm_def)
      show "bio_frame s ?u" by (cases s) (simp add: bio_frame_def)
      show "b_blockno (bufs ?u ! b) = b_blockno (bufs s ! b)" "b_data (bufs ?u ! b) = b_data (bufs s ! b)"
        using len by (simp_all add: written_def)
    qed (use w(2,3) in simp_all)
    moreover have "?t\<lparr>bufs := (bufs ?t)[b := (bufs ?t ! b)\<lparr>b_flags := (b_flags (bufs ?t ! b) AND NOT B_DIRTY) OR B_VALID\<rparr>],
         disk := (disk ?t)(b_blockno (bufs ?t ! b) := b_data (bufs ?t ! b)), disk_hist := disk ?t # disk_hist ?t, mach := m'\<rparr> = ?u"
      using len by (cases s) (simp add: written_def)
    ultimately show "Q () (?t\<lparr>bufs := (bufs ?t)[b := (bufs ?t ! b)\<lparr>b_flags := (b_flags (bufs ?t ! b) AND NOT B_DIRTY) OR B_VALID\<rparr>],
         disk := (disk ?t)(b_blockno (bufs ?t ! b) := b_data (bufs ?t ! b)), disk_hist := disk ?t # disk_hist ?t, mach := m'\<rparr>)"
      by simp
  qed
qed

lemma wp_brelse:
  assumes s: "with_bufs m\<^sub>0 i pid H s" "b \<in> H" "dirty (bufs s ! b) \<or> b_data (bufs s ! b) = disk s (b_blockno (bufs s ! b))"
    and Q: "\<And>t. with_bufs m\<^sub>0 i pid (H - {b}) t \<Longrightarrow> same_store s t \<Longrightarrow> (\<And>b'. b' \<noteq> b \<Longrightarrow> core (bufs t ! b') = core (bufs s ! b')) \<Longrightarrow>
      (\<And>l. lru (bufs s) l \<Longrightarrow> lru (bufs t) (b # remove1 b l)) \<Longrightarrow> Q () t"
  shows "wp (brelse b) Q s"
proof -
  have c: "calm m\<^sub>0 i pid s" "cache H pid (bufs s) (sleeplocks s) (disk s) (disksize s)" using s(1) by (simp_all add: with_bufs_def)
  note h = cache_held [OF c(2) s(2)] and r = cache_release [OF c(2) s(2,3)]
  let ?bs = "(bufs s)[b := (bufs s ! b)\<lparr>b_refcnt := 0\<rparr>]"
  obtain l where l: "lru ?bs l" using r(6) by blast
  have lr: "lru (bufs s) l' \<Longrightarrow> lru ?bs l'" for l' by (rule lru_upd) simp_all
  have len: "b < length (bufs s)" using cache_len [OF c(2)] h(1) by simp
  let ?sl = "(sleeplocks s)(BufLock b := free_sl (sleeplocks s (BufLock b)))"
  let ?pt = "map (wake_one (Some (ChSleep (BufLock b)))) (ptable s)"
  let ?u = "\<lambda>m. s\<lparr>bufs := fronted b (unlinked b ?bs), sleeplocks := ?sl, ptable := ?pt, mach := m\<rparr>"
  have fin: "Q () (?u m)" if "inside m\<^sub>0 {} m" for m
  proof (rule Q)
    show "with_bufs m\<^sub>0 i pid (H - {b}) (?u m)" using r(1) that c(1) by (simp add: with_bufs_def calm_def)
    show "same_store s (?u m)" using r(2,3) by (cases s) (simp add: same_store_def bio_frame_def)
  qed (use r(4,5) lr in simp_all)
  have tail: "wp (seq (upd_buf b (\<lambda>x. x\<lparr>b_refcnt := b_refcnt x - 1\<rparr>)) (
       bnd (get_buf b) (\<lambda>x. seq (whenM (b_refcnt x = 0) (seq (unlink_buf b) (link_front b))) (release BcacheLock)))) Q
      (s\<lparr>sleeplocks := ?sl, ptable := ?pt, mach := m\<rparr>)" if m: "inside m\<^sub>0 {BcacheLock} m" for m
  proof (rule wp_seq, simp add: upd_buf_def wp_upd h(6), rule wp_bnd, simp add: get_buf_def wp_get len whenM_def, rule wp_seq)
    let ?t = "s\<lparr>sleeplocks := ?sl, ptable := ?pt, mach := m, bufs := ?bs\<rparr>"
    have l': "lru (bufs ?t) l" using l by simp
    show "wp (seq (unlink_buf b) (link_front b)) (\<lambda>_. wp (release BcacheLock) Q) ?t"
    proof (rule wp_runI, rule move_front_run [OF l' h(1)], rule wp_release [OF calmD(1) [OF c(1)]])
      show "inside m\<^sub>0 {BcacheLock} (mach (?t\<lparr>bufs := fronted b (unlinked b (bufs ?t))\<rparr>))" using m by simp
      fix m' assume "inside m\<^sub>0 ({BcacheLock} - {BcacheLock}) m'"
      then have "Q () (?u m')" by (intro fin) simp
      then show "Q () (?t\<lparr>bufs := fronted b (unlinked b (bufs ?t)), mach := m'\<rparr>)" by (cases s) simp
    qed simp
  qed
  show ?thesis
    unfolding brelse_def
  proof (rule wp_bnd, rule wp_holding_buf [OF c(1) h(7,8)], simp, rule wp_seq, rule wp_releasesleep [OF calmD(1) [OF c(1)]])
    fix m m' assume m: "inside m\<^sub>0 {} m" and m': "inside m\<^sub>0 {} m'"
    show "inside m\<^sub>0 {} (mach (s\<lparr>mach := m\<rparr>))" "length (ptable (s\<lparr>mach := m\<rparr>)) = NPROC" using m calmD(5) [OF c(1)] by simp_all
    let ?t = "s\<lparr>mach := m, sleeplocks := (sleeplocks (s\<lparr>mach := m\<rparr>))(BufLock b := free_sl (sleeplocks (s\<lparr>mach := m\<rparr>) (BufLock b))),
        ptable := map (wake_one (Some (ChSleep (BufLock b)))) (ptable (s\<lparr>mach := m\<rparr>)), mach := m'\<rparr>"
    show "wp (seq (acquire BcacheLock) (seq (upd_buf b (\<lambda>x. x\<lparr>b_refcnt := b_refcnt x - 1\<rparr>)) (
       bnd (get_buf b) (\<lambda>x. seq (whenM (b_refcnt x = 0) (seq (unlink_buf b) (link_front b))) (release BcacheLock))))) Q ?t"
    proof (rule wp_seq, rule wp_acquire [OF calmD(1) [OF c(1)] _ calmD(2) [OF c(1)]])
      show "inside m\<^sub>0 {} (mach ?t)" using m' by simp
      fix m'' assume "inside m\<^sub>0 {BcacheLock} m''"
      from tail [OF this] show "wp (seq (upd_buf b (\<lambda>x. x\<lparr>b_refcnt := b_refcnt x - 1\<rparr>)) (
         bnd (get_buf b) (\<lambda>x. seq (whenM (b_refcnt x = 0) (seq (unlink_buf b) (link_front b))) (release BcacheLock)))) Q (?t\<lparr>mach := m''\<rparr>)"
        by (cases s) simp
    qed simp
  qed (use calmD(2) [OF c(1)] in simp_all)
qed

section \<open>Copying blocks\<close>

lemma same_storeD:
  assumes "same_store s t"
  shows "disk t = disk s" "disk_hist t = disk_hist s" "view (bufs t) (disk s) = view (bufs s) (disk s)" "dirty_blocks (bufs t) = dirty_blocks (bufs s)"
    "bio_frame s t" "disksize t = disksize s"
  using assms bio_frame_simps by (auto simp: same_store_def)

text \<open>Reading two blocks one after the other, holding both buffers; \<open>M\<close> is the code from the second read on.\<close>

lemma wp_bread2:
  assumes s: "with_bufs m\<^sub>0 i pid {} s" "n < disksize s" "n' < disksize s" "n \<noteq> n'"
    and room: "finite D" "dirty_blocks (bufs s) \<subseteq> D" "card D < NBUF" "n' \<in> dirty_blocks (bufs s) \<or> card D + 1 < NBUF"
    and Q: "\<And>b b' t. with_bufs m\<^sub>0 i pid {b, b'} t \<Longrightarrow> same_store s t \<Longrightarrow> b \<noteq> b' \<Longrightarrow>
      b_blockno (bufs t ! b) = n \<Longrightarrow> b_blockno (bufs t ! b') = n' \<Longrightarrow>
      b_data (bufs t ! b) = view (bufs s) (disk s) n \<Longrightarrow> b_data (bufs t ! b') = view (bufs s) (disk s) n' \<Longrightarrow>
      dirty (bufs t ! b) \<or> b_data (bufs t ! b) = disk s n \<Longrightarrow> dirty (bufs t ! b') \<or> b_data (bufs t ! b') = disk s n' \<Longrightarrow> wp (K b b') Q t"
    and M: "\<And>b t es. bio_frame s t \<Longrightarrow> M b t es = bnd (bread 1 n') (K b) t es"
  shows "wp (bnd (bread 1 n) M) Q s"
proof (rule wp_bnd, rule wp_bread [OF s(1,2), where D = D])
  fix b t
  assume t: "with_bufs m\<^sub>0 i pid {b} t" "same_store s t" "b_blockno (bufs t ! b) = n" "b_data (bufs t ! b) = view (bufs s) (disk s) n"
    "dirty (bufs t ! b) \<or> b_data (bufs t ! b) = disk t n"
  note st = same_storeD [OF t(2)]
  have "wp (bnd (bread 1 n') (K b)) Q t"
  proof (rule wp_bnd, rule wp_bread [OF t(1), where D = D])
    fix b' u
    assume u: "with_bufs m\<^sub>0 i pid {b', b} u" "same_store t u" "b' \<notin> {b}" "b_blockno (bufs u ! b') = n'"
      "b_data (bufs u ! b') = view (bufs t) (disk t) n'" "dirty (bufs u ! b') \<or> b_data (bufs u ! b') = disk u n'"
      "\<And>b''. b'' \<noteq> b' \<Longrightarrow> bufs u ! b'' = bufs t ! b''"
    have "bufs u ! b = bufs t ! b" using u(3,7) by auto
    then show "wp (K b b') Q u"
      using t u st same_storeD [OF u(2)] same_store_trans [OF t(2) u(2)] by (intro Q) (simp_all add: insert_commute)
  qed (use s t(3) st room in \<open>auto\<close>)
  then show "wp (M b) Q t" using M [OF st(5)] by (simp add: wp_def)
qed (use room in auto)

text \<open>The loops of the log copy a block that is read first to one that is read second (installing), or the other way
  round (logging); they release the source first.\<close>

definition copied :: "u32 \<Rightarrow> u32 \<Rightarrow> 'z bio_state_scheme \<Rightarrow> 'z bio_state_scheme \<Rightarrow> bool" where
  "copied src dst s t \<longleftrightarrow> bio_frame s t \<and> disk t = (disk s)(dst := view (bufs s) (disk s) src) \<and> disk_hist t = disk s # disk_hist s \<and>
     view (bufs t) (disk t) = (view (bufs s) (disk s))(dst := view (bufs s) (disk s) src) \<and>
     dirty_blocks (bufs t) = dirty_blocks (bufs s) - {dst}"

lemma wp_copy_held:
  assumes t: "with_bufs m\<^sub>0 i pid {b, b'} t" "b \<noteq> b'" "b_blockno (bufs t ! b) \<noteq> b_blockno (bufs t ! b')"
    and src: "dirty (bufs t ! b) \<or> b_data (bufs t ! b) = disk t (b_blockno (bufs t ! b))"
    and Q: "\<And>u. with_bufs m\<^sub>0 i pid {} u \<Longrightarrow> copied (b_blockno (bufs t ! b)) (b_blockno (bufs t ! b')) t u \<Longrightarrow> Q () u"
  shows "wp (bnd (get_buf b) (\<lambda>l. seq (upd_buf b' (\<lambda>x. x\<lparr>b_data := b_data l\<rparr>)) (seq (bwrite b') (seq (brelse b) (brelse b'))))) Q t"
proof -
  have c: "calm m\<^sub>0 i pid t" "cache {b, b'} pid (bufs t) (sleeplocks t) (disk t) (disksize t)" using t(1) by (simp_all add: with_bufs_def)
  note h = cache_held [OF c(2), of b] cache_held [OF c(2), of b']
  let ?d = "b_data (bufs t ! b)" and ?n = "b_blockno (bufs t ! b)" and ?n' = "b_blockno (bufs t ! b')"
  have vb: "view (bufs t) (disk t) ?n = ?d" using view_cached [OF c(2) h(2)] by simp
  have len: "b' < length (bufs t)" using cache_len [OF c(2)] h(9) by simp
  let ?t1 = "t\<lparr>bufs := (bufs t)[b' := (bufs t ! b')\<lparr>b_data := ?d\<rparr>]\<rparr>"
  note cd = cache_data [OF c(2), of b' ?d]
  have t1: "with_bufs m\<^sub>0 i pid {b, b'} ?t1" using c(1) cd(1) by (simp add: with_bufs_def calm_def)
  show ?thesis
  proof (rule wp_bnd, simp add: get_buf_def wp_get, rule wp_seq, simp add: upd_buf_def wp_upd, rule wp_seq, rule wp_bwrite [OF t1, of b'], simp)
    fix u
    assume u: "with_bufs m\<^sub>0 i pid {b, b'} u" "bio_frame ?t1 u" "disk u = (disk ?t1)(b_blockno (bufs ?t1 ! b') := b_data (bufs ?t1 ! b'))"
      "disk_hist u = disk ?t1 # disk_hist ?t1" "view (bufs u) (disk u) = view (bufs ?t1) (disk ?t1)"
      "dirty_blocks (bufs u) = dirty_blocks (bufs ?t1) - {b_blockno (bufs ?t1 ! b')}" "\<And>b''. b'' \<noteq> b' \<Longrightarrow> bufs u ! b'' = bufs ?t1 ! b''"
      "b_blockno (bufs u ! b') = b_blockno (bufs ?t1 ! b')" "b_data (bufs u ! b') = b_data (bufs ?t1 ! b')"
    have ub: "bufs u ! b = bufs t ! b" using u(7) [of b] t(2) by simp
    have ds: "disk u = (disk t)(?n' := ?d)" using u(3) len by simp
    show "wp (seq (brelse b) (brelse b')) Q u"
    proof (rule wp_seq, rule wp_brelse [OF u(1), of b])
      show "dirty (bufs u ! b) \<or> b_data (bufs u ! b) = disk u (b_blockno (bufs u ! b))" using src t(3) ub ds by simp
      fix v
      assume v: "with_bufs m\<^sub>0 i pid ({b, b'} - {b}) v" "same_store u v" "\<And>b''. b'' \<noteq> b \<Longrightarrow> core (bufs v ! b'') = core (bufs u ! b'')"
      have v1: "with_bufs m\<^sub>0 i pid {b'} v" using v(1) t(2) by (simp add: insert_Diff_if)
      have cv: "b_data (bufs v ! b') = ?d" "b_blockno (bufs v ! b') = ?n'"
        using v(3) [of b'] t(2) u(8,9) len by (auto simp: core_eq)
      show "wp (brelse b') Q v"
      proof (rule wp_brelse [OF v1, of b'])
        show "dirty (bufs v ! b') \<or> b_data (bufs v ! b') = disk v (b_blockno (bufs v ! b'))"
          using cv same_storeD(1) [OF v(2)] ds by simp
        fix w assume w: "with_bufs m\<^sub>0 i pid ({b'} - {b'}) w" "same_store v w"
        have f: "bio_frame t ?t1" by (cases t) (simp add: bio_frame_def)
        note uw = same_storeD [OF same_store_trans [OF v(2) w(2)]]
        have "copied ?n ?n' t w"
          unfolding copied_def
          using bio_frame_trans [OF bio_frame_trans [OF f u(2)] uw(5)] uw ds u(4,5,6) cd(2,3) vb len by simp
        then show "Q () w" using Q w(1) by simp
      qed simp
    qed simp
  qed
qed

section \<open>Properties\<close>

lemma finite_dirty_blocks: "finite (dirty_blocks bs)"
  by (rule finite_subset [of _ "(\<lambda>b. b_blockno (bs ! b)) ` {0..<NBUF}"]) (auto simp: dirty_blocks_def cached_def)

text \<open>What \<^verbatim>\<open>binit\<close> has linked after the buffers \<open>xs\<close>.\<close>

definition linked_upto :: "nat list \<Rightarrow> 'z bio_state_scheme \<Rightarrow> bool" where
  "linked_upto xs t \<longleftrightarrow> length (bufs t) = Suc NBUF \<and> two_way HEAD (\<lambda>i. b_next (bufs t ! i)) (\<lambda>i. b_prev (bufs t ! i)) (rev xs) \<and>
     (\<forall>b < NBUF. b_flags (bufs t ! b) = 0 \<and> b_dev (bufs t ! b) = 0 \<and> b_refcnt (bufs t ! b) = 0) \<and>
     (\<forall>b \<in> set xs. \<not> sl_locked (sleeplocks t (BufLock b)))"

lemma binit_round:
  assumes I: "linked_upto xs t" "[0..<NBUF] = xs @ b # ys"
  shows "wp (bnd (get_buf HEAD) (\<lambda>h.
       seq (upd_buf b (\<lambda>x. x\<lparr>b_next := b_next h\<rparr>)) (
       seq (upd_buf b (\<lambda>x. x\<lparr>b_prev := HEAD\<rparr>)) (
       seq (initsleeplock (BufLock b) ''buffer'') (
       bnd (get_buf HEAD) (\<lambda>h.
       seq (upd_buf (b_next h) (\<lambda>x. x\<lparr>b_prev := b\<rparr>))
           (upd_buf HEAD (\<lambda>x. x\<lparr>b_next := b\<rparr>)))))))) (\<lambda>_. linked_upto (xs @ [b])) t"
proof -
  have d: "distinct (xs @ b # ys)" "set (xs @ b # ys) = {0..<NBUF}" using I(2) by (metis distinct_upt, metis atLeastLessThan_upt)
  have len: "length (bufs t) = Suc NBUF" using I(1) by (simp add: linked_upto_def)
  have w: "two_way HEAD (\<lambda>i. b_next (bufs t ! i)) (\<lambda>i. b_prev (bufs t ! i)) (rev xs)" using I(1) by (simp add: linked_upto_def)
  have b: "b < NBUF" using d(2) by auto
  have nb: "b \<notin> set (HEAD # rev xs)" using d b by auto
  have xs: "set xs \<subseteq> {0..<NBUF}" using d(2) by auto
  have n: "b_next (bufs t ! HEAD) < length (bufs t)"
    using two_way_front(2) [OF w nb] xs len by (cases "rev xs") (auto simp: subset_iff less_Suc_eq dest!: arg_cong [where f = set])
  note f = fronted_fields [OF b n len]
  let ?t = "t\<lparr>bufs := fronted b (bufs t), sleeplocks := (sleeplocks t)(BufLock b := (sleeplocks t (BufLock b))\<lparr>sl_name := ''buffer'', sl_locked := False, sl_pid := 0\<rparr>),
     mach := (mach t)\<lparr>locks := (locks (mach t))(SleepLk (BufLock b) := (locks (mach t) (SleepLk (BufLock b)))\<lparr>lk_name := ''sleep lock'', locked := False, lk_cpu := None\<rparr>)\<rparr>\<rparr>"
  have "b_flags (fronted b (bufs t) ! b') = b_flags (bufs t ! b') \<and> b_dev (fronted b (bufs t) ! b') = b_dev (bufs t ! b') \<and>
      b_refcnt (fronted b (bufs t) ! b') = b_refcnt (bufs t ! b')" for b'
    using f(3) [of b'] by (simp add: core_eq)
  then have "linked_upto (xs @ [b]) ?t"
    using I(1) two_way_front(1) [OF w nb] by (simp add: linked_upto_def f)
  moreover have "\<not> b = HEAD" using b by simp
  ultimately show ?thesis
    by (intro wp_runI [where s' = ?t])
      (use len b in \<open>cases t, simp_all add: bnd_run seq_run get_run upd_run get_buf_def upd_buf_def initsleeplock_def initlock_def machine_run upd_sl_def fronted_def Let_def\<close>)
qed

text \<open>C29: \<^verbatim>\<open>binit\<close> links all buffers, which are zero at start-up, into the list, the last one in front, and establishes
  the invariant of the cache: no buffer is locked, referenced or claims to hold a block.\<close>

theorem binit_establishes_cache:
  assumes "length (bufs s) = Suc NBUF" "\<forall>b < NBUF. b_flags (bufs s ! b) = 0 \<and> b_dev (bufs s ! b) = 0 \<and> b_refcnt (bufs s ! b) = 0"
  shows "wp binit (\<lambda>_ t. lru (bufs t) (rev [0..<NBUF]) \<and> cache {} pid (bufs t) (sleeplocks t) (disk t) (disksize t)) s"
proof -
  have fin: "lru (bufs t) (rev [0..<NBUF]) \<and> cache {} pid (bufs t) (sleeplocks t) (disk t) (disksize t)"
    if I: "linked_upto [0..<NBUF] t" for t :: "'a bio_state_scheme"
  proof -
    have l: "lru (bufs t) (rev [0..<NBUF])" using I by (simp add: linked_upto_def lru_def)
    moreover have "buf_ok {} pid (sleeplocks t) (disk t) (disksize t) b (bufs t ! b)" if "b < NBUF" for b
      using I that by (simp add: linked_upto_def buf_ok_def valid_def dirty_def)
    moreover have "\<not> cached (bufs t) n b" for n b using I by (auto simp: linked_upto_def cached_def)
    ultimately show ?thesis unfolding cache_def by auto
  qed
  show ?thesis
    unfolding binit_def
  proof (rule wp_seq, simp add: initlock_def machine_run wp_upd, rule wp_seq, simp add: upd_buf_def wp_upd, rule wp_seq, simp add: wp_upd,
      rule wp_mono [OF wp_forM [where I = linked_upto]], goal_cases)
    case 1
    show ?case using assms by (simp add: linked_upto_def two_way_def nth_list_update)
  next
    case (2 xs x ys t)
    show ?case using binit_round [OF "2"(2,1)] by (simp add: upd_buf_def)
  qed (use fin in auto)
qed

text \<open>C27: \<^verbatim>\<open>bread\<close>, called with no buffer held and a buffer to spare, returns without panic or sleep a locked buffer with
  the current contents of the block, taken from the cache if the block is there (also when it is newer than the
  disk), and changes neither the disk nor what any block contains.\<close>

theorem bread_returns_current:
  assumes "with_bufs m\<^sub>0 i pid {} s" "n < disksize s" "card (dirty_blocks (bufs s)) < NBUF"
  shows "wp (bread 1 n) (\<lambda>b t. with_bufs m\<^sub>0 i pid {b} t \<and> same_store s t \<and>
     b_blockno (bufs t ! b) = n \<and> b_data (bufs t ! b) = view (bufs s) (disk s) n) s"
  by (rule wp_bread [OF assms(1,2), where D = "dirty_blocks (bufs s)"]) (use assms(3) finite_dirty_blocks in auto)

text \<open>C26: What is written through a buffer is on the disk and is read back: reading block \<open>n\<close>, replacing the data, writing
  and releasing the buffer changes block \<open>n\<close> of the disk and no other, in one disk write, and the next \<^verbatim>\<open>bread\<close> of
  block \<open>n\<close> returns the new data.\<close>

theorem write_read_block:
  assumes s: "with_bufs m\<^sub>0 i pid {} s" "n < disksize s" "card (dirty_blocks (bufs s)) < NBUF"
  shows "wp (bnd (bread 1 n) (\<lambda>b. seq (upd_buf b (\<lambda>x. x\<lparr>b_data := d\<rparr>)) (seq (bwrite b) (seq (brelse b) (bread 1 n)))))
     (\<lambda>b t. b_data (bufs t ! b) = d \<and> disk t = (disk s)(n := d) \<and> disk_hist t = disk s # disk_hist s \<and> with_bufs m\<^sub>0 i pid {b} t) s"
proof (rule wp_bnd, rule wp_bread [OF s(1,2), where D = "dirty_blocks (bufs s)"])
  fix b t
  assume t: "with_bufs m\<^sub>0 i pid {b} t" "same_store s t" "b_blockno (bufs t ! b) = n"
  have c: "calm m\<^sub>0 i pid t" "cache {b} pid (bufs t) (sleeplocks t) (disk t) (disksize t)" using t(1) by (simp_all add: with_bufs_def)
  note cd = cache_data [OF c(2), of b d] and st = same_storeD [OF t(2)]
  have len: "b < length (bufs t)" using cache_len [OF c(2)] cache_held(1) [OF c(2), of b] by simp
  let ?t = "t\<lparr>bufs := (bufs t)[b := (bufs t ! b)\<lparr>b_data := d\<rparr>]\<rparr>"
  have t1: "with_bufs m\<^sub>0 i pid {b} ?t" using c(1) cd(1) by (simp add: with_bufs_def calm_def)
  show "wp (seq (upd_buf b (\<lambda>x. x\<lparr>b_data := d\<rparr>)) (seq (bwrite b) (seq (brelse b) (bread 1 n))))
     (\<lambda>b t. b_data (bufs t ! b) = d \<and> disk t = (disk s)(n := d) \<and> disk_hist t = disk s # disk_hist s \<and> with_bufs m\<^sub>0 i pid {b} t) t"
  proof (rule wp_seq, simp add: upd_buf_def wp_upd, rule wp_seq, rule wp_bwrite [OF t1, of b], simp, rule wp_seq)
    fix u
    assume u: "with_bufs m\<^sub>0 i pid {b} u" "bio_frame ?t u" "disk u = (disk ?t)(b_blockno (bufs ?t ! b) := b_data (bufs ?t ! b))"
      "disk_hist u = disk ?t # disk_hist ?t" "view (bufs u) (disk u) = view (bufs ?t) (disk ?t)"
      "dirty_blocks (bufs u) = dirty_blocks (bufs ?t) - {b_blockno (bufs ?t ! b)}" "b_blockno (bufs u ! b) = b_blockno (bufs ?t ! b)"
      "b_data (bufs u ! b) = b_data (bufs ?t ! b)"
    have dk: "disk u = (disk s)(n := d)" "disk_hist u = disk s # disk_hist s" using u(3,4) len t(3) st by simp_all
    have vw: "view (bufs u) (disk u) n = d" using u(5) cd(2) t(3) by simp
    have "dirty_blocks (bufs u) \<subseteq> dirty_blocks (bufs s)" using u(6) cd(3) st(4) by auto
    then have room: "card (dirty_blocks (bufs u)) < NBUF" using s(3) card_mono [OF finite_dirty_blocks] by (metis le_less_trans)
    show "wp (brelse b) (\<lambda>_. wp (bread 1 n)
       (\<lambda>b t. b_data (bufs t ! b) = d \<and> disk t = (disk s)(n := d) \<and> disk_hist t = disk s # disk_hist s \<and> with_bufs m\<^sub>0 i pid {b} t)) u"
    proof (rule wp_brelse [OF u(1)])
      show "dirty (bufs u ! b) \<or> b_data (bufs u ! b) = disk u (b_blockno (bufs u ! b))" using u(7,8) len t(3) dk by simp
      fix v assume v: "with_bufs m\<^sub>0 i pid ({b} - {b}) v" "same_store u v"
      note uv = same_storeD [OF v(2)]
      have sz: "disksize v = disksize s" using uv(6) bio_frame_simps [OF u(2)] st(6) by simp
      show "wp (bread 1 n) (\<lambda>b t. b_data (bufs t ! b) = d \<and> disk t = (disk s)(n := d) \<and> disk_hist t = disk s # disk_hist s \<and> with_bufs m\<^sub>0 i pid {b} t) v"
      proof (rule wp_bread [where H = "{}" and D = "dirty_blocks (bufs v)"])
        show "with_bufs m\<^sub>0 i pid {} v" "n < disksize v" using v(1) sz s(2) by simp_all
        show "n \<in> dirty_blocks (bufs v) \<or> finite (dirty_blocks (bufs v)) \<and> dirty_blocks (bufs v) \<subseteq> dirty_blocks (bufs v) \<and>
            card (dirty_blocks (bufs v)) + card {} < NBUF" using room uv(4) finite_dirty_blocks by simp
        fix b' w assume w: "with_bufs m\<^sub>0 i pid {b'} w" "same_store v w" "b_data (bufs w ! b') = view (bufs v) (disk v) n"
        show "b_data (bufs w ! b') = d \<and> disk w = (disk s)(n := d) \<and> disk_hist w = disk s # disk_hist s \<and> with_bufs m\<^sub>0 i pid {b'} w"
          using w(1,3) same_storeD(1,2) [OF w(2)] uv(1-3) vw dk by simp
      qed simp
    qed simp
  qed
qed (use s(3) finite_dirty_blocks in auto)

text \<open>C28: \<^verbatim>\<open>brelse\<close> of the only reference moves the buffer to the front of the recency list, whatever its place was, and
  keeps the order of the others; the list stays well linked in both directions and the cache keeps its invariant.\<close>

theorem brelse_moves_to_front:
  assumes "with_bufs m\<^sub>0 i pid H s" "b \<in> H" "dirty (bufs s ! b) \<or> b_data (bufs s ! b) = disk s (b_blockno (bufs s ! b))" "lru (bufs s) l"
  shows "wp (brelse b) (\<lambda>_ t. lru (bufs t) (b # remove1 b l) \<and> with_bufs m\<^sub>0 i pid (H - {b}) t \<and> same_store s t) s"
  by (rule wp_brelse [OF assms(1-3)]) (use assms(4) in blast)

text \<open>A disk of 1000 blocks, an empty cache, process 1 running.\<close>

definition witness_bufs :: "buf list" where
  "witness_bufs = map (\<lambda>k. \<lparr>b_flags = 0, b_dev = 0, b_blockno = 0, b_refcnt = 0, b_prev = (if k = 30 then 0 else k + 1),
     b_next = (if k = 0 then 30 else k - 1), b_data = []\<rparr>) [0..<31]"

definition witness_bio :: bio_state where
  "witness_bio = sleep_state.extend (witness_sleep\<lparr>sleeplocks := \<lambda>l. free_sl (sleeplocks witness_sleep l)\<rparr>)
     \<lparr>bufs = witness_bufs, disk = (\<lambda>n. replicate 512 (ucast n)), disksize = 1000, disk_hist = []\<rparr>"

lemma witness_bio_simps [simp]:
  "mach witness_bio = boot_machine" "ptable witness_bio = ptable witness_procs" "bufs witness_bio = witness_bufs" "disksize witness_bio = 1000"
  "disk witness_bio = (\<lambda>n. replicate 512 (ucast n))" "sleeplocks witness_bio l = free_sl (sleeplocks witness_sleep l)"
  using witness_sleep_simps by (simp_all add: witness_bio_def sleep_state.defs)

lemma witness_lru: "lru witness_bufs (rev [0..<NBUF])"
proof -
  have "two_way HEAD (\<lambda>i. b_next (witness_bufs ! i)) (\<lambda>i. b_prev (witness_bufs ! i)) (rev [0..<NBUF])" by code_simp
  then show ?thesis by (simp add: lru_def witness_bufs_def)
qed

lemma witness_bufs_nth: "b \<le> NBUF \<Longrightarrow> b_flags (witness_bufs ! b) = 0 \<and> b_dev (witness_bufs ! b) = 0 \<and> b_refcnt (witness_bufs ! b) = 0"
  by (simp add: witness_bufs_def nth_append)

lemma witness_bio_ok: "with_bufs boot_machine 0 1 {} witness_bio" "dirty_blocks (bufs witness_bio) = {}"
proof -
  have nc: "\<not> cached witness_bufs n b" for n b using witness_bufs_nth [of b] by (auto simp: cached_def)
  have "buf_ok {} 1 (sleeplocks witness_bio) (disk witness_bio) 1000 b (witness_bufs ! b)" if "b < NBUF" for b
    using witness_bufs_nth [of b] that by (simp add: buf_ok_def valid_def dirty_def free_sl_def)
  then have "cache {} 1 witness_bufs (sleeplocks witness_bio) (disk witness_bio) 1000"
    using witness_lru nc unfolding cache_def by auto
  then show "with_bufs boot_machine 0 1 {} witness_bio"
    by (simp add: with_bufs_def calm_def inside_refl)
  show "dirty_blocks (bufs witness_bio) = {}" using nc by (simp add: dirty_blocks_def)
qed

lemma witness_view: "view witness_bufs dk n = dk n"
  by (rule view_not_cached) (use witness_bufs_nth in \<open>auto simp: cached_def\<close>)

theorem binit_establishes_cache_witness:
  "wp binit (\<lambda>_ t. lru (bufs t) (rev [0..<NBUF]) \<and> cache {} 1 (bufs t) (sleeplocks t) (disk t) (disksize t)) witness_bio"
  by (rule binit_establishes_cache) (use witness_bufs_nth in \<open>simp_all add: witness_bufs_def\<close>)

theorem bread_returns_current_witness:
  "wp (bread 1 7) (\<lambda>b t. with_bufs boot_machine 0 1 {b} t \<and> same_store witness_bio t \<and> b_blockno (bufs t ! b) = 7 \<and>
     b_data (bufs t ! b) = replicate 512 7) witness_bio"
  using bread_returns_current [OF witness_bio_ok(1), of 7] by (simp add: witness_bio_ok(2) [simplified] witness_view)

theorem write_read_block_witness:
  "wp (bnd (bread 1 7) (\<lambda>b. seq (upd_buf b (\<lambda>x. x\<lparr>b_data := [1, 2]\<rparr>)) (seq (bwrite b) (seq (brelse b) (bread 1 7)))))
     (\<lambda>b t. b_data (bufs t ! b) = [1, 2] \<and> disk t = (disk witness_bio)(7 := [1, 2]) \<and> disk_hist t = disk witness_bio # disk_hist witness_bio \<and>
       with_bufs boot_machine 0 1 {b} t) witness_bio"
  by (rule write_read_block [OF witness_bio_ok(1)]) (simp_all add: witness_bio_ok(2) [simplified])

text \<open>Process 1 holds buffer 4, with block 7.\<close>

definition witness_held :: bio_state where
  "witness_held = witness_bio\<lparr>bufs := witness_bufs[4 := loaded 7 (replicate 512 7) (witness_bufs ! 4)],
     sleeplocks := (sleeplocks witness_bio)(BufLock 4 := owned 1 (sleeplocks witness_bio (BufLock 4)))\<rparr>"

lemma witness_held_ok: "with_bufs boot_machine 0 1 {4} witness_held" "lru (bufs witness_held) (rev [0..<NBUF])"
proof -
  have nc: "\<not> cached witness_bufs n b" for n b using witness_bufs_nth [of b] by (auto simp: cached_def)
  have c: "cache {} 1 witness_bufs (sleeplocks witness_bio) (disk witness_bio) 1000" "calm boot_machine 0 1 witness_bio"
    using witness_bio_ok(1) by (simp_all add: with_bufs_def)
  have "\<not> dirty (witness_bufs ! 4)" using witness_bufs_nth [of 4] by (simp add: dirty_def)
  from cache_miss(1) [OF c(1) nc, of 7 4] this show "with_bufs boot_machine 0 1 {4} witness_held"
    using c(2) by (simp add: with_bufs_def witness_held_def calm_def)
  show "lru (bufs witness_held) (rev [0..<NBUF])"
    using lru_upd [OF witness_lru, of "loaded 7 (replicate 512 7) (witness_bufs ! 4)" 4] by (simp add: witness_held_def loaded_def)
qed

theorem brelse_moves_to_front_witness:
  "wp (brelse 4) (\<lambda>_ t. lru (bufs t) (4 # remove1 4 (rev [0..<NBUF])) \<and> with_bufs boot_machine 0 1 ({4} - {4}) t \<and> same_store witness_held t) witness_held"
  by (rule brelse_moves_to_front [OF witness_held_ok(1) _ _ witness_held_ok(2)]) (simp_all add: witness_held_def witness_bufs_def loaded_def)

end
