(* ===== verification/Log.thy ===== *)
theory Log
  imports Bio
begin

text \<open>The redo log (\<^verbatim>\<open>log.c\<close>) and the superblock it reads at start-up (\<^verbatim>\<open>readsb\<close> of \<^verbatim>\<open>fs.c\<close>).\<close>

section \<open>State\<close>

record superblock =
  sb_size :: u32
  sb_nblocks :: u32
  sb_ninodes :: u32
  sb_nlog :: u32
  sb_logstart :: u32
  sb_inodestart :: u32
  sb_bmapstart :: u32

text \<open>The fields of \<^verbatim>\<open>struct log\<close>; \<^verbatim>\<open>lh.block\<close> has \<^verbatim>\<open>LOGSIZE\<close> entries.\<close>

record log_state = bio_state +
  log_start :: int
  log_size :: int
  outstanding :: int
  committing :: bool
  log_dev :: int
  lh_n :: int
  lh_block :: "int list"

section \<open>The code\<close>

definition load_sb :: "block \<Rightarrow> superblock" where
  "load_sb d = \<lparr>sb_size = get32 d 0, sb_nblocks = get32 d 4, sb_ninodes = get32 d 8, sb_nlog = get32 d 12,
     sb_logstart = get32 d 16, sb_inodestart = get32 d 20, sb_bmapstart = get32 d 24\<rparr>"

definition readsb :: "u32 \<Rightarrow> ('z bio_state_scheme, superblock) kM" where
  "readsb dev =
     bnd (bread dev 1) (\<lambda>b.
     bnd (get_buf b) (\<lambda>x.
     seq (brelse b) (
     ret (load_sb (b_data x)))))"

definition bread_log :: "int \<Rightarrow> ('z log_state_scheme, nat) kM" where
  "bread_log blockno = bnd (get log_dev) (\<lambda>dev. bread (word_of_int dev) (word_of_int blockno))"

definition install_trans :: "('z log_state_scheme, unit) kM" where
  "install_trans =
     bnd (get lh_n) (\<lambda>n.
     forM [0..<nat n] (\<lambda>tail.
       bnd (get log_start) (\<lambda>start.
       bnd (bread_log (start + int tail + 1)) (\<lambda>lbuf.
       bnd (get (\<lambda>s. lh_block s ! tail)) (\<lambda>dst.
       bnd (bread_log dst) (\<lambda>dbuf.
       bnd (get_buf lbuf) (\<lambda>l.
       seq (upd_buf dbuf (\<lambda>x. x\<lparr>b_data := b_data l\<rparr>)) (
       seq (bwrite dbuf) (
       seq (brelse lbuf) (
       brelse dbuf))))))))))"

text \<open>\<^verbatim>\<open>struct logheader\<close> in a block: the count, then the block numbers.\<close>

definition head_n :: "block \<Rightarrow> int" where
  "head_n d = sint (get32 d 0)"

definition head_block :: "block \<Rightarrow> nat \<Rightarrow> int" where
  "head_block d i = sint (get32 d (4 + 4 * i))"

definition read_head :: "('z log_state_scheme, unit) kM" where
  "read_head =
     bnd (get log_start) (\<lambda>start.
     bnd (bread_log start) (\<lambda>b.
     bnd (get_buf b) (\<lambda>x.
     seq (upd (\<lambda>s. s\<lparr>lh_n := head_n (b_data x)\<rparr>)) (
     bnd (get lh_n) (\<lambda>n.
     seq (forM [0..<nat n] (\<lambda>i. upd (\<lambda>s. s\<lparr>lh_block := (lh_block s)[i := head_block (b_data x) i]\<rparr>))) (
     brelse b))))))"

definition write_head :: "('z log_state_scheme, unit) kM" where
  "write_head =
     bnd (get log_start) (\<lambda>start.
     bnd (bread_log start) (\<lambda>b.
     bnd (get lh_n) (\<lambda>n.
     seq (upd_buf b (\<lambda>x. x\<lparr>b_data := put32 (b_data x) 0 (word_of_int n)\<rparr>)) (
     seq (forM [0..<nat n] (\<lambda>i.
            bnd (get (\<lambda>s. lh_block s ! i)) (\<lambda>blk.
            upd_buf b (\<lambda>x. x\<lparr>b_data := put32 (b_data x) (4 + 4 * i) (word_of_int blk)\<rparr>)))) (
     seq (bwrite b) (
     brelse b))))))"

definition recover_from_log :: "('z log_state_scheme, unit) kM" where
  "recover_from_log =
     seq read_head (
     seq install_trans (
     seq (upd (\<lambda>s. s\<lparr>lh_n := 0\<rparr>)) (
     write_head)))"

text \<open>The guard on the size of \<^verbatim>\<open>struct logheader\<close> (124 bytes) compares constants.\<close>

definition initlog :: "int \<Rightarrow> ('z log_state_scheme, unit) kM" where
  "initlog dev =
     (if 4 + 4 * LOGSIZE \<ge> int BSIZE then panic ''initlog: too big logheader''
      else
        seq (initlock LogLock ''log'') (
        bnd (readsb (word_of_int dev)) (\<lambda>sb.
        seq (upd (\<lambda>s. s\<lparr>log_start := sint (sb_logstart sb)\<rparr>)) (
        seq (upd (\<lambda>s. s\<lparr>log_size := sint (sb_nlog sb)\<rparr>)) (
        seq (upd (\<lambda>s. s\<lparr>log_dev := dev\<rparr>)) (
        recover_from_log))))))"

definition begin_op :: "('z log_state_scheme, unit) kM" where
  "begin_op =
     seq (acquire LogLock) (
     seq (while_sleep (\<lambda>s. committing s \<or> lh_n s + (outstanding s + 1) * MAXOPBLOCKS > LOGSIZE)
            (sleep (Some ChLog) (Some LogLock))) (
     seq (upd (\<lambda>s. s\<lparr>outstanding := outstanding s + 1\<rparr>)) (
     release LogLock)))"

definition write_log :: "('z log_state_scheme, unit) kM" where
  "write_log =
     bnd (get lh_n) (\<lambda>n.
     forM [0..<nat n] (\<lambda>tail.
       bnd (get log_start) (\<lambda>start.
       bnd (bread_log (start + int tail + 1)) (\<lambda>to.
       bnd (get (\<lambda>s. lh_block s ! tail)) (\<lambda>src.
       bnd (bread_log src) (\<lambda>from.
       bnd (get_buf from) (\<lambda>f.
       seq (upd_buf to (\<lambda>x. x\<lparr>b_data := b_data f\<rparr>)) (
       seq (bwrite to) (
       seq (brelse from) (
       brelse to))))))))))"

definition commit :: "('z log_state_scheme, unit) kM" where
  "commit =
     bnd (get lh_n) (\<lambda>n.
     whenM (n > 0) (
       seq write_log (
       seq write_head (
       seq install_trans (
       seq (upd (\<lambda>s. s\<lparr>lh_n := 0\<rparr>)) (
       write_head))))))"

definition end_op :: "('z log_state_scheme, unit) kM" where
  "end_op =
     seq (acquire LogLock) (
     seq (upd (\<lambda>s. s\<lparr>outstanding := outstanding s - 1\<rparr>)) (
     bnd (get committing) (\<lambda>c.
     if c then panic ''log.committing''
     else
       bnd (get (\<lambda>s. outstanding s = 0)) (\<lambda>do_commit.
       seq (if do_commit then upd (\<lambda>s. s\<lparr>committing := True\<rparr>) else wakeup (Some ChLog)) (
       seq (release LogLock) (
       whenM do_commit (
         seq commit (
         seq (acquire LogLock) (
         seq (upd (\<lambda>s. s\<lparr>committing := False\<rparr>)) (
         seq (wakeup (Some ChLog)) (
         release LogLock)))))))))))"

text \<open>The loop of \<^verbatim>\<open>log_write\<close> stops at the first entry for the block, or at \<^verbatim>\<open>lh.n\<close>.\<close>

definition log_index :: "int list \<Rightarrow> int \<Rightarrow> int \<Rightarrow> nat" where
  "log_index blocks n blockno =
     (case find_from (\<lambda>x. x = blockno) (take (nat n) blocks) 0 of Some i \<Rightarrow> i | None \<Rightarrow> nat n)"

definition log_write :: "nat \<Rightarrow> ('z log_state_scheme, unit) kM" where
  "log_write b =
     bnd (get (\<lambda>s. lh_n s \<ge> LOGSIZE \<or> lh_n s \<ge> log_size s - 1)) (\<lambda>big.
     if big then panic ''too big a transaction''
     else
       bnd (get (\<lambda>s. outstanding s < 1)) (\<lambda>outside.
       if outside then panic ''log_write outside of trans''
       else
         seq (acquire LogLock) (
         bnd (get_buf b) (\<lambda>x.
         bnd (get (\<lambda>s. log_index (lh_block s) (lh_n s) (sint (b_blockno x)))) (\<lambda>i.
         seq (upd (\<lambda>s. s\<lparr>lh_block := (lh_block s)[i := sint (b_blockno x)]\<rparr>)) (
         seq (upd (\<lambda>s. s\<lparr>lh_n := (if int i = lh_n s then lh_n s + 1 else lh_n s)\<rparr>)) (
         seq (upd_buf b (\<lambda>x. x\<lparr>b_flags := b_flags x OR B_DIRTY\<rparr>)) (
         release LogLock))))))))"

section \<open>The log on the disk\<close>

text \<open>The block of the header, of the \<open>k\<close>-th logged copy, and the home of the \<open>k\<close>-th logged block.\<close>

definition hb :: "int \<Rightarrow> u32" where
  "hb st = word_of_int st"

definition lb :: "int \<Rightarrow> nat \<Rightarrow> u32" where
  "lb st k = word_of_int (st + int k + 1)"

definition log_area :: "int \<Rightarrow> u32 set" where
  "log_area st = (\<lambda>k. word_of_int (st + int k)) ` {0..<30}"

text \<open>What recovery makes of a disk: the logged copies the header counts are written to their homes.\<close>

definition recovered :: "int \<Rightarrow> (u32 \<Rightarrow> block) \<Rightarrow> u32 \<Rightarrow> block" where
  "recovered st d = foldl (\<lambda>d' j. d'(word_of_int (head_block (d (hb st)) j) := d (lb st j))) d [0..<nat (head_n (d (hb st)))]"

lemma foldl_upd_miss: "(\<And>j. j < n \<Longrightarrow> f j \<noteq> m) \<Longrightarrow> foldl (\<lambda>d j. d(f j := g j)) d [0..<n] m = d m"
  by (induction n) auto

lemma foldl_upd_hit:
  "k < n \<Longrightarrow> f k = m \<Longrightarrow> (\<And>j. j < n \<Longrightarrow> f j = m \<Longrightarrow> g j = v) \<Longrightarrow> foldl (\<lambda>d j. d(f j := g j)) d [0..<n] m = v"
proof (induction n)
  case (Suc n)
  show ?case
  proof (cases "f n = m")
    case True
    then show ?thesis using Suc.prems(3) [of n] by simp
  next
    case False
    then have "k < n" using Suc.prems(1,2) by (cases "k = n") auto
    then show ?thesis using Suc False by simp
  qed
qed simp

lemma word_of_int_inj: "0 \<le> a \<Longrightarrow> a < 2 ^ 32 \<Longrightarrow> 0 \<le> b \<Longrightarrow> b < 2 ^ 32 \<Longrightarrow> (word_of_int a :: u32) = word_of_int b \<longleftrightarrow> a = b"
  by (simp add: word_of_int_eq_iff take_bit_int_eq_self)

text \<open>The layout: the log lies within the disk, and the \<open>n\<close> logged blocks \<open>blk\<close> are different blocks outside of it.\<close>

definition log_layout :: "int \<Rightarrow> int \<Rightarrow> nat \<Rightarrow> (nat \<Rightarrow> int) \<Rightarrow> bool" where
  "log_layout sz st n blk \<longleftrightarrow> sz \<le> 2 ^ 31 \<and> 0 \<le> st \<and> st + 30 \<le> sz \<and> n < 30 \<and> inj_on blk {0..<n} \<and>
     (\<forall>k < n. 0 \<le> blk k \<and> blk k < sz \<and> \<not> (st \<le> blk k \<and> blk k < st + 30))"

lemma log_layout_facts:
  assumes "log_layout sz st n blk"
  shows "k < n \<Longrightarrow> k' < n \<Longrightarrow> (word_of_int (blk k) :: u32) = word_of_int (blk k') \<longleftrightarrow> k = k'"
    "k < 29 \<Longrightarrow> k' < 29 \<Longrightarrow> lb st k = lb st k' \<longleftrightarrow> k = k'" "k < 29 \<Longrightarrow> lb st k \<noteq> hb st"
    "k < n \<Longrightarrow> word_of_int (blk k) \<notin> log_area st" "hb st \<in> log_area st" "k < 29 \<Longrightarrow> lb st k \<in> log_area st"
proof -
  have st: "0 \<le> st" "st + 30 \<le> 2 ^ 31" "sz \<le> 2 ^ 31" "n < 30" using assms by (auto simp: log_layout_def)
  have blk: "0 \<le> blk k" "blk k < 2 ^ 31" "\<not> (st \<le> blk k \<and> blk k < st + 30)" if "k < n" for k
    using assms that st(3) by (auto simp: log_layout_def)
  show "k < n \<Longrightarrow> k' < n \<Longrightarrow> (word_of_int (blk k) :: u32) = word_of_int (blk k') \<longleftrightarrow> k = k'"
    using blk [of k] blk [of k'] assms by (auto simp: word_of_int_inj log_layout_def inj_on_def)
  show "k < 29 \<Longrightarrow> k' < 29 \<Longrightarrow> lb st k = lb st k' \<longleftrightarrow> k = k'"
    using st unfolding lb_def by (subst word_of_int_inj) auto
  show "k < 29 \<Longrightarrow> lb st k \<noteq> hb st"
    using st unfolding lb_def hb_def by (subst word_of_int_inj) auto
  show "k < n \<Longrightarrow> word_of_int (blk k) \<notin> log_area st"
  proof
    assume k: "k < n" "word_of_int (blk k) \<in> log_area st"
    then obtain j :: nat where j: "j < 30" "(word_of_int (blk k) :: u32) = word_of_int (st + int j)" by (auto simp: log_area_def)
    then have "blk k = st + int j" using blk [OF k(1)] st by (subst (asm) word_of_int_inj) auto
    then show False using blk(3) [OF k(1)] j(1) by auto
  qed
  show "hb st \<in> log_area st" unfolding hb_def log_area_def by (rule image_eqI [of _ _ 0]) auto
  show "k < 29 \<Longrightarrow> lb st k \<in> log_area st" unfolding lb_def log_area_def by (rule image_eqI [of _ _ "Suc k"]) (auto simp: algebra_simps)
qed

text \<open>The two kinds of disk a commit goes through: with an empty log, and with a complete one whose blocks may have
  been installed in part.  \<open>D\<close> is the data before the transaction, \<open>c k\<close> the new contents of the \<open>k\<close>-th block.\<close>

definition log_empty :: "int \<Rightarrow> (u32 \<Rightarrow> block) \<Rightarrow> (u32 \<Rightarrow> block) \<Rightarrow> bool" where
  "log_empty st D d \<longleftrightarrow> head_n (d (hb st)) = 0 \<and> (\<forall>m. m \<notin> log_area st \<longrightarrow> d m = D m)"

definition log_full :: "int \<Rightarrow> nat \<Rightarrow> (nat \<Rightarrow> int) \<Rightarrow> (nat \<Rightarrow> block) \<Rightarrow> (u32 \<Rightarrow> block) \<Rightarrow> (u32 \<Rightarrow> block) \<Rightarrow> bool" where
  "log_full st n blk c D d \<longleftrightarrow> head_n (d (hb st)) = int n \<and>
     (\<forall>k < n. head_block (d (hb st)) k = blk k \<and> d (lb st k) = c k) \<and>
     (\<forall>m. m \<notin> log_area st \<longrightarrow> d m = D m \<or> (\<exists>k < n. m = word_of_int (blk k) \<and> d m = c k))"

definition installed :: "nat \<Rightarrow> (nat \<Rightarrow> int) \<Rightarrow> (nat \<Rightarrow> block) \<Rightarrow> (u32 \<Rightarrow> block) \<Rightarrow> u32 \<Rightarrow> block" where
  "installed n blk c D = foldl (\<lambda>d k. d(word_of_int (blk k) := c k)) D [0..<n]"

lemma recovered_empty: "log_empty st D d \<Longrightarrow> m \<notin> log_area st \<Longrightarrow> recovered st d m = D m"
  by (simp add: log_empty_def recovered_def)

lemma installed_at:
  assumes "log_layout sz st n blk"
  shows "k < n \<Longrightarrow> installed n blk c D (word_of_int (blk k)) = c k"
    "(\<And>k. k < n \<Longrightarrow> m \<noteq> word_of_int (blk k)) \<Longrightarrow> installed n blk c D m = D m"
proof -
  show "k < n \<Longrightarrow> installed n blk c D (word_of_int (blk k)) = c k"
    unfolding installed_def by (rule foldl_upd_hit) (use log_layout_facts(1) [OF assms] in auto)
  show "(\<And>k. k < n \<Longrightarrow> m \<noteq> word_of_int (blk k)) \<Longrightarrow> installed n blk c D m = D m"
    unfolding installed_def by (rule foldl_upd_miss) auto
qed

lemma recovered_full:
  assumes l: "log_layout sz st n blk" and d: "log_full st n blk c D d" and m: "m \<notin> log_area st"
  shows "recovered st d m = installed n blk c D m"
proof -
  have h: "head_n (d (hb st)) = int n" "\<And>k. k < n \<Longrightarrow> head_block (d (hb st)) k = blk k \<and> d (lb st k) = c k"
    using d by (auto simp: log_full_def)
  show ?thesis
  proof (cases "\<exists>k < n. m = word_of_int (blk k)")
    case True
    then obtain k where k: "k < n" "m = word_of_int (blk k)" by blast
    have "recovered st d m = c k"
      unfolding recovered_def h(1) nat_int
      by (rule foldl_upd_hit [where k = k]) (use k h(2) log_layout_facts(1) [OF l] in auto)
    then show ?thesis using installed_at(1) [OF l k(1)] k(2) by simp
  next
    case False
    have "recovered st d m = d m"
      unfolding recovered_def h(1) nat_int by (rule foldl_upd_miss) (use False h(2) in auto)
    moreover have "d m = D m" using d m False by (auto simp: log_full_def)
    moreover have "installed n blk c D m = D m" by (rule installed_at(2) [OF l]) (use False in auto)
    ultimately show ?thesis by simp
  qed
qed

section \<open>The loops over the log\<close>

lemma bio_frame_log:
  "bio_frame s t \<Longrightarrow> log_start t = log_start s \<and> log_dev t = log_dev s \<and> lh_n t = lh_n s \<and> lh_block t = lh_block s \<and>
     outstanding t = outstanding s \<and> committing t = committing s \<and> log_size t = log_size s"
  for s t :: "'z log_state_scheme"
  by (cases s, cases t) (auto simp: bio_frame_def)

definition log_at :: "machine \<Rightarrow> nat \<Rightarrow> int \<Rightarrow> int \<Rightarrow> nat \<Rightarrow> (nat \<Rightarrow> int) \<Rightarrow> 'z log_state_scheme \<Rightarrow> bool" where
  "log_at m\<^sub>0 i pid st n blk s \<longleftrightarrow> with_bufs m\<^sub>0 i pid {} s \<and> log_dev s = 1 \<and> log_start s = st \<and> lh_n s = int n \<and>
     (\<forall>k < n. lh_block s ! k = blk k) \<and> length (lh_block s) = 30 \<and> log_layout (int (unat (disksize s))) st n blk"

lemma log_at_step: "log_at m\<^sub>0 i pid st n blk s \<Longrightarrow> bio_frame s t \<Longrightarrow> with_bufs m\<^sub>0 i pid {} t \<Longrightarrow> log_at m\<^sub>0 i pid st n blk t"
  using bio_frame_log [of s t] bio_frame_simps [of s t] by (simp add: log_at_def)

lemma block_in_range: "0 \<le> x \<Longrightarrow> x < int (unat sz) \<Longrightarrow> (word_of_int x :: u32) < sz"
proof -
  assume x: "0 \<le> x" "x < int (unat sz)"
  have "int (unat sz) < int (2 ^ 32)" unfolding of_nat_less_iff by (rule unat_u32)
  then have "int (unat (word_of_int x :: u32)) = x" using x by (simp add: uint_word_of_int_eq take_bit_int_eq_self)
  then show "word_of_int x < sz" using x by (metis of_nat_less_iff word_less_nat_alt)
qed

lemma log_blocks_in_range:
  assumes "log_at m\<^sub>0 i pid st n blk s"
  shows "k < 29 \<Longrightarrow> lb st k < disksize s" "hb st < disksize s" "k < n \<Longrightarrow> word_of_int (blk k) < disksize s"
proof -
  have l: "0 \<le> st" "st + 30 \<le> int (unat (disksize s))" "\<forall>k < n. 0 \<le> blk k \<and> blk k < int (unat (disksize s))"
    using assms unfolding log_at_def log_layout_def by blast+
  show "k < 29 \<Longrightarrow> lb st k < disksize s" "hb st < disksize s"
    unfolding lb_def hb_def by (rule block_in_range; use l in linarith)+
  show "k < n \<Longrightarrow> word_of_int (blk k) < disksize s" using l(3) by (intro block_in_range) auto
qed

text \<open>The homes of the logged blocks.\<close>

abbreviation homes :: "nat \<Rightarrow> (nat \<Rightarrow> int) \<Rightarrow> u32 set" where
  "homes n blk \<equiv> (\<lambda>k. word_of_int (blk k)) ` {0..<n}"

lemma card_homes: "card (homes n blk) \<le> n"
  using card_image_le [of "{0..<n}" "\<lambda>k. word_of_int (blk k) :: u32"] by simp

lemma homes_iff: "m \<in> homes n blk \<longleftrightarrow> (\<exists>k < n. m = word_of_int (blk k))"
  by auto

definition grown :: "((u32 \<Rightarrow> block) \<Rightarrow> bool) \<Rightarrow> 'z bio_state_scheme \<Rightarrow> 'z bio_state_scheme \<Rightarrow> bool" where
  "grown P s t \<longleftrightarrow> (\<exists>ds. disk_hist t = ds @ disk_hist s \<and> (\<forall>d \<in> set ds. P d))"

lemma grown_refl [simp]: "grown P s s"
  by (simp add: grown_def)

lemma grown_step: "grown P s t \<Longrightarrow> disk_hist u = d # disk_hist t \<Longrightarrow> P d \<Longrightarrow> grown P s u"
  unfolding grown_def by (metis append_Cons set_ConsD)

lemma grown_trans: "grown P s t \<Longrightarrow> grown P t u \<Longrightarrow> grown P s u"
proof -
  assume "grown P s t" "grown P t u"
  then obtain ds es where "disk_hist t = ds @ disk_hist s" "disk_hist u = es @ disk_hist t" "\<forall>d \<in> set ds. P d" "\<forall>d \<in> set es. P d"
    by (auto simp: grown_def)
  then show "grown P s u" unfolding grown_def by (intro exI [of _ "es @ ds"]) auto
qed

lemma grown_mono: "grown P s t \<Longrightarrow> (\<And>d. P d \<Longrightarrow> P' d) \<Longrightarrow> grown P' s t"
  unfolding grown_def by blast

lemma log_full_install:
  assumes l: "log_layout sz st n blk" and d: "log_full st n blk c D d" and k: "k < n"
  shows "log_full st n blk c D (d(word_of_int (blk k) := c k))"
proof -
  note lf = log_layout_facts [OF l]
  have n: "n < 30" using l by (simp add: log_layout_def)
  have "lb st j \<noteq> word_of_int (blk k)" if "j < n" for j using lf(4) [OF k] lf(6) [of j] n that by auto
  moreover have "hb st \<noteq> word_of_int (blk k)" using lf(4) [OF k] lf(5) by auto
  ultimately show ?thesis using d k unfolding log_full_def by auto
qed

text \<open>One round of either loop copies a block; the copy that is read first is the block of the log.\<close>

lemma copied_same: "same_store t u \<Longrightarrow> copied a b u v \<Longrightarrow> copied a b t v"
  using bio_frame_trans by (auto simp: same_store_def copied_def)

lemma wp_log_rounds:
  fixes t :: "'z log_state_scheme"
  assumes t: "log_at m\<^sub>0 i pid st n blk t" "k < n"
    and room: "finite D" "dirty_blocks (bufs t) \<subseteq> D" "card D < NBUF" "word_of_int (blk k) \<in> dirty_blocks (bufs t) \<or> card D + 1 < NBUF"
  shows "(\<And>v. with_bufs m\<^sub>0 i pid {} v \<Longrightarrow> copied (lb st k) (word_of_int (blk k)) t v \<Longrightarrow> Q () v) \<Longrightarrow>
     wp (bnd (get log_start) (\<lambda>start.
       bnd (bread_log (start + int k + 1)) (\<lambda>lbuf.
       bnd (get (\<lambda>s. lh_block s ! k)) (\<lambda>dst.
       bnd (bread_log dst) (\<lambda>dbuf.
       bnd (get_buf lbuf) (\<lambda>l.
       seq (upd_buf dbuf (\<lambda>x. x\<lparr>b_data := b_data l\<rparr>)) (
       seq (bwrite dbuf) (
       seq (brelse lbuf) (
       brelse dbuf))))))))) Q t" (is "PROP ?q1 \<Longrightarrow> wp ?install Q t")
    "(\<And>v. with_bufs m\<^sub>0 i pid {} v \<Longrightarrow> copied (word_of_int (blk k)) (lb st k) t v \<Longrightarrow> Q () v) \<Longrightarrow>
     wp (bnd (get log_start) (\<lambda>start.
       bnd (bread_log (start + int k + 1)) (\<lambda>to.
       bnd (get (\<lambda>s. lh_block s ! k)) (\<lambda>src.
       bnd (bread_log src) (\<lambda>from.
       bnd (get_buf from) (\<lambda>f.
       seq (upd_buf to (\<lambda>x. x\<lparr>b_data := b_data f\<rparr>)) (
       seq (bwrite to) (
       seq (brelse from) (
       brelse to))))))))) Q t" (is "PROP ?q2 \<Longrightarrow> wp ?log Q t")
proof -
  let ?h = "word_of_int (blk k) :: u32"
  have ld: "log_dev t = 1" "log_start t = st" "lh_block t ! k = blk k" "with_bufs m\<^sub>0 i pid {} t" "k < 29" using t by (auto simp: log_at_def log_layout_def)
  have "log_layout (int (unat (disksize t))) st n blk" using t(1) by (simp add: log_at_def)
  note lf = log_layout_facts [OF this]
  have ne: "lb st k \<noteq> ?h" using lf(4) [OF t(2)] lf(6) [OF ld(5)] by auto
  note rd = wp_bread2 [OF ld(4) log_blocks_in_range(1) [OF t(1) ld(5)] log_blocks_in_range(3) [OF t(1,2)] ne room]
  have M: "bnd (get (\<lambda>s. lh_block s ! k)) (\<lambda>dst. bnd (bread_log dst) (K b)) u es = bnd (bread 1 ?h) (K b) u es" if "bio_frame t u"
    for K :: "nat \<Rightarrow> nat \<Rightarrow> ('z log_state_scheme, unit) kM" and b u es
    using bio_frame_log [OF that] ld by (simp add: bnd_run get_run bread_log_def)
  have body: "wp (bnd (get log_start) (\<lambda>start. bnd (bread_log (start + int k + 1)) (\<lambda>b. bnd (get (\<lambda>s. lh_block s ! k)) (\<lambda>dst. bnd (bread_log dst) (K b))))) Q t"
    if K: "\<And>b b' u. with_bufs m\<^sub>0 i pid {b, b'} u \<Longrightarrow> same_store t u \<Longrightarrow> b \<noteq> b' \<Longrightarrow> b_blockno (bufs u ! b) = lb st k \<Longrightarrow> b_blockno (bufs u ! b') = ?h \<Longrightarrow>
      dirty (bufs u ! b) \<or> b_data (bufs u ! b) = disk t (lb st k) \<Longrightarrow> dirty (bufs u ! b') \<or> b_data (bufs u ! b') = disk t ?h \<Longrightarrow> wp (K b b') Q u"
    for K :: "nat \<Rightarrow> nat \<Rightarrow> ('z log_state_scheme, unit) kM"
  proof -
    let ?M = "\<lambda>b. bnd (get (\<lambda>s. lh_block s ! k)) (\<lambda>dst. bnd (bread_log dst) (K b))"
    have "wp (bnd (bread 1 (lb st k)) ?M) Q t" by (rule rd [where K = K and M = ?M]) (rule K M, assumption+)+
    then show ?thesis by (rule wp_same [rotated]) (simp add: bnd_run get_run bread_log_def ld lb_def)
  qed
  have held: "wp (bnd (get_buf a) (\<lambda>l. seq (upd_buf a' (\<lambda>x. x\<lparr>b_data := b_data l\<rparr>)) (seq (bwrite a') (seq (brelse a) (brelse a'))))) Q u"
    if "\<And>v. with_bufs m\<^sub>0 i pid {} v \<Longrightarrow> copied src dst t v \<Longrightarrow> Q () v" "src \<noteq> dst" "with_bufs m\<^sub>0 i pid {a, a'} u" "same_store t u" "a \<noteq> a'"
      "b_blockno (bufs u ! a) = src" "b_blockno (bufs u ! a') = dst" "dirty (bufs u ! a) \<or> b_data (bufs u ! a) = disk t src" for a a' u src dst
  proof (rule wp_copy_held [OF that(3,5)])
    show "dirty (bufs u ! a) \<or> b_data (bufs u ! a) = disk u (b_blockno (bufs u ! a))" using that(6,8) same_storeD(1) [OF that(4)] by simp
  qed (use that copied_same [OF that(4)] in simp_all)
  show "PROP ?q1 \<Longrightarrow> wp ?install Q t"
    by (rule body, rule held [where src = "lb st k" and dst = ?h]) (use ne in simp_all)
  show "PROP ?q2 \<Longrightarrow> wp ?log Q t"
    by (rule body, rule held [where src = ?h and dst = "lb st k"]) (use ne in \<open>simp_all add: insert_commute eq_commute\<close>)
qed

lemma homes_Suc: "homes (Suc k) blk = insert (word_of_int (blk k)) (homes k blk)"
  by (auto simp: atLeast0_lessThan_Suc)

text \<open>Installing: every disk on the way holds the complete log; at the end all blocks are home and no buffer is dirty.\<close>

lemma wp_install_trans:
  fixes s :: "'z log_state_scheme"
  assumes s: "log_at m\<^sub>0 i pid st n blk s" "log_full st n blk c D (disk s)" "dirty_blocks (bufs s) \<subseteq> homes n blk"
    and Q: "\<And>t. log_at m\<^sub>0 i pid st n blk t \<Longrightarrow> bio_frame s t \<Longrightarrow> log_full st n blk c D (disk t) \<Longrightarrow>
      (\<And>k. k < n \<Longrightarrow> disk t (word_of_int (blk k)) = c k) \<Longrightarrow> dirty_blocks (bufs t) = {} \<Longrightarrow> grown (log_full st n blk c D) s t \<Longrightarrow>
      disk t (hb st) = disk s (hb st) \<Longrightarrow> Q () t"
  shows "wp install_trans Q s"
proof -
  have lay: "log_layout (int (unat (disksize s))) st n blk" "lh_n s = int n" "n < 30" using s(1) by (auto simp: log_at_def log_layout_def)
  note lf = log_layout_facts [OF lay(1)]
  define I where "I k t \<longleftrightarrow> log_at m\<^sub>0 i pid st n blk t \<and> bio_frame s t \<and> log_full st n blk c D (disk t) \<and> (\<forall>j < k. disk t (word_of_int (blk j)) = c j) \<and>
     dirty_blocks (bufs t) = dirty_blocks (bufs s) - homes k blk \<and> grown (log_full st n blk c D) s t \<and> disk t (hb st) = disk s (hb st)"
    for k and t :: "'z log_state_scheme"
  have round: "I (Suc k) v" if k: "k < n" and I: "I k t" and v: "with_bufs m\<^sub>0 i pid {} v" "copied (lb st k) (word_of_int (blk k)) t v" for k t v
  proof -
    have t: "log_at m\<^sub>0 i pid st n blk t" "bio_frame s t" "log_full st n blk c D (disk t)" "grown (log_full st n blk c D) s t" using I by (simp_all add: I_def)
    have "lb st k \<notin> dirty_blocks (bufs t)" using I s(3) lf(4) lf(6) [of k] k lay(3) by (auto simp: I_def)
    then have src: "view (bufs t) (disk t) (lb st k) = c k"
      using view_clean [of pid "bufs t" "sleeplocks t" "disk t" "disksize t" "lb st k"] t(1,3) k by (simp add: log_full_def log_at_def with_bufs_def)
    have dv: "disk v = (disk t)(word_of_int (blk k) := c k)" "disk_hist v = disk t # disk_hist t"
      "dirty_blocks (bufs v) = dirty_blocks (bufs t) - {word_of_int (blk k)}" "bio_frame t v" using v(2) src by (simp_all add: copied_def)
    have "disk v (word_of_int (blk j)) = c j" if "j < Suc k" for j
      using that I lf(1) [of j k] k by (cases "j = k") (auto simp: dv(1) I_def)
    moreover have "disk v (hb st) = disk s (hb st)" using I lf(4) [OF k] lf(5) by (auto simp: dv(1) I_def)
    moreover have "log_full st n blk c D (disk v)" unfolding dv(1) by (rule log_full_install [OF lay(1) t(3) k])
    moreover have "dirty_blocks (bufs v) = dirty_blocks (bufs s) - homes (Suc k) blk" using dv(3) I unfolding homes_Suc by (auto simp: I_def)
    ultimately show ?thesis
      using log_at_step [OF t(1) dv(4) v(1)] bio_frame_trans [OF t(2) dv(4)] grown_step [OF t(4) dv(2) t(3)] by (simp add: I_def)
  qed
  have room: "card (dirty_blocks (bufs t)) < NBUF" "word_of_int (blk k) \<in> dirty_blocks (bufs t) \<or> card (dirty_blocks (bufs t)) + 1 < NBUF"
    if "k < n" "I k t" for k t
  proof -
    have sub: "dirty_blocks (bufs t) \<subseteq> homes n blk" using that s(3) by (auto simp: I_def)
    have c: "card (homes n blk) \<le> n" by (rule card_homes)
    show "card (dirty_blocks (bufs t)) < NBUF" using card_mono [OF _ sub] c lay(3) by simp
    show "word_of_int (blk k) \<in> dirty_blocks (bufs t) \<or> card (dirty_blocks (bufs t)) + 1 < NBUF"
      using psubset_card_mono [of "homes n blk" "dirty_blocks (bufs t)"] sub that(1) c lay(3)
      by (cases "dirty_blocks (bufs t) = homes n blk") (simp_all add: psubset_eq)
  qed
  have "wp install_trans (\<lambda>_. I n) s"
    unfolding install_trans_def
  proof (rule wp_bnd, simp only: wp_get lay(2) nat_int, rule wp_for_upt)
    show "I 0 s" using s by (simp add: I_def)
    fix k t assume k: "k < n" "I k t"
    then have t: "log_at m\<^sub>0 i pid st n blk t" by (simp add: I_def)
    show "wp (bnd (get log_start) (\<lambda>start.
       bnd (bread_log (start + int k + 1)) (\<lambda>lbuf.
       bnd (get (\<lambda>s. lh_block s ! k)) (\<lambda>dst.
       bnd (bread_log dst) (\<lambda>dbuf.
       bnd (get_buf lbuf) (\<lambda>l.
       seq (upd_buf dbuf (\<lambda>x. x\<lparr>b_data := b_data l\<rparr>)) (
       seq (bwrite dbuf) (
       seq (brelse lbuf) (
       brelse dbuf))))))))) (\<lambda>_. I (Suc k)) t"
      by (rule wp_log_rounds(1) [OF t k(1) finite_dirty_blocks order_refl room [OF k]]) (rule round [OF k])
  qed
  then show ?thesis by (rule wp_mono) (use Q s(3) in \<open>auto simp: I_def\<close>)
qed

text \<open>Logging: the data stays as it was and the header stays empty, while the cached contents of the logged blocks
  are copied into the log.\<close>

lemma wp_write_log:
  fixes s :: "'z log_state_scheme"
  assumes s: "log_at m\<^sub>0 i pid st n blk s" "log_empty st D (disk s)" "dirty_blocks (bufs s) = homes n blk"
    and c: "\<And>k. k < n \<Longrightarrow> view (bufs s) (disk s) (word_of_int (blk k)) = c k"
    and Q: "\<And>t. log_at m\<^sub>0 i pid st n blk t \<Longrightarrow> bio_frame s t \<Longrightarrow> log_empty st D (disk t) \<Longrightarrow> disk t (hb st) = disk s (hb st) \<Longrightarrow>
      (\<And>k. k < n \<Longrightarrow> disk t (lb st k) = c k) \<Longrightarrow> dirty_blocks (bufs t) = homes n blk \<Longrightarrow> grown (log_empty st D) s t \<Longrightarrow> Q () t"
  shows "wp write_log Q s"
proof -
  have lay: "log_layout (int (unat (disksize s))) st n blk" "lh_n s = int n" "n < 30" using s(1) by (auto simp: log_at_def log_layout_def)
  note lf = log_layout_facts [OF lay(1)]
  define I where "I k t \<longleftrightarrow> log_at m\<^sub>0 i pid st n blk t \<and> bio_frame s t \<and> log_empty st D (disk t) \<and> disk t (hb st) = disk s (hb st) \<and>
     (\<forall>j < k. disk t (lb st j) = c j) \<and> dirty_blocks (bufs t) = homes n blk \<and>
     (\<forall>j < n. view (bufs t) (disk t) (word_of_int (blk j)) = c j) \<and> grown (log_empty st D) s t"
    for k and t :: "'z log_state_scheme"
  have round: "I (Suc k) v" if k: "k < n" and I: "I k t" and v: "with_bufs m\<^sub>0 i pid {} v" "copied (word_of_int (blk k)) (lb st k) t v" for k t v
  proof -
    have t: "log_at m\<^sub>0 i pid st n blk t" "bio_frame s t" "log_empty st D (disk t)" "grown (log_empty st D) s t"
      "view (bufs t) (disk t) (word_of_int (blk k)) = c k" using I k by (simp_all add: I_def)
    have dv: "disk v = (disk t)(lb st k := c k)" "disk_hist v = disk t # disk_hist t" "dirty_blocks (bufs v) = dirty_blocks (bufs t) - {lb st k}" "bio_frame t v"
      "view (bufs v) (disk v) = (view (bufs t) (disk t))(lb st k := c k)" using v(2) unfolding copied_def t(5) by blast+
    have ne: "lb st k \<noteq> hb st" "lb st k \<in> log_area st" "lb st k \<notin> homes n blk" using lf(4) lf(6) [of k] lf(3) [of k] k lay(3) by auto
    have "log_empty st D (disk v)" using t(3) ne(1,2) unfolding log_empty_def dv(1) by auto
    moreover have "disk v (lb st j) = c j" if "j < Suc k" for j
      using that I lf(2) [of j k] k lay(3) by (cases "j = k") (auto simp: dv(1) I_def)
    moreover have "dirty_blocks (bufs v) = homes n blk" using dv(3) I ne(3) by (auto simp: I_def)
    moreover have "view (bufs v) (disk v) (word_of_int (blk j)) = c j" if "j < n" for j
    proof -
      have "word_of_int (blk j) \<noteq> lb st k" using ne(3) that by (metis (no_types, lifting) atLeastLessThan_iff image_iff zero_le)
      then show ?thesis using I that unfolding dv(5) by (simp add: I_def)
    qed
    moreover have "disk v (hb st) = disk s (hb st)" using I ne(1) by (simp add: dv(1) I_def)
    ultimately show "I (Suc k) v"
      using log_at_step [OF t(1) dv(4) v(1)] bio_frame_trans [OF t(2) dv(4)] grown_step [OF t(4) dv(2) t(3)] by (simp add: I_def)
  qed
  have "wp write_log (\<lambda>_. I n) s"
    unfolding write_log_def
  proof (rule wp_bnd, simp only: wp_get lay(2) nat_int, rule wp_for_upt)
    show "I 0 s" using s c by (simp add: I_def)
    fix k t assume k: "k < n" "I k t"
    then have t: "log_at m\<^sub>0 i pid st n blk t" "dirty_blocks (bufs t) \<subseteq> homes n blk" "word_of_int (blk k) \<in> dirty_blocks (bufs t) \<or> card (homes n blk) + 1 < NBUF"
      by (simp_all add: I_def)
    have "card (homes n blk) < NBUF" using card_homes [where n = n and blk = blk] lay(3) by simp
    note rounds = wp_log_rounds(2) [OF t(1) k(1) finite_imageI [OF finite_atLeastLessThan] t(2) this t(3)]
    show "wp (bnd (get log_start) (\<lambda>start.
       bnd (bread_log (start + int k + 1)) (\<lambda>to.
       bnd (get (\<lambda>s. lh_block s ! k)) (\<lambda>src.
       bnd (bread_log src) (\<lambda>from.
       bnd (get_buf from) (\<lambda>f.
       seq (upd_buf to (\<lambda>x. x\<lparr>b_data := b_data f\<rparr>)) (
       seq (bwrite to) (
       seq (brelse from) (
       brelse to))))))))) (\<lambda>_. I (Suc k)) t"
      by (rule rounds) (rule round [OF k])
  qed
  then show ?thesis by (rule wp_mono) (use Q in \<open>auto simp: I_def\<close>)
qed

text \<open>Writing the header.\<close>

definition head_upto :: "nat \<Rightarrow> (nat \<Rightarrow> int) \<Rightarrow> nat \<Rightarrow> block \<Rightarrow> bool" where
  "head_upto n blk k d \<longleftrightarrow> length d = BSIZE \<and> get32 d 0 = word_of_int (int n) \<and> (\<forall>j < k. get32 d (4 + 4 * j) = word_of_int (blk j))"

lemma head_upto_0: "length d = BSIZE \<Longrightarrow> head_upto n blk 0 (put32 d 0 (word_of_int (int n)))"
  by (simp add: head_upto_def get32_put32_same)

lemma head_upto_Suc:
  assumes "head_upto n blk k d" "k < 30"
  shows "head_upto n blk (Suc k) (put32 d (4 + 4 * k) (word_of_int (blk k)))"
proof -
  have l: "4 + 4 * k + 4 \<le> length d" using assms by (simp add: head_upto_def)
  have "get32 (put32 d (4 + 4 * k) (word_of_int (blk k))) (4 + 4 * j) = word_of_int (blk j)" if "j < Suc k" for j
    using that assms l by (cases "j = k") (simp_all add: get32_put32_same get32_put_other head_upto_def)
  then show ?thesis using assms l by (simp add: head_upto_def get32_put_other)
qed

lemma head_upto_head:
  assumes "head_upto n blk n d" "log_layout sz st n blk"
  shows "head_n d = int n" "k < n \<Longrightarrow> head_block d k = blk k"
proof -
  show "head_n d = int n" using assms sint_word_of_int [of "int n"] by (simp add: head_upto_def head_n_def log_layout_def)
  show "k < n \<Longrightarrow> head_block d k = blk k"
    using assms sint_word_of_int [of "blk k"] by (auto simp: head_upto_def head_block_def log_layout_def)
qed

text \<open>A held buffer with new data, and what writing and releasing it does.\<close>

definition edited :: "nat \<Rightarrow> block \<Rightarrow> 'z bio_state_scheme \<Rightarrow> 'z bio_state_scheme" where
  "edited b d s = s\<lparr>bufs := (bufs s)[b := (bufs s ! b)\<lparr>b_data := d\<rparr>]\<rparr>"

lemma wp_store_held:
  assumes s: "with_bufs m\<^sub>0 i pid {b} s"
    and Q: "\<And>t. with_bufs m\<^sub>0 i pid {} t \<Longrightarrow> bio_frame s t \<Longrightarrow> disk t = (disk s)(b_blockno (bufs s ! b) := d) \<Longrightarrow> disk_hist t = disk s # disk_hist s \<Longrightarrow>
      dirty_blocks (bufs t) = dirty_blocks (bufs s) - {b_blockno (bufs s ! b)} \<Longrightarrow> Q () t"
  shows "wp (seq (bwrite b) (brelse b)) Q (edited b d s)"
proof -
  let ?s = "edited b d s"
  have c: "calm m\<^sub>0 i pid s" "cache {b} pid (bufs s) (sleeplocks s) (disk s) (disksize s)" using s by (simp_all add: with_bufs_def)
  note cd = cache_data [OF c(2) singletonI, of d]
  have len: "b < length (bufs s)" using cache_len [OF c(2)] cache_held(1) [OF c(2), of b] by simp
  have e: "with_bufs m\<^sub>0 i pid {b} ?s" using c(1) cd(1) by (simp add: with_bufs_def calm_def edited_def)
  have f: "bio_frame s ?s" by (cases s) (simp add: bio_frame_def edited_def)
  have at: "bufs ?s ! b = (bufs s ! b)\<lparr>b_data := d\<rparr>" "disk ?s = disk s" "disk_hist ?s = disk_hist s" "dirty_blocks (bufs ?s) = dirty_blocks (bufs s)"
    using len cd(3) by (simp_all add: edited_def)
  show ?thesis
  proof (rule wp_seq, rule wp_bwrite [OF e singletonI])
    fix t
    assume t: "with_bufs m\<^sub>0 i pid {b} t" "bio_frame ?s t" "disk t = (disk ?s)(b_blockno (bufs ?s ! b) := b_data (bufs ?s ! b))" "disk_hist t = disk ?s # disk_hist ?s"
      "dirty_blocks (bufs t) = dirty_blocks (bufs ?s) - {b_blockno (bufs ?s ! b)}" "b_blockno (bufs t ! b) = b_blockno (bufs ?s ! b)" "b_data (bufs t ! b) = b_data (bufs ?s ! b)"
    show "wp (brelse b) Q t"
    proof (rule wp_brelse [OF t(1) singletonI])
      show "dirty (bufs t ! b) \<or> b_data (bufs t ! b) = disk t (b_blockno (bufs t ! b))" using t(3,6,7) at by simp
      fix u assume u: "with_bufs m\<^sub>0 i pid ({b} - {b}) u" "same_store t u"
      note tu = same_storeD [OF u(2)]
      show "Q () u"
        using u(1) bio_frame_trans [OF f bio_frame_trans [OF t(2) tu(5)]] tu t(3-5) at by (intro Q) simp_all
    qed
  qed
qed

lemma wp_write_head:
  fixes s :: "'z log_state_scheme"
  assumes s: "log_at m\<^sub>0 i pid st n blk s" "hb st \<notin> dirty_blocks (bufs s)" "card (dirty_blocks (bufs s)) < NBUF" "length (disk s (hb st)) = BSIZE"
    and Q: "\<And>t hd. log_at m\<^sub>0 i pid st n blk t \<Longrightarrow> bio_frame s t \<Longrightarrow> disk t = (disk s)(hb st := hd) \<Longrightarrow> disk_hist t = disk s # disk_hist s \<Longrightarrow>
      dirty_blocks (bufs t) = dirty_blocks (bufs s) \<Longrightarrow> length hd = BSIZE \<Longrightarrow> head_n hd = int n \<Longrightarrow> (\<And>k. k < n \<Longrightarrow> head_block hd k = blk k) \<Longrightarrow> Q () t"
  shows "wp write_head Q s"
proof -
  have l: "log_dev s = 1" "log_start s = st" "lh_n s = int n" "with_bufs m\<^sub>0 i pid {} s" "\<And>k. k < n \<Longrightarrow> lh_block s ! k = blk k"
    "log_layout (int (unat (disksize s))) st n blk" "n < 30" using s(1) by (auto simp: log_at_def log_layout_def)
  have clean: "view (bufs s) (disk s) (hb st) = disk s (hb st)" using view_clean s(2) l(4) by (auto simp: with_bufs_def)
  let ?rest = "\<lambda>b. bnd (get lh_n) (\<lambda>n. seq (upd_buf b (\<lambda>x. x\<lparr>b_data := put32 (b_data x) 0 (word_of_int n)\<rparr>)) (
     seq (forM [0..<nat n] (\<lambda>i. bnd (get (\<lambda>s. lh_block s ! i)) (\<lambda>blk. upd_buf b (\<lambda>x. x\<lparr>b_data := put32 (b_data x) (4 + 4 * i) (word_of_int blk)\<rparr>)))) (
     seq (bwrite b) (brelse b)))) :: ('z log_state_scheme, unit) kM"
  have "wp (bnd (bread 1 (hb st)) ?rest) Q s"
  proof (rule wp_bnd, rule wp_bread [OF l(4) log_blocks_in_range(2) [OF s(1)], where D = "dirty_blocks (bufs s)"])
    fix b and t :: "'z log_state_scheme"
    assume t: "with_bufs m\<^sub>0 i pid {b} t" "same_store s t" "b_blockno (bufs t ! b) = hb st" "b_data (bufs t ! b) = view (bufs s) (disk s) (hb st)"
    note st = same_storeD [OF t(2)]
    have len: "b < length (bufs t)" using t(1) cache_len cache_held(1) by (fastforce simp: with_bufs_def)
    have lt: "lh_n t = int n" "lh_block t = lh_block s" using bio_frame_log [OF st(5)] l(3) by simp_all
    define I where "I k u \<longleftrightarrow> (\<exists>d. u = edited b d t \<and> head_upto n blk k d)" for k and u :: "'z log_state_scheme"
    have "wp (forM [0..<n] (\<lambda>i. bnd (get (\<lambda>s. lh_block s ! i)) (\<lambda>blk. upd_buf b (\<lambda>x. x\<lparr>b_data := put32 (b_data x) (4 + 4 * i) (word_of_int blk)\<rparr>))))
        (\<lambda>_. I n) (edited b (put32 (b_data (bufs t ! b)) 0 (word_of_int (int n))) t)"
    proof (rule wp_for_upt)
      have "length (b_data (bufs t ! b)) = BSIZE" using t(4) clean s(4) by simp
      then show "I 0 (edited b (put32 (b_data (bufs t ! b)) 0 (word_of_int (int n))) t)" using head_upto_0 by (auto simp: I_def)
      fix k u assume k: "k < n" "I k u"
      then obtain d where d: "u = edited b d t" "head_upto n blk k d" by (auto simp: I_def)
      have "I (Suc k) (edited b (put32 d (4 + 4 * k) (word_of_int (blk k))) t)" using head_upto_Suc [OF d(2)] k(1) l(7) by (auto simp: I_def)
      then show "wp (bnd (get (\<lambda>s. lh_block s ! k)) (\<lambda>blk. upd_buf b (\<lambda>x. x\<lparr>b_data := put32 (b_data x) (4 + 4 * k) (word_of_int blk)\<rparr>))) (\<lambda>_. I (Suc k)) u"
        using len lt(2) l(5) [OF k(1)] unfolding d(1) by (intro wp_bnd) (simp add: wps upd_buf_def edited_def)
    qed
    then have "wp (seq (forM [0..<n] (\<lambda>i. bnd (get (\<lambda>s. lh_block s ! i)) (\<lambda>blk. upd_buf b (\<lambda>x. x\<lparr>b_data := put32 (b_data x) (4 + 4 * i) (word_of_int blk)\<rparr>)))) (
        seq (bwrite b) (brelse b))) Q (edited b (put32 (b_data (bufs t ! b)) 0 (word_of_int (int n))) t)"
    proof (rule wp_seq [OF wp_mono])
      fix a and u :: "'z log_state_scheme" assume "I n u"
      then obtain d where d: "u = edited b d t" "head_upto n blk n d" by (auto simp: I_def)
      show "wp (seq (bwrite b) (brelse b)) Q u"
        unfolding d(1)
      proof (rule wp_store_held [OF t(1)])
        fix v :: "'z log_state_scheme"
        assume v: "with_bufs m\<^sub>0 i pid {} v" "bio_frame t v" "disk v = (disk t)(b_blockno (bufs t ! b) := d)" "disk_hist v = disk t # disk_hist t"
          "dirty_blocks (bufs v) = dirty_blocks (bufs t) - {b_blockno (bufs t ! b)}"
        have sv: "bio_frame s v" by (rule bio_frame_trans [OF st(5) v(2)])
        show "Q () v"
          using v(3-5) st t(3) s(2) d(2) by (intro Q [OF log_at_step [OF s(1) sv v(1)] sv]) (auto simp: head_upto_head [OF d(2) l(6)] head_upto_def)
      qed
    qed
    then show "wp (?rest b) Q t"
      by (intro wp_bnd, simp only: wp_get lt(1) nat_int, intro wp_seq) (simp add: wps upd_buf_def edited_def)
  qed (use s(2,3) finite_dirty_blocks in auto)
  then show ?thesis
    unfolding write_head_def by (rule wp_same [rotated]) (simp add: bnd_run get_run bread_log_def l hb_def)
qed

section \<open>Crash safety\<close>

text \<open>What the system reads outside the log after a crash on the disk \<open>d\<close>, once the log has been recovered.\<close>

definition recovers_to :: "int \<Rightarrow> (u32 \<Rightarrow> block) \<Rightarrow> (u32 \<Rightarrow> block) \<Rightarrow> bool" where
  "recovers_to st f d \<longleftrightarrow> (\<forall>m. m \<notin> log_area st \<longrightarrow> recovered st d m = f m)"

lemma installed_view:
  assumes s: "log_at m\<^sub>0 i pid st n blk s" "dirty_blocks (bufs s) = homes n blk"
  shows "installed n blk (\<lambda>k. view (bufs s) (disk s) (word_of_int (blk k))) (disk s) = view (bufs s) (disk s)"
proof
  fix m
  have l: "log_layout (int (unat (disksize s))) st n blk" "cache {} pid (bufs s) (sleeplocks s) (disk s) (disksize s)"
    using s(1) by (simp_all add: log_at_def with_bufs_def)
  show "installed n blk (\<lambda>k. view (bufs s) (disk s) (word_of_int (blk k))) (disk s) m = view (bufs s) (disk s) m"
  proof (cases "m \<in> homes n blk")
    case True
    then obtain k where "k < n" "m = word_of_int (blk k)" by auto
    then show ?thesis by (simp add: installed_at(1) [OF l(1)])
  next
    case False
    then show ?thesis using installed_at(2) [OF l(1), of m] view_clean [OF l(2), of m] s(2) by (simp add: homes_iff)
  qed
qed

lemma log_at_clear:
  assumes "log_at m\<^sub>0 i pid st n blk t"
  shows "log_at m\<^sub>0 i pid st 0 blk (t\<lparr>lh_n := 0\<rparr>)"
  using assms by (simp add: log_at_def log_layout_def with_bufs_def calm_def)

lemma log_full_done:
  assumes "log_layout sz st n blk" "log_full st n blk c D d" "\<And>k. k < n \<Longrightarrow> d (word_of_int (blk k)) = c k" "m \<notin> log_area st"
  shows "d m = installed n blk c D m"
proof (cases "m \<in> homes n blk")
  case True
  then show ?thesis using assms(3) installed_at(1) [OF assms(1)] by auto
next
  case False
  then have "installed n blk c D m = D m" using installed_at(2) [OF assms(1), of m c D] by (simp add: homes_iff)
  moreover have "d m = D m" using False assms(2,4) by (simp add: homes_iff log_full_def) blast
  ultimately show ?thesis by simp
qed

text \<open>Everything but the buffers, the disk and the count of logged blocks stays.\<close>

definition log_kept :: "'z log_state_scheme \<Rightarrow> 'z log_state_scheme \<Rightarrow> bool" where
  "log_kept s t \<longleftrightarrow> bio_frame (s\<lparr>lh_n := 0\<rparr>) (t\<lparr>lh_n := 0\<rparr>)"

lemma log_keptI: "bio_frame s t \<Longrightarrow> log_kept s t"
  by (cases s, cases t) (auto simp: log_kept_def bio_frame_def)

lemma log_kept_clear [simp]: "log_kept s (t\<lparr>lh_n := n\<rparr>) \<longleftrightarrow> log_kept s t"
  by (simp add: log_kept_def)

lemma log_kept_trans: "log_kept s t \<Longrightarrow> log_kept t u \<Longrightarrow> log_kept s u"
  unfolding log_kept_def by (rule bio_frame_trans)

lemma log_kept_fields: "log_kept s t \<Longrightarrow> outstanding t = outstanding s \<and> committing t = committing s \<and> log_start t = log_start s"
  using bio_frame_log [of "s\<lparr>lh_n := 0\<rparr>" "t\<lparr>lh_n := 0\<rparr>"] by (simp add: log_kept_def)

text \<open>Emptying the log once it has been installed.\<close>

lemma wp_install_and_clear:
  fixes s :: "'z log_state_scheme"
  assumes s: "log_at m\<^sub>0 i pid st n blk s" "log_full st n blk c D (disk s)" "dirty_blocks (bufs s) \<subseteq> homes n blk" "length (disk s (hb st)) = BSIZE"
  shows "wp (seq install_trans (seq (upd (\<lambda>s. s\<lparr>lh_n := 0\<rparr>)) write_head)) (\<lambda>_ t. with_bufs m\<^sub>0 i pid {} t \<and> lh_n t = 0 \<and> dirty_blocks (bufs t) = {} \<and>
     log_empty st (installed n blk c D) (disk t) \<and> grown (log_full st n blk c D) s t \<and> log_kept s t) s"
proof (rule wp_seq, rule wp_install_trans [OF s(1-3)], rule wp_seq, simp only: wp_upd)
  fix t :: "'z log_state_scheme"
  assume t: "log_at m\<^sub>0 i pid st n blk t" "bio_frame s t" "log_full st n blk c D (disk t)" "\<And>k. k < n \<Longrightarrow> disk t (word_of_int (blk k)) = c k"
    "dirty_blocks (bufs t) = {}" "grown (log_full st n blk c D) s t" "disk t (hb st) = disk s (hb st)"
  have l: "log_layout (int (unat (disksize t))) st n blk" using t(1) by (simp add: log_at_def)
  show "wp write_head (\<lambda>_ t. with_bufs m\<^sub>0 i pid {} t \<and> lh_n t = 0 \<and> dirty_blocks (bufs t) = {} \<and>
     log_empty st (installed n blk c D) (disk t) \<and> grown (log_full st n blk c D) s t \<and> log_kept s t) (t\<lparr>lh_n := 0\<rparr>)"
  proof (rule wp_write_head [OF log_at_clear [OF t(1)]])
    fix u :: "'z log_state_scheme" and hd
    assume u: "log_at m\<^sub>0 i pid st 0 blk u" "bio_frame (t\<lparr>lh_n := 0\<rparr>) u" "disk u = (disk (t\<lparr>lh_n := 0\<rparr>))(hb st := hd)" "disk_hist u = disk (t\<lparr>lh_n := 0\<rparr>) # disk_hist (t\<lparr>lh_n := 0\<rparr>)"
      "dirty_blocks (bufs u) = dirty_blocks (bufs (t\<lparr>lh_n := 0\<rparr>))" "head_n hd = int 0"
    have "log_empty st (installed n blk c D) (disk u)"
      using u(3,6) log_full_done [OF l t(3,4)] log_layout_facts(5) [OF l] by (auto simp: log_empty_def)
    moreover have "grown (log_full st n blk c D) s u" using grown_step [OF t(6) _ t(3)] u(4) by simp
    moreover have "log_kept s u" using log_kept_trans [OF _ log_keptI [OF u(2)], of s] log_keptI [OF t(2)] by simp
    ultimately show "with_bufs m\<^sub>0 i pid {} u \<and> lh_n u = 0 \<and> dirty_blocks (bufs u) = {} \<and>
     log_empty st (installed n blk c D) (disk u) \<and> grown (log_full st n blk c D) s u \<and> log_kept s u"
      using u(1,5) t(5) by (simp add: log_at_def)
  qed (use t(5,7) s(4) in simp_all)
qed

lemma wp_commit:
  fixes s :: "'z log_state_scheme"
  assumes s: "log_at m\<^sub>0 i pid st n blk s" "head_n (disk s (hb st)) = 0" "length (disk s (hb st)) = BSIZE" "dirty_blocks (bufs s) = homes n blk"
    and Q: "\<And>t u. log_empty st (view (bufs s) (disk s)) (disk u) \<Longrightarrow> with_bufs m\<^sub>0 i pid {} u \<Longrightarrow> lh_n u = 0 \<Longrightarrow> dirty_blocks (bufs u) = {} \<Longrightarrow>
      grown (recovers_to st (disk s)) s t \<Longrightarrow> grown (recovers_to st (view (bufs s) (disk s))) t u \<Longrightarrow> log_kept s u \<Longrightarrow> Q () u"
  shows "wp commit Q s"
proof (cases "n = 0")
  case True
  have c: "cache {} pid (bufs s) (sleeplocks s) (disk s) (disksize s)" and w: "with_bufs m\<^sub>0 i pid {} s" and n: "lh_n s = 0"
    using s(1) True by (simp_all add: log_at_def with_bufs_def)
  have "view (bufs s) (disk s) = disk s" using view_clean [OF c] s(4) True by auto
  then have "Q () s" using s(2,4) w n True by (intro Q [of s s]) (simp_all add: log_empty_def log_keptI)
  then show ?thesis unfolding commit_def by (intro wp_bnd) (simp add: wps n whenM_def)
next
  case False
  define c where "c k = view (bufs s) (disk s) (word_of_int (blk k))" for k
  have l: "log_layout (int (unat (disksize s))) st n blk" "lh_n s = int n" "n < 30" using s(1) by (auto simp: log_at_def log_layout_def)
  note lf = log_layout_facts [OF l(1)]
  have iv: "installed n blk c (disk s) = view (bufs s) (disk s)" using installed_view [OF s(1,4)] by (simp add: c_def [abs_def])
  have old: "recovers_to st (disk s) d" if "log_empty st (disk s) d" for d using recovered_empty [OF that] by (simp add: recovers_to_def)
  have new: "recovers_to st (view (bufs s) (disk s)) d" if "log_full st n blk c (disk s) d" for d
    using recovered_full [OF l(1) that] iv by (simp add: recovers_to_def)
  have "wp (seq write_log (seq write_head (seq install_trans (seq (upd (\<lambda>s. s\<lparr>lh_n := 0\<rparr>)) write_head)))) Q s"
  proof (rule wp_seq, rule wp_write_log [where c = c and D = "disk s", OF s(1) _ s(4)])
    show "log_empty st (disk s) (disk s)" using s(2) by (simp add: log_empty_def)
    fix t :: "'z log_state_scheme"
    assume t: "log_at m\<^sub>0 i pid st n blk t" "bio_frame s t" "log_empty st (disk s) (disk t)" "disk t (hb st) = disk s (hb st)"
      "\<And>k. k < n \<Longrightarrow> disk t (lb st k) = c k" "dirty_blocks (bufs t) = homes n blk" "grown (log_empty st (disk s)) s t"
    have "hb st \<notin> homes n blk" using lf(4,5) by auto
    moreover have "card (homes n blk) < NBUF" using card_homes [where n = n and blk = blk] l(3) by simp
    ultimately show "wp (seq write_head (seq install_trans (seq (upd (\<lambda>s. s\<lparr>lh_n := 0\<rparr>)) write_head))) Q t"
    proof (intro wp_seq [where m = write_head], intro wp_write_head [OF t(1)])
      fix u :: "'z log_state_scheme" and hd
      assume u: "log_at m\<^sub>0 i pid st n blk u" "bio_frame t u" "disk u = (disk t)(hb st := hd)" "disk_hist u = disk t # disk_hist t"
        "dirty_blocks (bufs u) = dirty_blocks (bufs t)" "length hd = BSIZE" "head_n hd = int n" "\<And>k. k < n \<Longrightarrow> head_block hd k = blk k"
      have "log_full st n blk c (disk s) (disk u)"
        using u(3,7,8) t(3,5) lf(3,5) l(3) by (auto simp: log_full_def log_empty_def)
      note w = wp_install_and_clear [OF u(1) this]
      have ol: "grown (recovers_to st (disk s)) s u" by (rule grown_mono [OF grown_step [OF t(7) u(4) t(3)] old])
      show "wp (seq install_trans (seq (upd (\<lambda>s. s\<lparr>lh_n := 0\<rparr>)) write_head)) Q u"
      proof (rule wp_mono [OF w])
        fix x and v :: "'z log_state_scheme"
        assume v: "with_bufs m\<^sub>0 i pid {} v \<and> lh_n v = 0 \<and> dirty_blocks (bufs v) = {} \<and>
          log_empty st (installed n blk c (disk s)) (disk v) \<and> grown (log_full st n blk c (disk s)) u v \<and> log_kept u v"
        moreover have "log_kept s u" using log_keptI [OF bio_frame_trans [OF t(2) u(2)]] .
        ultimately have k: "log_kept s v" using log_kept_trans by blast
        from v have "grown (recovers_to st (view (bufs s) (disk s))) u v" using grown_mono new by blast
        with v ol iv k have "Q () v" by (intro Q [of v u]) simp_all
        then show "Q x v" by simp
      qed (use u(3,5,6) t(6) in simp_all)
    qed (use t(4,6) s(3) in simp_all)
  qed (simp add: c_def)
  then show ?thesis unfolding commit_def using False by (intro wp_bnd) (simp add: wps l(2) whenM_def)
qed

lemma wp_read_head:
  fixes s :: "'z log_state_scheme"
  assumes s: "with_bufs m\<^sub>0 i pid {} s" "log_dev s = 1" "log_start s = st" "length (lh_block s) = 30" "dirty_blocks (bufs s) = {}"
    and l: "head_n (disk s (hb st)) = int n" "log_layout (int (unat (disksize s))) st n (head_block (disk s (hb st)))"
    and Q: "\<And>t. log_at m\<^sub>0 i pid st n (head_block (disk s (hb st))) t \<Longrightarrow> disk t = disk s \<Longrightarrow> disk_hist t = disk_hist s \<Longrightarrow> dirty_blocks (bufs t) = {} \<Longrightarrow> Q () t"
  shows "wp read_head Q s"
proof -
  let ?blk = "head_block (disk s (hb st))"
  have c: "cache {} pid (bufs s) (sleeplocks s) (disk s) (disksize s)" using s(1) by (simp add: with_bufs_def)
  have hb: "hb st < disksize s" using l(2) unfolding hb_def log_layout_def by (intro block_in_range) auto
  have n: "n < 30" using l(2) by (simp add: log_layout_def)
  let ?rest = "\<lambda>b. bnd (get_buf b) (\<lambda>x. seq (upd (\<lambda>s. s\<lparr>lh_n := head_n (b_data x)\<rparr>)) (bnd (get lh_n) (\<lambda>n.
     seq (forM [0..<nat n] (\<lambda>i. upd (\<lambda>s. s\<lparr>lh_block := (lh_block s)[i := head_block (b_data x) i]\<rparr>))) (brelse b)))) :: ('z log_state_scheme, unit) kM"
  have "wp (bnd (bread 1 (hb st)) ?rest) Q s"
  proof (rule wp_bnd, rule wp_bread [OF s(1) hb, where D = "{}"])
    fix b and t :: "'z log_state_scheme"
    assume t: "with_bufs m\<^sub>0 i pid {b} t" "same_store s t" "b_blockno (bufs t ! b) = hb st" "b_data (bufs t ! b) = view (bufs s) (disk s) (hb st)"
      "dirty (bufs t ! b) \<or> b_data (bufs t ! b) = disk t (hb st)"
    note st = same_storeD [OF t(2)]
    have d: "b_data (bufs t ! b) = disk s (hb st)" using t(4) view_clean [OF c, of "hb st"] s(5) by simp
    define I where "I k u \<longleftrightarrow> (\<exists>bl. u = t\<lparr>lh_n := int n, lh_block := bl\<rparr> \<and> length bl = 30 \<and> (\<forall>j < k. bl ! j = ?blk j))" for k and u :: "'z log_state_scheme"
    have "wp (forM [0..<n] (\<lambda>i. upd (\<lambda>s. s\<lparr>lh_block := (lh_block s)[i := ?blk i]\<rparr>))) (\<lambda>_. I n) (t\<lparr>lh_n := int n\<rparr>)"
    proof (rule wp_for_upt)
      show "I 0 (t\<lparr>lh_n := int n\<rparr>)" unfolding I_def using bio_frame_log [OF st(5)] s(4) by (intro exI [of _ "lh_block t"]) simp
      fix k u assume k: "k < n" "I k u"
      then obtain bl where bl: "u = t\<lparr>lh_n := int n, lh_block := bl\<rparr>" "length bl = 30" "\<forall>j < k. bl ! j = ?blk j" by (auto simp: I_def)
      show "wp (upd (\<lambda>s. s\<lparr>lh_block := (lh_block s)[k := ?blk k]\<rparr>)) (\<lambda>_. I (Suc k)) u"
        unfolding wp_upd I_def bl(1) using bl(2,3) k(1) n by (intro exI [of _ "bl[k := ?blk k]"]) (auto simp: nth_list_update less_Suc_eq)
    qed
    then have "wp (seq (forM [0..<n] (\<lambda>i. upd (\<lambda>s. s\<lparr>lh_block := (lh_block s)[i := ?blk i]\<rparr>))) (brelse b)) Q (t\<lparr>lh_n := int n\<rparr>)"
    proof (rule wp_seq [OF wp_mono])
      fix a and u :: "'z log_state_scheme" assume "I n u"
      then obtain bl where bl: "u = t\<lparr>lh_n := int n, lh_block := bl\<rparr>" "length bl = 30" "\<forall>j < n. bl ! j = ?blk j" by (auto simp: I_def)
      have u: "with_bufs m\<^sub>0 i pid {b} u" "log_dev u = 1" "log_start u = st" "disk u = disk s" "disk_hist u = disk_hist s" "dirty_blocks (bufs u) = {}" "disksize u = disksize s"
        using t(1) st s(2,3,5) bio_frame_log [OF st(5)] unfolding bl(1) by (simp_all add: with_bufs_def calm_def)
      show "wp (brelse b) Q u"
      proof (rule wp_brelse [OF u(1) singletonI])
        show "dirty (bufs u ! b) \<or> b_data (bufs u ! b) = disk u (b_blockno (bufs u ! b))" using t(3,5) by (simp add: bl(1))
        fix v :: "'z log_state_scheme" assume v: "with_bufs m\<^sub>0 i pid ({b} - {b}) v" "same_store u v"
        note uv = same_storeD [OF v(2)]
        have "log_at m\<^sub>0 i pid st n ?blk v"
          using v(1) u(2,3,7) uv(6) bl l(2) bio_frame_log [OF uv(5)] by (simp add: log_at_def)
        then show "Q () v" using uv u(4-6) by (intro Q) simp_all
      qed
    qed
    then show "wp (?rest b) Q t"
      by (intro wp_bnd, simp only: get_buf_def wp_get d l(1), intro wp_seq, simp only: wp_upd, intro wp_bnd, simp add: wp_get)
  qed (use s(5) in simp_all)
  then show ?thesis
    unfolding read_head_def by (rule wp_same [rotated]) (simp add: bnd_run get_run bread_log_def s hb_def)
qed

section \<open>Adding a block to the log\<close>

definition marked :: "buf \<Rightarrow> buf" where
  "marked x = x\<lparr>b_flags := b_flags x OR B_DIRTY\<rparr>"

lemma marked_flags [simp]: "valid (marked x) = valid x" "dirty (marked x)"
  using flag_updates by (simp_all add: valid_def dirty_def marked_def)

lemma cache_mark:
  assumes "cache H pid bs sl dk sz" "b \<in> H"
  shows "cache H pid (bs[b := marked (bs ! b)]) sl dk sz" "view (bs[b := marked (bs ! b)]) dk = view bs dk"
    "dirty_blocks (bs[b := marked (bs ! b)]) = insert (b_blockno (bs ! b)) (dirty_blocks bs)"
proof -
  note h = cache_held [OF assms]
  let ?x = "marked (bs ! b)"
  have f: "b_dev ?x = b_dev (bs ! b)" "b_blockno ?x = b_blockno (bs ! b)" "b_data ?x = b_data (bs ! b)" "b_refcnt ?x = b_refcnt (bs ! b)"
    "b_next ?x = b_next (bs ! b)" "b_prev ?x = b_prev (bs ! b)" by (simp_all add: marked_def)
  show c: "cache H pid (bs[b := ?x]) sl dk sz"
  proof (rule cache_upd [OF assms(1) h(1)])
    show "buf_ok H pid sl dk sz b ?x" using cache_buf [OF assms(1) h(1)] assms(2) h(3) by (auto simp: buf_ok_def f)
    show "cached bs (b_blockno ?x) b' \<Longrightarrow> b' = b" for b' using cache_unique [OF assms(1) h(2)] by (simp add: f)
  qed (auto simp: f)
  have "view (bs[b := ?x]) dk = (view bs dk)(b_blockno ?x := b_data ?x)"
    by (rule view_upd_data [OF assms(1) c h(1,4)]) (use h(4) in \<open>simp_all add: f\<close>)
  then show "view (bs[b := ?x]) dk = view bs dk" using view_cached [OF assms(1) h(2)] by (simp add: f fun_eq_iff)
  have cached': "cached (bs[b := ?x]) = cached bs"
    using nth_upd_field [of b_dev ?x bs b] nth_upd_field [of b_blockno ?x bs b] by (simp add: cached_def fun_eq_iff f)
  have "b < length bs" using cache_len [OF assms(1)] h(1) by simp
  then have "cached bs k b' \<and> dirty (bs[b := ?x] ! b') \<longleftrightarrow> cached bs k b' \<and> (b' = b \<or> dirty (bs ! b'))" for k b' by (cases "b' = b") auto
  then show "dirty_blocks (bs[b := ?x]) = insert (b_blockno (bs ! b)) (dirty_blocks bs)"
    unfolding dirty_blocks_def cached' using h(1,2,4) by (auto simp: cached_def)
qed

lemma log_index_cases:
  assumes "n \<le> length bl"
  shows "(\<exists>k < n. bl ! k = x) \<and> log_index bl (int n) x < n \<and> bl ! log_index bl (int n) x = x \<or> (\<forall>k < n. bl ! k \<noteq> x) \<and> log_index bl (int n) x = n"
proof (cases "find_from (\<lambda>y. y = x) (take n bl) 0")
  case None
  moreover have "bl ! k \<in> set (take n bl)" if "k < n" for k using nth_mem [of k "take n bl"] assms that by simp
  ultimately have "\<forall>k < n. bl ! k \<noteq> x" by (auto simp: find_from_None)
  then show ?thesis using None by (simp add: log_index_def)
next
  case (Some i)
  then have "i < n" "bl ! i = x" using assms by (auto simp: find_from_0)
  then show ?thesis using Some by (auto simp: log_index_def)
qed

text \<open>The header after the block \<open>x\<close> has been logged: absorbed where it was listed already, else appended.\<close>

lemma log_layout_add:
  assumes l: "log_layout sz st n (nth bl)" "length bl = 30" "n < 29" and x: "0 \<le> x" "x < sz" "\<not> (st \<le> x \<and> x < st + 30)"
  defines "i \<equiv> log_index bl (int n) x" and "n' \<equiv> (if log_index bl (int n) x = n then Suc n else n)"
  shows "log_layout sz st n' (nth (bl[i := x]))" "homes n' (nth (bl[i := x])) = insert (word_of_int x) (homes n (nth bl))"
proof -
  consider k where "k < n" "bl ! k = x" "i < n" "bl ! i = x" "n' = n" | "\<forall>k < n. bl ! k \<noteq> x" "i = n" "n' = Suc n"
    using log_index_cases [of n bl x] l unfolding i_def n'_def by auto
  then have "log_layout sz st n' (nth (bl[i := x])) \<and> homes n' (nth (bl[i := x])) = insert (word_of_int x) (homes n (nth bl))"
  proof cases
    case 1
    then have "bl[i := x] = bl" by (metis list_update_id)
    moreover have "word_of_int x \<in> homes n (nth bl)" using 1 by (auto simp: homes_iff)
    ultimately show ?thesis using l(1) 1(5) by (simp add: insert_absorb)
  next
    case 2
    have a: "bl[i := x] ! k = (if k = n then x else bl ! k)" for k using 2(2) l by (cases "k = n") simp_all
    have "inj_on (nth (bl[i := x])) {0..<Suc n}"
      using l(1) 2(1) unfolding inj_on_def log_layout_def a by (auto simp: less_Suc_eq)
    then have "log_layout sz st n' (nth (bl[i := x]))" using l x unfolding log_layout_def 2(3) a by (auto simp: less_Suc_eq)
    moreover have "homes n' (nth (bl[i := x])) = insert (word_of_int x) (homes n (nth bl))"
      unfolding 2(3) homes_Suc a by (auto intro!: image_cong)
    ultimately show ?thesis by simp
  qed
  then show "log_layout sz st n' (nth (bl[i := x]))" "homes n' (nth (bl[i := x])) = insert (word_of_int x) (homes n (nth bl))" by simp_all
qed

section \<open>Properties\<close>

text \<open>C30: The \<^verbatim>\<open>end_op\<close> that closes a transaction commits it atomically.  The blocks changed by the transaction are dirty in
  the cache and listed in the header in memory; the header on the disk is empty.  Then \<^verbatim>\<open>end_op\<close> returns, and every disk it
  went through recovers, after a crash, either to all the old contents or to all the contents the cache showed: first the
  disks of the one kind, then those of the other.  At the end every block is home, the log is empty and no buffer is dirty.\<close>

theorem end_op_atomic:
  fixes s :: "'z log_state_scheme"
  assumes s: "log_at m\<^sub>0 i pid st n blk s" "head_n (disk s (hb st)) = 0" "length (disk s (hb st)) = BSIZE" "dirty_blocks (bufs s) = homes n blk"
    and o: "outstanding s = 1" "\<not> committing s"
  defines "new \<equiv> view (bufs s) (disk s)"
  shows "wp end_op (\<lambda>_ t. (\<exists>news olds. disk_hist t = news @ olds @ disk_hist s \<and>
       (\<forall>d \<in> set olds. recovers_to st (disk s) d) \<and> (\<forall>d \<in> set (disk t # news). recovers_to st new d)) \<and>
     (\<forall>b. b \<notin> log_area st \<longrightarrow> disk t b = new b) \<and> head_n (disk t (hb st)) = 0 \<and> lh_n t = 0 \<and> dirty_blocks (bufs t) = {} \<and>
     outstanding t = 0 \<and> \<not> committing t \<and> with_bufs m\<^sub>0 i pid {} t) s" (is "wp _ ?P s")
proof -
  have c: "calm m\<^sub>0 i pid s" using s(1) by (simp add: log_at_def with_bufs_def)
  have fin: "?P () (u\<lparr>committing := False, ptable := pt, mach := m\<rparr>)"
    if u: "log_empty st new (disk u)" "with_bufs m\<^sub>0 i pid {} u" "lh_n u = 0" "dirty_blocks (bufs u) = {}"
      "grown (recovers_to st (disk s)) s t" "grown (recovers_to st new) t u" "outstanding u = 0" "inside m\<^sub>0 {} m"
      "length pt = NPROC" "p_pid (pt ! i) = pid" for t u pt m
  proof -
    obtain news olds where h: "disk_hist u = news @ olds @ disk_hist s" "\<forall>d \<in> set olds. recovers_to st (disk s) d" "\<forall>d \<in> set news. recovers_to st new d"
      using u(5,6) by (auto simp: grown_def)
    moreover have "recovers_to st new (disk u)" using recovered_empty [OF u(1)] by (simp add: recovers_to_def)
    moreover have "with_bufs m\<^sub>0 i pid {} (u\<lparr>committing := False, ptable := pt, mach := m\<rparr>)"
      using u(2,8-10) by (simp add: with_bufs_def calm_def)
    ultimately show ?thesis using u(1,3,4,7) by (auto simp: log_empty_def)
  qed
  let ?s = "\<lambda>m. s\<lparr>outstanding := 0, committing := True, mach := m\<rparr>"
  let ?tail = "seq (acquire LogLock) (seq (upd (\<lambda>s. s\<lparr>committing := False\<rparr>)) (seq (wakeup (Some ChLog)) (release LogLock))) :: ('z log_state_scheme, unit) kM"
  have tail: "wp ?tail ?P u"
    if u: "log_empty st new (disk u)" "with_bufs m\<^sub>0 i pid {} u" "lh_n u = 0" "dirty_blocks (bufs u) = {}"
      "grown (recovers_to st (disk s)) s t" "grown (recovers_to st new) t u" "outstanding u = 0" for t u
  proof -
    have cu: "calm m\<^sub>0 i pid u" using u(2) by (simp add: with_bufs_def)
    have pid: "p_pid (map (wake_one (Some ChLog)) (ptable u) ! i) = pid" using calmD(5-7) [OF cu] by (simp add: wake_one_pid)
    show ?thesis
      by (rule wp_seq, rule wp_acquire [OF calmD(1,4) [OF cu] calmD(2) [OF cu]], simp, rule wp_seq, simp only: wp_upd,
          rule wp_seq, rule wp_wakeup_in [OF calmD(1) [OF cu] _ calmD(2) [OF cu]], simp, simp, simp add: calmD(5) [OF cu],
          rule wp_release [OF calmD(1) [OF cu], of "{LogLock}"], simp, simp)
        (use fin [OF u, of _ "map (wake_one (Some ChLog)) (ptable u)"] pid calmD(5) [OF cu] in \<open>cases u, simp\<close>)
  qed
  have start: "wp (seq commit ?tail) ?P (?s m)" if m: "inside m\<^sub>0 {} m" for m
  proof (rule wp_seq, rule wp_commit)
    show "log_at m\<^sub>0 i pid st n blk (?s m)" using s(1) m by (simp add: log_at_def with_bufs_def calm_def)
    fix t u :: "'z log_state_scheme"
    assume "log_empty st (view (bufs (?s m)) (disk (?s m))) (disk u)" "with_bufs m\<^sub>0 i pid {} u" "lh_n u = 0" "dirty_blocks (bufs u) = {}"
      "grown (recovers_to st (disk (?s m))) (?s m) t" "grown (recovers_to st (view (bufs (?s m)) (disk (?s m)))) t u" "log_kept (?s m) u"
    then show "wp ?tail ?P u"
      using log_kept_fields [of "?s m" u] by (intro tail [of u t]) (simp_all add: new_def grown_def)
  qed (use s in simp_all)
  show ?thesis
    unfolding end_op_def
    by (rule wp_seq, rule wp_acquire [OF calmD(1,4) [OF c] calmD(2) [OF c]], simp, rule wp_seq, simp only: wp_upd,
        rule wp_bnd, simp only: wp_get, simp add: o, rule wp_bnd, simp add: wp_get o, rule wp_seq, simp only: wp_upd,
        rule wp_seq, rule wp_release [OF calmD(1) [OF c], of "{LogLock}"], simp, simp)
      (use start in \<open>cases s, simp add: whenM_def\<close>)
qed

text \<open>C31: Recovery at boot: whatever number of blocks the header on the disk counts (fewer than the log holds), \<^verbatim>\<open>recover_from_log\<close>
  returns with those blocks copied home, every other block as it was, and an empty log.  A crash during recovery loses
  nothing: every disk on the way recovers to the same contents.\<close>

theorem recover_from_log_restores:
  fixes s :: "'z log_state_scheme"
  assumes s: "with_bufs m\<^sub>0 i pid {} s" "log_dev s = 1" "log_start s = st" "length (lh_block s) = 30" "dirty_blocks (bufs s) = {}"
    and l: "head_n (disk s (hb st)) = int n" "log_layout (int (unat (disksize s))) st n (head_block (disk s (hb st)))" "length (disk s (hb st)) = BSIZE"
  shows "wp recover_from_log (\<lambda>_ t. (\<forall>b. b \<notin> log_area st \<longrightarrow> disk t b = recovered st (disk s) b) \<and> head_n (disk t (hb st)) = 0 \<and> lh_n t = 0 \<and>
     dirty_blocks (bufs t) = {} \<and> with_bufs m\<^sub>0 i pid {} t \<and>
     (\<exists>ds. disk_hist t = ds @ disk_hist s \<and> (\<forall>d \<in> set (disk t # ds). recovers_to st (recovered st (disk s)) d))) s" (is "wp _ ?P s")
  unfolding recover_from_log_def
proof (rule wp_seq, rule wp_read_head [OF s l(1,2)])
  fix t :: "'z log_state_scheme"
  let ?blk = "head_block (disk s (hb st))" and ?c = "\<lambda>k. disk s (lb st k)"
  assume t: "log_at m\<^sub>0 i pid st n ?blk t" "disk t = disk s" "disk_hist t = disk_hist s" "dirty_blocks (bufs t) = {}"
  have f: "log_full st n ?blk ?c (disk s) (disk t)" using l(1) t(2) by (simp add: log_full_def)
  have r: "recovered st d b = recovered st (disk s) b" if "log_full st n ?blk ?c (disk s) d" "b \<notin> log_area st" for d b
    using recovered_full [OF l(2) that] recovered_full [OF l(2) f that(2)] t(2) by simp
  show "wp (seq install_trans (seq (upd (\<lambda>s. s\<lparr>lh_n := 0\<rparr>)) write_head)) ?P t"
  proof (rule wp_mono [OF wp_install_and_clear [OF t(1) f]])
    fix x and u :: "'z log_state_scheme"
    assume u: "with_bufs m\<^sub>0 i pid {} u \<and> lh_n u = 0 \<and> dirty_blocks (bufs u) = {} \<and> log_empty st (installed n ?blk ?c (disk s)) (disk u) \<and>
      grown (log_full st n ?blk ?c (disk s)) t u \<and> log_kept t u"
    have "disk u b = recovered st (disk s) b" if "b \<notin> log_area st" for b
      using u recovered_full [OF l(2) f that] that t(2) by (simp add: log_empty_def)
    moreover have "recovers_to st (recovered st (disk s)) (disk u)"
      using u recovered_empty [of st _ "disk u"] recovered_full [OF l(2) f] t(2) by (simp add: recovers_to_def)
    ultimately show "?P x u" using u r t(3) by (auto simp: log_empty_def grown_def recovers_to_def)
  qed (use t(2,4) l(3) in simp_all)
qed

text \<open>C32: \<^verbatim>\<open>log_write\<close> keeps what \<^verbatim>\<open>commit\<close> relies on: within a transaction, with room in the log, it makes the held block dirty
  and lists it in the header exactly once.  So the listed blocks are again different blocks outside the log and exactly the
  dirty ones, the count grows only if the block was not listed (absorption), and nothing on the disk changes.\<close>

theorem log_write_lists_dirty:
  fixes s :: "'z log_state_scheme"
  assumes s: "with_bufs m\<^sub>0 i pid H s" "b \<in> H" "1 \<le> outstanding s" "log_size s = 30" "length (lh_block s) = 30"
    and l: "lh_n s = int n" "n < 29" "log_layout (int (unat (disksize s))) st n (nth (lh_block s))" "dirty_blocks (bufs s) = homes n (nth (lh_block s))"
    and x: "\<not> (st \<le> int (unat (b_blockno (bufs s ! b))) \<and> int (unat (b_blockno (bufs s ! b))) < st + 30)"
  shows "wp (log_write b) (\<lambda>_ t. \<exists>n'. n' = (if b_blockno (bufs s ! b) \<in> dirty_blocks (bufs s) then n else Suc n) \<and> lh_n t = int n' \<and>
     log_layout (int (unat (disksize t))) st n' (nth (lh_block t)) \<and> dirty_blocks (bufs t) = homes n' (nth (lh_block t)) \<and>
     dirty_blocks (bufs t) = insert (b_blockno (bufs s ! b)) (dirty_blocks (bufs s)) \<and> disk t = disk s \<and>
     view (bufs t) (disk t) = view (bufs s) (disk s) \<and> with_bufs m\<^sub>0 i pid H t \<and> outstanding t = outstanding s) s" (is "wp _ ?P s")
proof -
  have c: "calm m\<^sub>0 i pid s" "cache H pid (bufs s) (sleeplocks s) (disk s) (disksize s)" using s(1) by (simp_all add: with_bufs_def)
  note h = cache_held [OF c(2) s(2)] and mk = cache_mark [OF c(2) s(2)]
  let ?bn = "b_blockno (bufs s ! b)" let ?x = "sint ?bn" let ?i = "log_index (lh_block s) (int n) ?x"
  have "int (unat ?bn) < int (unat (disksize s))" using h(5) by (simp only: of_nat_less_iff word_less_nat_alt)
  moreover have "int (unat (disksize s)) \<le> 2 ^ 31" using l(3) by (simp add: log_layout_def)
  ultimately have bn: "int (unat ?bn) < int (unat (disksize s))" "int (unat ?bn) < 2 ^ 31" by linarith+
  then have "unat ?bn < 2 ^ 31" by (metis of_nat_less_iff of_nat_numeral of_nat_power)
  then have xb: "?x = int (unat ?bn)" by (rule sint_small)
  then have w: "word_of_int ?x = ?bn" by simp
  note add = log_layout_add [OF l(3) s(5) l(2), of ?x]
  have fits: "0 \<le> ?x" "?x < int (unat (disksize s))" "\<not> (st \<le> ?x \<and> ?x < st + 30)" using xb bn(1) x by simp_all
  let ?t = "\<lambda>m. s\<lparr>lh_block := (lh_block s)[?i := ?x], lh_n := (if int ?i = int n then int n + 1 else int n),
     bufs := (bufs s)[b := marked (bufs s ! b)], mach := m\<rparr>"
  have "?bn \<in> dirty_blocks (bufs s) \<longleftrightarrow> ?i \<noteq> n"
  proof -
    have "?bn \<in> dirty_blocks (bufs s) \<longleftrightarrow> (\<exists>k < n. lh_block s ! k = ?x)"
    proof -
      have "word_of_int (lh_block s ! k) = ?bn \<longleftrightarrow> lh_block s ! k = ?x" if "k < n" for k
        using that l(3) word_of_int_inj [of "lh_block s ! k" ?x] fits bn(2) xb unfolding w by (auto simp: log_layout_def)
      then show ?thesis unfolding l(4) homes_iff by metis
    qed
    then show ?thesis using log_index_cases [of n "lh_block s" ?x] s(5) l(2) by auto
  qed
  then have fin: "?P () (?t m)" if "inside m\<^sub>0 {} m" for m
    using add [OF fits] mk c(1) that l(4) w by (auto simp: with_bufs_def calm_def)
  have room: "\<not> (LOGSIZE \<le> int n \<or> log_size s - 1 \<le> int n)" "\<not> outstanding s < 1" using l(2) s(3,4) by simp_all
  define P where "P = ?P"
  have fin: "P () (?t m)" if "inside m\<^sub>0 {} m" for m unfolding P_def by (rule fin [OF that])
  have "wp (log_write b) P s"
    unfolding log_write_def upd_buf_def get_buf_def
    by (rule wp_bnd, simp only: wp_get l(1) room if_False, rule wp_bnd, simp only: wp_get room if_False,
        rule wp_seq, rule wp_acquire [OF calmD(1,4) [OF c(1)] calmD(2) [OF c(1)]], simp, rule wp_bnd, simp only: wp_get, rule wp_bnd, simp only: wp_get,
        rule wp_seq, simp only: wp_upd, rule wp_seq, simp only: wp_upd, rule wp_seq, simp only: wp_upd,
        rule wp_release [OF calmD(1) [OF c(1)], of "{LogLock}"], simp, simp)
      (use fin l(1) in \<open>cases s, simp add: marked_def split del: if_split cong: if_cong\<close>)
  then show ?thesis unfolding P_def .
qed

text \<open>C33: Admission to the log, under every schedule of well-behaved steps: \<^verbatim>\<open>begin_op\<close> neither panics nor spins.  When it returns, with the
  steps \<open>ds\<close> used up, then in the state \<open>s1\<close> in which it was last given the processor no commit was running and the log had room for the
  blocks logged so far and \<^verbatim>\<open>MAXOPBLOCKS\<close> for every open operation and for one more; and what it returns in is \<open>s1\<close> with this
  operation counted (and the caller off the channel).  As long as it has not returned, a commit is running or there is no room, and the caller sleeps on the channel
  \<^verbatim>\<open>end_op\<close> wakes.\<close>

theorem begin_op_reserves:
  fixes s :: "'z log_state_scheme"
  assumes ok: "mach_ok (mach s)" "depth (mach s) = 0" "cpu_proc (the_cpu (mach s)) = Some i" "i < length (ptable s)"
    and l: "lock_free (mach s) PtableLock" "lock_free (mach s) LogLock"
    and E: "\<forall>e \<in> set es. env_ok (mach s) i e"
  shows "case begin_op s es of
       Ret _ s' es' \<Rightarrow> (\<exists>ds s1. es = ds @ es' \<and> handed begin_op s ds s1 \<and>
         \<not> (committing s1 \<or> lh_n s1 + (outstanding s1 + 1) * MAXOPBLOCKS > LOGSIZE) \<and>
         s' = s1\<lparr>outstanding := outstanding s1 + 1, ptable := off_chan i ds (ptable s1), mach := mach s'\<rparr> \<and> inside (mach s) {} (mach s'))
     | Panic p \<Rightarrow> False
     | Blocked s' \<Rightarrow> (committing s' \<or> lh_n s' + (outstanding s' + 1) * MAXOPBLOCKS > LOGSIZE) \<and>
         p_state (ptable s' ! i) = SLEEPING \<and> p_chan (ptable s' ! i) = Some ChLog
     | Spin \<Rightarrow> False"
  unfolding begin_op_def
proof (rule guarded_run [OF ok l _ E, where f = "\<lambda>t. t\<lparr>outstanding := outstanding t + 1\<rparr>"])
  fix t :: "'z log_state_scheme"
  assume "inside (mach s) {LogLock} (mach t)"
  then show "wp (seq (upd (\<lambda>s. s\<lparr>outstanding := outstanding s + 1\<rparr>)) (release LogLock))
      (\<lambda>_ s'. s' = t\<lparr>outstanding := outstanding t + 1, mach := mach s'\<rparr> \<and> inside (mach s) {} (mach s')) t"
    by (intro wp_seq, simp only: wp_upd, intro wp_release [OF ok(1), of "{LogLock}"]) simp_all
qed simp_all

section \<open>Witnesses\<close>

text \<open>A log at blocks 2 to 31 of a disk of 1000 blocks; \<open>bs\<close>, \<open>sl\<close> and \<open>d\<close> are the buffers, their locks and the disk.\<close>

definition witness_log :: "buf list \<Rightarrow> (sleeplock_id \<Rightarrow> sleeplock) \<Rightarrow> (u32 \<Rightarrow> block) \<Rightarrow> int \<Rightarrow> log_state" where
  "witness_log bs sl d n = bio_state.extend (witness_bio\<lparr>bufs := bs, sleeplocks := sl, disk := d\<rparr>)
     \<lparr>log_start = 2, log_size = 30, outstanding = 1, committing = False, log_dev = 1, lh_n = n, lh_block = replicate 30 100\<rparr>"

lemma witness_log_simps [simp]:
  "mach (witness_log bs sl d n) = boot_machine" "ptable (witness_log bs sl d n) = ptable witness_procs" "bufs (witness_log bs sl d n) = bs"
  "sleeplocks (witness_log bs sl d n) = sl" "disk (witness_log bs sl d n) = d" "disksize (witness_log bs sl d n) = 1000"
  "log_start (witness_log bs sl d n) = 2" "log_size (witness_log bs sl d n) = 30" "outstanding (witness_log bs sl d n) = 1"
  "\<not> committing (witness_log bs sl d n)" "log_dev (witness_log bs sl d n) = 1" "lh_n (witness_log bs sl d n) = n"
  "lh_block (witness_log bs sl d n) = replicate 30 100"
  using witness_bio_simps by (simp_all add: witness_log_def bio_state.defs)

lemma witness_log_with_bufs:
  "cache H 1 bs sl d 1000 \<Longrightarrow> with_bufs boot_machine 0 1 H (witness_log bs sl d n)"
  using witness_bio_ok(1) by (simp add: with_bufs_def calm_def)

lemma witness_not_cached: "\<not> cached witness_bufs n b"
  using witness_bufs_nth [of b] by (auto simp: cached_def)

lemma witness_cache: "cache {} 1 witness_bufs (sleeplocks witness_bio) d 1000" "dirty_blocks witness_bufs = {}"
proof -
  have "buf_ok {} 1 (sleeplocks witness_bio) d 1000 b (witness_bufs ! b)" if "b < NBUF" for b
    using witness_bufs_nth [of b] that by (simp add: buf_ok_def valid_def dirty_def free_sl_def)
  then show "cache {} 1 witness_bufs (sleeplocks witness_bio) d 1000" using witness_lru witness_not_cached unfolding cache_def by auto
  show "dirty_blocks witness_bufs = {}" using witness_not_cached by (simp add: dirty_blocks_def)
qed

lemma witness_layout: "n \<le> 1 \<Longrightarrow> log_layout 1000 2 n (nth (replicate 30 100))"
  by (auto simp: log_layout_def inj_on_def)

text \<open>Block 100 read into buffer 4, held by process 1; then changed, logged and released.\<close>

definition witness_disk :: "u32 \<Rightarrow> block" where
  "witness_disk n = replicate 512 0"

definition witness_bufs_held :: "buf list" where
  "witness_bufs_held = witness_bufs[4 := loaded 100 (replicate 512 0) (witness_bufs ! 4)]"

definition witness_locks_held :: "sleeplock_id \<Rightarrow> sleeplock" where
  "witness_locks_held = (sleeplocks witness_bio)(BufLock 4 := owned 1 (sleeplocks witness_bio (BufLock 4)))"

definition witness_bufs_logged :: "buf list" where
  "witness_bufs_logged = (let bs = witness_bufs_held[4 := (witness_bufs_held ! 4)\<lparr>b_data := replicate 512 9\<rparr>]; bs = bs[4 := marked (bs ! 4)] in
     fronted 4 (unlinked 4 (bs[4 := (bs ! 4)\<lparr>b_refcnt := 0\<rparr>])))"

lemma witness_held_cache: "cache {4} 1 witness_bufs_held witness_locks_held witness_disk 1000" "dirty_blocks witness_bufs_held = {}"
  "b_blockno (witness_bufs_held ! 4) = 100"
proof -
  have nd: "\<not> dirty (witness_bufs ! 4)" using witness_bufs_nth [of 4] by (simp add: dirty_def)
  have d: "witness_disk 100 = replicate 512 0" by (simp add: witness_disk_def)
  show "cache {4} 1 witness_bufs_held witness_locks_held witness_disk 1000" "dirty_blocks witness_bufs_held = {}"
    using cache_miss(1,3) [OF witness_cache(1) [of witness_disk] witness_not_cached, of 100 4] nd d witness_cache(2)
    by (simp_all add: witness_bufs_held_def witness_locks_held_def)
  show "b_blockno (witness_bufs_held ! 4) = 100" by (simp add: witness_bufs_held_def loaded_def witness_bufs_def)
qed

lemma witness_logged_cache:
  "cache {} 1 witness_bufs_logged (witness_locks_held(BufLock 4 := free_sl (witness_locks_held (BufLock 4)))) witness_disk 1000"
  "dirty_blocks witness_bufs_logged = {100}" "view witness_bufs_logged witness_disk = witness_disk(100 := replicate 512 9)"
proof -
  have len: "4 < length witness_bufs_held" by (simp add: witness_bufs_held_def witness_bufs_def)
  define bs1 where "bs1 = witness_bufs_held[4 := (witness_bufs_held ! 4)\<lparr>b_data := replicate 512 9\<rparr>]"
  define bs2 where "bs2 = bs1[4 := marked (bs1 ! 4)]"
  note h = witness_held_cache
  have v: "view witness_bufs_held witness_disk = witness_disk"
    using cache_miss(2) [OF witness_cache(1) [of witness_disk] witness_not_cached, of 100 4] witness_bufs_nth [of 4]
    by (simp add: witness_bufs_held_def witness_view witness_disk_def dirty_def fun_eq_iff)
  have 1: "cache {4} 1 bs1 witness_locks_held witness_disk 1000" "dirty_blocks bs1 = {}" "b_blockno (bs1 ! 4) = 100"
     "view bs1 witness_disk = witness_disk(100 := replicate 512 9)"
    using cache_data [OF h(1), of 4 "replicate 512 9"] h(2,3) v len by (simp_all add: bs1_def)
  have 2: "cache {4} 1 bs2 witness_locks_held witness_disk 1000" "dirty_blocks bs2 = {100}" "view bs2 witness_disk = witness_disk(100 := replicate 512 9)"
    using cache_mark [OF 1(1), of 4] 1(2-4) by (simp_all add: bs2_def)
  have "dirty (bs2 ! 4)" using len by (simp add: bs2_def bs1_def)
  note r = cache_release [OF 2(1), of 4]
  have w: "witness_bufs_logged = fronted 4 (unlinked 4 (bs2[4 := (bs2 ! 4)\<lparr>b_refcnt := 0\<rparr>]))"
    by (simp add: witness_bufs_logged_def bs2_def bs1_def Let_def)
  show "cache {} 1 witness_bufs_logged (witness_locks_held(BufLock 4 := free_sl (witness_locks_held (BufLock 4)))) witness_disk 1000"
    "dirty_blocks witness_bufs_logged = {100}" "view witness_bufs_logged witness_disk = witness_disk(100 := replicate 512 9)"
    using r(1-3) \<open>dirty (bs2 ! 4)\<close> 2(2,3) unfolding w by simp_all
qed

lemma witness_area: "99 \<notin> log_area 2" "100 \<notin> log_area 2"
proof -
  have "log_area 2 = set (map (\<lambda>k. word_of_int (2 + int k)) [0..<30])" unfolding log_area_def by (simp only: set_map set_upt)
  then have a: "log_area 2 = set [2, 3, 4, 5, 6, 7, 8, 9, 10, 11, 12, 13, 14, 15, 16, 17, 18, 19, 20, 21, 22, 23, 24, 25, 26, 27, 28, 29, 30, 31]"
    by (simp add: upt_rec)
  show "99 \<notin> log_area 2" "100 \<notin> log_area 2" unfolding a by simp_all
qed

lemma get32_zeros: "i < 128 \<Longrightarrow> get32 (replicate 512 0) (4 * i) = 0"
  by (simp add: get32_def)

theorem log_write_lists_dirty_witness:
  "wp (log_write 4) (\<lambda>_ t. lh_n t = 1 \<and> dirty_blocks (bufs t) = {100} \<and> with_bufs boot_machine 0 1 {4} t)
     (witness_log witness_bufs_held witness_locks_held witness_disk 0)"
  by (rule wp_mono [OF log_write_lists_dirty [OF witness_log_with_bufs [OF witness_held_cache(1)], where b = 4 and n = 0 and st = 2]])
    (use witness_layout [of 0] in \<open>auto simp: witness_held_cache\<close>)

theorem end_op_atomic_witness:
  "wp end_op (\<lambda>_ t. disk t 100 = replicate 512 9 \<and> disk t 99 = replicate 512 0 \<and> outstanding t = 0)
     (witness_log witness_bufs_logged (witness_locks_held(BufLock 4 := free_sl (witness_locks_held (BufLock 4)))) witness_disk 1)"
proof (rule wp_mono [OF end_op_atomic])
  let ?s = "witness_log witness_bufs_logged (witness_locks_held(BufLock 4 := free_sl (witness_locks_held (BufLock 4)))) witness_disk 1"
  show "log_at boot_machine 0 1 2 1 (nth (replicate 30 100)) ?s"
    using witness_log_with_bufs [OF witness_logged_cache(1)] witness_layout [of 1] by (simp add: log_at_def)
  show "head_n (disk ?s (hb 2)) = 0" "length (disk ?s (hb 2)) = BSIZE" using get32_zeros [of 0] by (simp_all add: head_n_def witness_disk_def)
  show "dirty_blocks (bufs ?s) = homes 1 (nth (replicate 30 100))" by (simp add: witness_logged_cache(2))
qed (auto simp: witness_logged_cache(3) witness_disk_def witness_area)

text \<open>A crash after the header was written: block 100 is in the log, not yet home.\<close>

definition witness_crash :: "u32 \<Rightarrow> block" where
  "witness_crash = witness_disk(2 := put32 (put32 (replicate 512 0) 0 1) 4 100, 3 := replicate 512 9)"

theorem recover_from_log_restores_witness:
  "wp recover_from_log (\<lambda>_ t. disk t 100 = replicate 512 9 \<and> lh_n t = 0) (witness_log witness_bufs (sleeplocks witness_bio) witness_crash 0)"
proof (rule wp_mono [OF recover_from_log_restores])
  let ?s = "witness_log witness_bufs (sleeplocks witness_bio) witness_crash 0"
  let ?h = "put32 (put32 (replicate 512 0) 0 1) 4 100"
  have hb: "disk ?s (hb 2) = ?h" by (simp add: witness_crash_def hb_def)
  have h: "head_n ?h = 1" "head_block ?h 0 = 100" by (simp_all add: head_n_def head_block_def get32_put32_same get32_put_other)
  show "with_bufs boot_machine 0 1 {} ?s" by (rule witness_log_with_bufs [OF witness_cache(1)])
  show "head_n (disk ?s (hb 2)) = int 1" "length (disk ?s (hb 2)) = BSIZE" unfolding hb using h by simp_all
  show "log_layout (int (unat (disksize ?s))) 2 1 (head_block (disk ?s (hb 2)))" unfolding hb using h by (simp add: log_layout_def)
  have "recovered 2 witness_crash 100 = replicate 512 9"
    using h unfolding recovered_def hb [simplified] by (simp add: lb_def witness_crash_def)
  then show "disk t 100 = replicate 512 9 \<and> lh_n t = 0" if "(\<forall>b. b \<notin> log_area 2 \<longrightarrow> disk t b = recovered 2 (disk ?s) b) \<and> head_n (disk t (hb 2)) = 0 \<and> lh_n t = 0 \<and>
     dirty_blocks (bufs t) = {} \<and> with_bufs boot_machine 0 1 {} t \<and>
     (\<exists>ds. disk_hist t = ds @ disk_hist ?s \<and> (\<forall>d \<in> set (disk t # ds). recovers_to 2 (recovered 2 (disk ?s)) d))" for t :: log_state
    using that witness_area by simp
qed (simp_all add: witness_cache(2))

text \<open>No room while two operations are open; one of them ends while the caller sleeps.\<close>

theorem begin_op_reserves_witness:
  "case begin_op ((witness_log witness_bufs (sleeplocks witness_bio) witness_disk 1)\<lparr>outstanding := 2\<rparr>) [\<lambda>s. s\<lparr>outstanding := outstanding s - 1\<rparr>] of
     Ret a s' es' \<Rightarrow> \<not> committing s' \<and> lh_n s' + outstanding s' * MAXOPBLOCKS \<le> LOGSIZE
   | Panic p \<Rightarrow> False | Blocked s' \<Rightarrow> committing s' \<or> lh_n s' + (outstanding s' + 1) * MAXOPBLOCKS > LOGSIZE | Spin \<Rightarrow> False"
proof -
  let ?s = "(witness_log witness_bufs (sleeplocks witness_bio) witness_disk 1)\<lparr>outstanding := 2\<rparr>" and ?e = "\<lambda>s :: log_state. s\<lparr>outstanding := outstanding s - 1\<rparr>"
  have e: "env_ok (mach ?s) 0 ?e" by (rule env_ok_quiet) simp_all
  have upd: "committing t = committing s1 \<and> lh_n t = lh_n s1 \<and> outstanding t = outstanding s1 + 1"
    if "t = s1\<lparr>outstanding := outstanding s1 + 1, ptable := T, mach := mach t\<rparr>" for s1 t :: log_state and T
    using arg_cong [where f = committing, OF that] arg_cong [where f = lh_n, OF that] arg_cong [where f = outstanding, OF that] by simp
  note b = begin_op_reserves [of ?s 0 "[?e]"]
  show ?thesis using b e by (cases "begin_op ?s [?e]") (auto dest!: upd)
qed

end
