(* ===== verification/Inode.thy ===== *)
theory Inode
  imports Log
begin

text \<open>
  The block allocator and the inode layer of \<^verbatim>\<open>fs.c\<close>.  A \<^verbatim>\<open>struct inode *\<close> is an index into the inode
  cache.  The device table \<^verbatim>\<open>devsw\<close> holds the functions of the console or null pointers.
\<close>

section \<open>State\<close>

record inode =
  i_dev :: u32
  i_inum :: u32
  i_ref :: int
  i_valid :: bool
  i_type :: u16
  i_major :: u16
  i_minor :: u16
  i_nlink :: u16
  i_size :: u32
  i_addrs :: "u32 list"

datatype devfn = DevConsole

record fs_state = log_state +
  sb :: superblock
  inodes :: "inode list"
  devsw_read :: "devfn option list"
  devsw_write :: "devfn option list"

abbreviation "T_DIR \<equiv> 1 :: u16"
abbreviation "T_FILE \<equiv> 2 :: u16"
abbreviation "T_DEV \<equiv> 3 :: u16"
abbreviation "ROOTINO \<equiv> 1 :: u32"
abbreviation "NDIRECT \<equiv> 12 :: nat"
abbreviation "NINDIRECT \<equiv> 128 :: nat"
abbreviation "MAXFILE \<equiv> NDIRECT + NINDIRECT"
abbreviation "IPB \<equiv> 8 :: u32"
abbreviation "BPB \<equiv> 4096 :: nat"
abbreviation "DINODE \<equiv> 64 :: nat"

definition IBLOCK :: "u32 \<Rightarrow> superblock \<Rightarrow> u32" where
  "IBLOCK i b = i div IPB + sb_inodestart b"

definition BBLOCK :: "u32 \<Rightarrow> superblock \<Rightarrow> u32" where
  "BBLOCK b x = b div of_nat BPB + sb_bmapstart x"

definition get_inode :: "nat \<Rightarrow> ('z fs_state_scheme, inode) kM" where
  "get_inode i = get (\<lambda>s. inodes s ! i)"

definition upd_inode :: "nat \<Rightarrow> (inode \<Rightarrow> inode) \<Rightarrow> ('z fs_state_scheme, unit) kM" where
  "upd_inode i f = upd (\<lambda>s. s\<lparr>inodes := (inodes s)[i := f (inodes s ! i)]\<rparr>)"

definition upd_data :: "nat \<Rightarrow> (block \<Rightarrow> block) \<Rightarrow> ('z bio_state_scheme, unit) kM" where
  "upd_data b f = upd_buf b (\<lambda>x. x\<lparr>b_data := f (b_data x)\<rparr>)"

section \<open>Blocks\<close>

definition bzero :: "u32 \<Rightarrow> u32 \<Rightarrow> ('z log_state_scheme, unit) kM" where
  "bzero dev bno =
     bnd (bread dev bno) (\<lambda>b.
     seq (upd_data b (\<lambda>d. replicate BSIZE 0)) (
     seq (log_write b) (
     brelse b)))"

text \<open>The bit of block \<open>bi\<close> in a block of the free map.\<close>

definition bit_mask :: "nat \<Rightarrow> u8" where
  "bit_mask bi = push_bit (bi mod 8) 1"

definition bit_used :: "block \<Rightarrow> nat \<Rightarrow> bool" where
  "bit_used d bi \<longleftrightarrow> d ! (bi div 8) AND bit_mask bi \<noteq> 0"

definition set_bit_used :: "nat \<Rightarrow> block \<Rightarrow> block" where
  "set_bit_used bi d = d[bi div 8 := d ! (bi div 8) OR bit_mask bi]"

definition clear_bit_used :: "nat \<Rightarrow> block \<Rightarrow> block" where
  "clear_bit_used bi d = d[bi div 8 := d ! (bi div 8) AND NOT (bit_mask bi)]"

definition balloc :: "u32 \<Rightarrow> ('z fs_state_scheme, u32) kM" where
  "balloc dev =
     bnd (get (\<lambda>s. unat (sb_size (sb s)))) (\<lambda>size.
     bnd (firstM [0..<(size + BPB - 1) div BPB] (\<lambda>k.
        let b = k * BPB in
        bnd (get (\<lambda>s. BBLOCK (of_nat b) (sb s))) (\<lambda>bb.
        bnd (bread dev bb) (\<lambda>bp.
        bnd (get_buf bp) (\<lambda>x.
        case find (\<lambda>bi. \<not> bit_used (b_data x) bi) [0..<min BPB (size - b)] of
          Some bi \<Rightarrow>
            seq (upd_data bp (set_bit_used bi)) (
            seq (log_write bp) (
            seq (brelse bp) (
            seq (bzero dev (of_nat (b + bi))) (
            ret (Some (of_nat (b + bi)))))))
        | None \<Rightarrow> seq (brelse bp) (ret None)))))) (\<lambda>r.
     case r of Some a \<Rightarrow> ret a | None \<Rightarrow> panic ''balloc: out of blocks''))"

definition bfree :: "u32 \<Rightarrow> u32 \<Rightarrow> ('z fs_state_scheme, unit) kM" where
  "bfree dev b =
     bnd (get (\<lambda>s. BBLOCK b (sb s))) (\<lambda>bb.
     bnd (bread dev bb) (\<lambda>bp.
     let bi = unat b mod BPB in
     bnd (get_buf bp) (\<lambda>x.
     if \<not> bit_used (b_data x) bi then panic ''freeing free block''
     else
       seq (upd_data bp (clear_bit_used bi)) (
       seq (log_write bp) (
       brelse bp)))))"

section \<open>Inodes\<close>

text \<open>\<^verbatim>\<open>struct dinode\<close> at an offset of a block: four halfwords, the size, the thirteen addresses.\<close>

definition dinode_off :: "u32 \<Rightarrow> nat" where
  "dinode_off inum = unat (inum mod IPB) * DINODE"

definition load_dinode :: "block \<Rightarrow> nat \<Rightarrow> inode \<Rightarrow> inode" where
  "load_dinode d off ip = ip\<lparr>i_type := get16 d off, i_major := get16 d (off + 2), i_minor := get16 d (off + 4),
     i_nlink := get16 d (off + 6), i_size := get32 d (off + 8),
     i_addrs := map (\<lambda>k. get32 d (off + 12 + 4 * k)) [0..<NDIRECT + 1]\<rparr>"

definition store_dinode :: "inode \<Rightarrow> nat \<Rightarrow> block \<Rightarrow> block" where
  "store_dinode ip off d =
     put_bytes (put32 (put16 (put16 (put16 (put16 d off (i_type ip)) (off + 2) (i_major ip)) (off + 4) (i_minor ip))
       (off + 6) (i_nlink ip)) (off + 8) (i_size ip)) (off + 12) (concat (map bytes32 (i_addrs ip)))"

definition iinit :: "u32 \<Rightarrow> ('z fs_state_scheme, unit) kM" where
  "iinit dev =
     seq (initlock IcacheLock ''icache'') (
     seq (forM [0..<NINODE] (\<lambda>i. initsleeplock (InodeLock i) ''inode'')) (
     bnd (readsb dev) (\<lambda>b.
     seq (upd (\<lambda>s. s\<lparr>sb := b\<rparr>)) (
     call_cprintf (''sb: size %d nblocks %d ninodes %d nlog %d logstart %d inodestart %d bmap start %d'' @ [CHR 0x0A])
       (map (\<lambda>v. cint (sint v)) [sb_size b, sb_nblocks b, sb_ninodes b, sb_nlog b, sb_logstart b,
          sb_inodestart b, sb_bmapstart b])))))"

definition iget :: "u32 \<Rightarrow> u32 \<Rightarrow> ('z fs_state_scheme, nat) kM" where
  "iget dev inum =
     seq (acquire IcacheLock) (
     bnd (get (\<lambda>s. find_from (\<lambda>ip. i_ref ip > 0 \<and> i_dev ip = dev \<and> i_inum ip = inum) (inodes s) 0)) (\<lambda>r.
     case r of
       Some i \<Rightarrow>
         seq (upd_inode i (\<lambda>ip. ip\<lparr>i_ref := i_ref ip + 1\<rparr>)) (
         seq (release IcacheLock) (
         ret i))
     | None \<Rightarrow>
         bnd (get (\<lambda>s. find_from (\<lambda>ip. i_ref ip = 0) (inodes s) 0)) (\<lambda>empty.
         case empty of
           None \<Rightarrow> panic ''iget: no inodes''
         | Some i \<Rightarrow>
             seq (upd_inode i (\<lambda>ip. ip\<lparr>i_dev := dev, i_inum := inum, i_ref := 1, i_valid := False\<rparr>)) (
             seq (release IcacheLock) (
             ret i)))))"

definition ialloc :: "u32 \<Rightarrow> u16 \<Rightarrow> ('z fs_state_scheme, nat) kM" where
  "ialloc dev typ =
     bnd (get (\<lambda>s. unat (sb_ninodes (sb s)))) (\<lambda>ninodes.
     bnd (firstM [1..<ninodes] (\<lambda>inum.
        bnd (get (\<lambda>s. IBLOCK (of_nat inum) (sb s))) (\<lambda>ib.
        bnd (bread dev ib) (\<lambda>bp.
        let off = dinode_off (of_nat inum) in
        bnd (get_buf bp) (\<lambda>x.
        if get16 (b_data x) off = 0 then
          seq (upd_data bp (\<lambda>d. put_bytes d off (replicate DINODE 0))) (
          seq (upd_data bp (\<lambda>d. put16 d off typ)) (
          seq (log_write bp) (
          seq (brelse bp) (
          bnd (iget dev (of_nat inum)) (\<lambda>ip. ret (Some ip))))))
        else seq (brelse bp) (ret None)))))) (\<lambda>r.
     case r of Some ip \<Rightarrow> ret ip | None \<Rightarrow> panic ''ialloc: no inodes''))"

definition iupdate :: "nat \<Rightarrow> ('z fs_state_scheme, unit) kM" where
  "iupdate i =
     bnd (get_inode i) (\<lambda>ip.
     bnd (get (\<lambda>s. IBLOCK (i_inum ip) (sb s))) (\<lambda>ib.
     bnd (bread (i_dev ip) ib) (\<lambda>bp.
     bnd (get_inode i) (\<lambda>ip.
     seq (upd_data bp (store_dinode ip (dinode_off (i_inum ip)))) (
     seq (log_write bp) (
     brelse bp))))))"

definition idup :: "nat \<Rightarrow> ('z fs_state_scheme, nat) kM" where
  "idup i =
     seq (acquire IcacheLock) (
     seq (upd_inode i (\<lambda>ip. ip\<lparr>i_ref := i_ref ip + 1\<rparr>)) (
     seq (release IcacheLock) (
     ret i)))"

definition ilock :: "nat option \<Rightarrow> ('z fs_state_scheme, unit) kM" where
  "ilock p =
     (case p of None \<Rightarrow> panic ''ilock''
      | Some i \<Rightarrow>
          bnd (get_inode i) (\<lambda>ip.
          if i_ref ip < 1 then panic ''ilock''
          else
            seq (acquiresleep (InodeLock i)) (
            bnd (get_inode i) (\<lambda>ip.
            whenM (\<not> i_valid ip) (
              bnd (get (\<lambda>s. IBLOCK (i_inum ip) (sb s))) (\<lambda>ib.
              bnd (bread (i_dev ip) ib) (\<lambda>bp.
              bnd (get_buf bp) (\<lambda>x.
              seq (upd_inode i (load_dinode (b_data x) (dinode_off (i_inum ip)))) (
              seq (brelse bp) (
              seq (upd_inode i (\<lambda>ip. ip\<lparr>i_valid := True\<rparr>)) (
              bnd (get_inode i) (\<lambda>ip.
              whenM (i_type ip = 0) (panic ''ilock: no type'')))))))))))))"

definition iunlock :: "nat option \<Rightarrow> ('z fs_state_scheme, unit) kM" where
  "iunlock p =
     (case p of None \<Rightarrow> panic ''iunlock''
      | Some i \<Rightarrow>
          bnd (holdingsleep (InodeLock i)) (\<lambda>h.
          bnd (get_inode i) (\<lambda>ip.
          if \<not> h \<or> i_ref ip < 1 then panic ''iunlock''
          else releasesleep (InodeLock i))))"

section \<open>Inode content\<close>

definition bmap :: "nat \<Rightarrow> nat \<Rightarrow> ('z fs_state_scheme, u32) kM" where
  "bmap i bn =
     bnd (get_inode i) (\<lambda>ip.
     if bn < NDIRECT then
       (if i_addrs ip ! bn = 0 then
          bnd (balloc (i_dev ip)) (\<lambda>addr.
          seq (upd_inode i (\<lambda>ip. ip\<lparr>i_addrs := (i_addrs ip)[bn := addr]\<rparr>)) (
          ret addr))
        else ret (i_addrs ip ! bn))
     else
       let bn = bn - NDIRECT in
       if bn < NINDIRECT then
         bnd (if i_addrs ip ! NDIRECT = 0 then
                bnd (balloc (i_dev ip)) (\<lambda>addr.
                seq (upd_inode i (\<lambda>ip. ip\<lparr>i_addrs := (i_addrs ip)[NDIRECT := addr]\<rparr>)) (
                ret addr))
              else ret (i_addrs ip ! NDIRECT)) (\<lambda>addr.
         bnd (bread (i_dev ip) addr) (\<lambda>bp.
         bnd (get_buf bp) (\<lambda>x.
         bnd (if get32 (b_data x) (4 * bn) = 0 then
                bnd (balloc (i_dev ip)) (\<lambda>addr.
                seq (upd_data bp (\<lambda>d. put32 d (4 * bn) addr)) (
                seq (log_write bp) (
                ret addr)))
              else ret (get32 (b_data x) (4 * bn))) (\<lambda>addr.
         seq (brelse bp) (
         ret addr)))))
       else panic ''bmap: out of range'')"

definition itrunc :: "nat \<Rightarrow> ('z fs_state_scheme, unit) kM" where
  "itrunc i =
     seq (forM [0..<NDIRECT] (\<lambda>k.
            bnd (get_inode i) (\<lambda>ip.
            whenM (i_addrs ip ! k \<noteq> 0) (
              seq (bfree (i_dev ip) (i_addrs ip ! k))
                  (upd_inode i (\<lambda>ip. ip\<lparr>i_addrs := (i_addrs ip)[k := 0]\<rparr>)))))) (
     bnd (get_inode i) (\<lambda>ip.
     seq (whenM (i_addrs ip ! NDIRECT \<noteq> 0) (
            bnd (bread (i_dev ip) (i_addrs ip ! NDIRECT)) (\<lambda>bp.
            seq (forM [0..<NINDIRECT] (\<lambda>j.
                   bnd (get_buf bp) (\<lambda>x.
                   whenM (get32 (b_data x) (4 * j) \<noteq> 0) (bfree (i_dev ip) (get32 (b_data x) (4 * j)))))) (
            seq (brelse bp) (
            seq (bfree (i_dev ip) (i_addrs ip ! NDIRECT)) (
            upd_inode i (\<lambda>ip. ip\<lparr>i_addrs := (i_addrs ip)[NDIRECT := 0]\<rparr>))))))) (
     seq (upd_inode i (\<lambda>ip. ip\<lparr>i_size := 0\<rparr>)) (
     iupdate i))))"

definition iput :: "nat \<Rightarrow> ('z fs_state_scheme, unit) kM" where
  "iput i =
     seq (acquiresleep (InodeLock i)) (
     bnd (get_inode i) (\<lambda>ip.
     seq (whenM (i_valid ip \<and> i_nlink ip = 0) (
            seq (acquire IcacheLock) (
            bnd (get_inode i) (\<lambda>ip.
            let r = i_ref ip in
            seq (release IcacheLock) (
            whenM (r = 1) (
              seq (itrunc i) (
              seq (upd_inode i (\<lambda>ip. ip\<lparr>i_type := 0\<rparr>)) (
              seq (iupdate i) (
              upd_inode i (\<lambda>ip. ip\<lparr>i_valid := False\<rparr>)))))))))) (
     seq (releasesleep (InodeLock i)) (
     seq (acquire IcacheLock) (
     seq (upd_inode i (\<lambda>ip. ip\<lparr>i_ref := i_ref ip - 1\<rparr>)) (
     release IcacheLock))))))"

definition iunlockput :: "nat \<Rightarrow> ('z fs_state_scheme, unit) kM" where
  "iunlockput i = seq (iunlock (Some i)) (iput i)"

record stat =
  st_type :: u16
  st_dev :: u32
  st_ino :: u32
  st_nlink :: u16
  st_size :: u32

definition stati :: "nat \<Rightarrow> ('z fs_state_scheme, stat) kM" where
  "stati i =
     bnd (get_inode i) (\<lambda>ip.
     ret \<lparr>st_type = i_type ip, st_dev = i_dev ip, st_ino = i_inum ip, st_nlink = i_nlink ip, st_size = i_size ip\<rparr>)"

end
