(* ===== verification/Sched.thy ===== *)
theory Sched
  imports Proc Complex_Main
begin

text \<open>
  The processor loop of \<^verbatim>\<open>proc.c\<close> and its three scheduling levels: a lottery at level 0, highest
  response ratio next (HRRN) at level 1, smallest remaining priority at level 2.

  Response ratios are \<^verbatim>\<open>double\<close> quotients.  The parameter \<open>rnd\<close> is the rounding of the
  floating-point unit, from the exact quotient to the value compared; a division by zero yields an infinity or no number.
\<close>

section \<open>The code\<close>

definition run_p :: "nat \<Rightarrow> nat \<Rightarrow> ('z proc_state_scheme, unit) kM" where
  "run_p c i =
     seq (upd_proc i (\<lambda>p. p\<lparr>p_cycleNum := p_cycleNum p + 1\<rparr>)) (
     bnd (get_proc i) (\<lambda>p.
     if p_state p \<noteq> RUNNABLE then ret ()
     else
       seq (upd_cpu c (\<lambda>cp. cp\<lparr>cpu_proc := Some i\<rparr>)) (
       seq (switchuvm (Some p)) (
       seq (upd_proc i (\<lambda>p. p\<lparr>p_state := RUNNING\<rparr>)) (
       seq handover (
       seq switchkvm (
       upd_cpu c (\<lambda>cp. cp\<lparr>cpu_proc := None\<rparr>))))))))"

text \<open>Level 2: the scan for the smallest remaining priority carries the minimum and its pid.\<close>

primrec min_priority_loop :: "proc list \<Rightarrow> int \<Rightarrow> int \<Rightarrow> int" where
  "min_priority_loop [] min_priority min_priority_pid = min_priority_pid"
| "min_priority_loop (p # ps) min_priority min_priority_pid =
     (if p_level p = 2 \<and> p_state p = RUNNABLE \<and> p_remaining_priority p < min_priority
      then min_priority_loop ps (p_remaining_priority p) (p_pid p)
      else min_priority_loop ps min_priority min_priority_pid)"

definition run_third_level_processes :: "('z proc_state_scheme, unit) kM" where
  "run_third_level_processes =
     bnd mycpu (\<lambda>c.
     bnd (get (\<lambda>s. min_priority_loop (take NPROC (ptable s)) 1000000000 (- 1))) (\<lambda>pid.
     forM [0..<NPROC] (\<lambda>i.
       bnd (get_proc i) (\<lambda>p.
       whenM (p_pid p = pid) (
         seq (whenM (p_remaining_priority p - 1 \<ge> 0)
                (upd_proc i (\<lambda>p. p\<lparr>p_remaining_priority := p_remaining_priority p - 1\<rparr>))) (
         run_p c i))))))"

text \<open>The values of the type \<^verbatim>\<open>double\<close> that a quotient of non-negative numbers can have, and the comparison \<^verbatim>\<open>>\<close> on them.\<close>

datatype dbl = Num rat | PInf | NaN

fun dbl_gt :: "dbl \<Rightarrow> dbl \<Rightarrow> bool" where
  "dbl_gt (Num a) (Num b) \<longleftrightarrow> a > b"
| "dbl_gt PInf (Num b) \<longleftrightarrow> True"
| "dbl_gt _ _ \<longleftrightarrow> False"

text \<open>Level 1: \<^verbatim>\<open>now - p->arrTime\<close> is an unsigned difference.\<close>

definition hrrn :: "(rat \<Rightarrow> rat) \<Rightarrow> u32 \<Rightarrow> proc \<Rightarrow> dbl" where
  "hrrn rnd now p =
     (let waiting_time = unat (now - word_of_int (p_arrTime p)) in
      if p_cycleNum p = 0 then (if waiting_time = 0 then NaN else PInf)
      else Num (rnd (of_nat waiting_time / of_int (p_cycleNum p))))"

primrec max_hrrn_loop :: "(rat \<Rightarrow> rat) \<Rightarrow> u32 \<Rightarrow> proc list \<Rightarrow> dbl \<Rightarrow> int \<Rightarrow> int" where
  "max_hrrn_loop rnd now [] max_hrrn max_hrrn_pid = max_hrrn_pid"
| "max_hrrn_loop rnd now (p # ps) max_hrrn max_hrrn_pid =
     (if p_level p = 1 \<and> p_state p = RUNNABLE \<and> dbl_gt (hrrn rnd now p) max_hrrn
      then max_hrrn_loop rnd now ps (hrrn rnd now p) (p_pid p)
      else max_hrrn_loop rnd now ps max_hrrn max_hrrn_pid)"

definition run_second_level_processes :: "(rat \<Rightarrow> rat) \<Rightarrow> ('z proc_state_scheme, unit) kM" where
  "run_second_level_processes rnd =
     bnd mycpu (\<lambda>c.
     seq (acquire TicksLock) (
     bnd (get ticks) (\<lambda>now.
     seq (release TicksLock) (
     bnd (get (\<lambda>s. max_hrrn_loop rnd now (take NPROC (ptable s)) (Num (- 1)) (- 1))) (\<lambda>pid.
     forM [0..<NPROC] (\<lambda>i.
       bnd (get_proc i) (\<lambda>p.
       whenM (p_pid p = pid) (run_p c i))))))))"

text \<open>Level 0: the sum of the tickets, the drawn ticket, and the loop that runs the processes.  A
  sum of zero makes the remainder a division by zero, a fault in kernel mode.\<close>

primrec ticket_sum :: "proc list \<Rightarrow> int \<Rightarrow> int" where
  "ticket_sum [] max_ticket_number = max_ticket_number"
| "ticket_sum (p # ps) max_ticket_number =
     ticket_sum ps (if p_level p = 0 then wrap32 (max_ticket_number + p_ticket p) else max_ticket_number)"

definition draw_ticket :: "u32 \<Rightarrow> int \<Rightarrow> int" where
  "draw_ticket rand max_ticket_number = sint ((rand * 11 + 13) mod word_of_int max_ticket_number + 1)"

primrec lottery_loop :: "nat \<Rightarrow> int \<Rightarrow> nat list \<Rightarrow> int \<Rightarrow> ('z proc_state_scheme, unit) kM" where
  "lottery_loop c random_ticket [] random_counter = ret ()"
| "lottery_loop c random_ticket (i # is) random_counter =
     bnd (get_proc i) (\<lambda>p.
     if p_level p = 0 then
       let random_counter = wrap32 (random_counter + p_ticket p) in
       seq (whenM (random_ticket \<le> random_counter) (run_p c i))
           (lottery_loop c random_ticket is random_counter)
     else lottery_loop c random_ticket is random_counter)"

definition run_first_level_processes :: "('z proc_state_scheme, unit) kM" where
  "run_first_level_processes =
     bnd mycpu (\<lambda>c.
     bnd (get (\<lambda>s. ticket_sum (take NPROC (ptable s)) 0)) (\<lambda>total.
     seq (acquire TicksLock) (
     bnd (get ticks) (\<lambda>rand.
     seq (release TicksLock) (
     if total = 0 then panic ''trap''
     else lottery_loop c (draw_ticket rand total) [0..<NPROC] 0)))))"

text \<open>One of the three loops of \<^verbatim>\<open>scheduler\<close>: run the level for every runnable process of it that is
  met, and tell whether there was one.\<close>

primrec level_loop :: "int \<Rightarrow> ('z proc_state_scheme, unit) kM \<Rightarrow> nat list \<Rightarrow> bool \<Rightarrow> ('z proc_state_scheme, bool) kM" where
  "level_loop lvl run [] did = ret did"
| "level_loop lvl run (i # is) did =
     bnd (get_proc i) (\<lambda>p.
     if p_level p = lvl \<and> p_state p = RUNNABLE then seq run (level_loop lvl run is True)
     else level_loop lvl run is did)"

definition scheduler_round :: "(rat \<Rightarrow> rat) \<Rightarrow> ('z proc_state_scheme, unit) kM" where
  "scheduler_round rnd =
     seq sti (
     seq (acquire PtableLock) (
     bnd (level_loop 0 run_first_level_processes [0..<NPROC] False) (\<lambda>did.
     if did then release PtableLock
     else
       bnd (level_loop 1 (run_second_level_processes rnd) [0..<NPROC] False) (\<lambda>did.
       if did then release PtableLock
       else
         bnd (level_loop 2 run_third_level_processes [0..<NPROC] False) (\<lambda>_.
         release PtableLock)))))"

text \<open>The first \<open>n\<close> rounds of \<^verbatim>\<open>scheduler\<close>, which never returns.\<close>

primrec rounds :: "nat \<Rightarrow> ('z proc_state_scheme, unit) kM \<Rightarrow> ('z proc_state_scheme, unit) kM" where
  "rounds 0 m = ret ()"
| "rounds (Suc n) m = seq m (rounds n m)"

definition scheduler :: "(rat \<Rightarrow> rat) \<Rightarrow> nat \<Rightarrow> ('z proc_state_scheme, unit) kM" where
  "scheduler rnd n =
     bnd mycpu (\<lambda>c.
     seq (upd_cpu c (\<lambda>cp. cp\<lparr>cpu_proc := None\<rparr>)) (
     rounds n (scheduler_round rnd)))"

section \<open>Dispatching a process\<close>

lemma upd_cpu_run:
  "this_cpu (mach s) = Some c \<Longrightarrow> upd_cpu c f s es = Ret () (s\<lparr>mach := on_cpu f (mach s)\<rparr>) es"
  by (simp add: krun on_cpu_def the_cpu_def)

lemma switchuvm_run:
  assumes ok: "mach_ok (mach s)" and p: "p_kstack p \<noteq> 0" "p_pgdir p \<noteq> 0"
  shows "\<exists>m. (\<forall>es. switchuvm (Some p) s es = Ret () (s\<lparr>mach := m\<rparr>) es) \<and>
    this_cpu m = this_cpu (mach s) \<and> cpu_proc (the_cpu m) = cpu_proc (the_cpu (mach s)) \<and>
    cr3 m = V2P (p_pgdir p) \<and> ts_esp0 (the_cpu m) = p_kstack p + KSTACKSIZE \<and>
    locks m = locks (mach s) \<and> depth m = depth (mach s)"
proof -
  obtain c where c: "this_cpu (mach s) = Some c" using ok by (auto simp: mach_ok_def)
  have d: "0 \<le> depth (mach s)" using ok by (simp add: mach_ok_def)
  define ts where "ts = ts_addr s c"
  define F :: "cpu \<Rightarrow> cpu" where "F = (\<lambda>cp. cp\<lparr>gdt := ((gdt cp)[SEG_TSS := SEG16 STS_T32A ts (sizeof_taskstate - 1) 0])
      [SEG_TSS := ((gdt cp)[SEG_TSS := SEG16 STS_T32A ts (sizeof_taskstate - 1) 0] ! SEG_TSS)\<lparr>sd_s := 0\<rparr>],
      ts_ss0 := of_nat SEG_KDATA * 8, ts_esp0 := p_kstack p + KSTACKSIZE, ts_iomb := 0xFFFF\<rparr>)"
  define m1 where "m1 = on_cpu F (push (mach s))"
  define m2 where "m2 = m1\<lparr>task_reg := of_nat SEG_TSS * 8, cr3 := V2P (p_pgdir p)\<rparr>"
  have F: "apicid (F cp) = apicid cp" for cp by (simp add: F_def)
  have pc: "this_cpu (push (mach s)) = Some c" using c by simp
  have m1: "this_cpu m1 = Some c" "the_cpu m1 = F (the_cpu (push (mach s)))"
    using this_cpu_on_cpu [of F "push (mach s)", OF F] pc by (simp_all add: m1_def)
  have m2: "this_cpu m2 = Some c" "the_cpu m2 = the_cpu m1"
    using m1(1) by (simp_all add: m2_def this_cpu_def the_cpu_def)
  have dep: "depth m2 = depth (mach s) + 1"
    using c m2(2) m1(2) by (simp add: depth_def F_def) (simp add: push_def c)
  have ok2: "mach_ok m2" "0 < depth m2"
    using m2(1) dep d by (simp_all add: mach_ok_def m2_def m1_def c)
  have cpu: "mycpu (s\<lparr>mach := push (mach s)\<rparr>) es = Ret c (s\<lparr>mach := push (mach s)\<rparr>) es" for es
    using mycpu_run [of "s\<lparr>mach := push (mach s)\<rparr>" es] ok c by simp
  have pop: "popcli (s\<lparr>mach := m2\<rparr>) es = Ret () (s\<lparr>mach := pop m2\<rparr>) es" for es
    using popcli_run [of "s\<lparr>mach := m2\<rparr>" es] ok2 by simp
  have run: "switchuvm (Some p) s es = Ret () (s\<lparr>mach := pop m2\<rparr>) es" for es
    using p pushcli_run [OF ok, of es] cpu pop pc
    by (simp add: switchuvm_def bnd_run seq_run get_run set_gdt_def upd_cpu_run upd_mach_def upd_run lcr3_def
        on_cpu_on_cpu ts_def [symmetric] m2_def m1_def F_def)
  have "this_cpu (pop m2) = this_cpu (mach s)" "depth (pop m2) = depth (mach s)"
    using m2(1) c dep by simp_all
  moreover have "cpu_proc (the_cpu (pop m2)) = cpu_proc (the_cpu (mach s))"
    using m2 m1(2) pc c by (simp add: F_def)
  moreover have "ts_esp0 (the_cpu (pop m2)) = p_kstack p + KSTACKSIZE"
    using m2 m1(2) by (simp add: pop_def F_def)
  moreover have "cr3 (pop m2) = V2P (p_pgdir p)" "locks (pop m2) = locks (mach s)"
    using m2(1) c by (simp_all add: m2_def m1_def)
  ultimately show ?thesis using run by (intro exI [of _ "pop m2"]) simp
qed

text \<open>The state in which the scheduler has just handed the processor to slot \<open>i\<close>.\<close>

definition dispatched :: "nat \<Rightarrow> proc \<Rightarrow> 'z proc_state_scheme \<Rightarrow> bool" where
  "dispatched i p s \<longleftrightarrow> cpu_proc (the_cpu (mach s)) = Some i \<and> p_state (ptable s ! i) = RUNNING \<and>
     p_pid (ptable s ! i) = p_pid p \<and> cr3 (mach s) = V2P (p_pgdir p) \<and>
     ts_esp0 (the_cpu (mach s)) = p_kstack p + KSTACKSIZE"

definition bump :: "proc \<Rightarrow> proc" where
  "bump p = p\<lparr>p_cycleNum := p_cycleNum p + 1\<rparr>"

lemma run_p_skip:
  "i < length (ptable s) \<Longrightarrow> p_state (ptable s ! i) \<noteq> RUNNABLE \<Longrightarrow>
     run_p c i s es = Ret () (s\<lparr>ptable := (ptable s)[i := bump (ptable s ! i)]\<rparr>) es"
  by (simp add: run_p_def krun bump_def)

lemma run_p_dispatch:
  assumes ok: "mach_ok (mach s)" "this_cpu (mach s) = Some c" "i < length (ptable s)"
    and p: "p_state (ptable s ! i) = RUNNABLE" "p_kstack (ptable s ! i) \<noteq> 0" "p_pgdir (ptable s ! i) \<noteq> 0"
  shows "\<exists>s'. run_p c i s [] = Blocked s' \<and> dispatched i (ptable s ! i) s'"
proof -
  let ?p = "bump (ptable s ! i)"
  let ?f = "\<lambda>cp. cp\<lparr>cpu_proc := Some i\<rparr>"
  define s1 where "s1 = s\<lparr>ptable := (ptable s)[i := ?p], mach := on_cpu ?f (mach s)\<rparr>"
  have m: "mach_ok (mach s1)" "cpu_proc (the_cpu (mach s1)) = Some i" "ptable s1 = (ptable s)[i := ?p]"
    using ok by (simp_all add: s1_def mach_ok_def depth_def)
  obtain m' where m': "\<And>es. switchuvm (Some ?p) s1 es = Ret () (s1\<lparr>mach := m'\<rparr>) es"
    "cpu_proc (the_cpu m') = Some i" "cr3 m' = V2P (p_pgdir ?p)" "ts_esp0 (the_cpu m') = p_kstack ?p + KSTACKSIZE"
    using switchuvm_run [OF m(1), of ?p] p m(2) by (auto simp: bump_def)
  have "run_p c i s [] = Blocked (s1\<lparr>mach := m', ptable := (ptable s)[i := ?p\<lparr>p_state := RUNNING\<rparr>]\<rparr>)"
    using m'(1) p(1) ok by (simp add: run_p_def bnd_run seq_run get_proc_def upd_proc_def get_run upd_run
        upd_cpu_run handover_Nil s1_def bump_def)
  then show ?thesis
    using m' ok(3) by (simp add: dispatched_def bump_def)
qed

section \<open>What the three levels choose\<close>

lemma min_priority_loop_spec:
  "(\<forall>q \<in> set ps. p_level q = 2 \<and> p_state q = RUNNABLE \<longrightarrow> m \<le> p_remaining_priority q) \<and>
     min_priority_loop ps m pid = pid \<or>
   (\<exists>p \<in> set ps. p_level p = 2 \<and> p_state p = RUNNABLE \<and> p_remaining_priority p < m \<and>
     min_priority_loop ps m pid = p_pid p \<and>
     (\<forall>q \<in> set ps. p_level q = 2 \<and> p_state q = RUNNABLE \<longrightarrow> p_remaining_priority p \<le> p_remaining_priority q))"
proof (induction ps arbitrary: m pid)
  case (Cons r ps)
  show ?case
  proof (cases "p_level r = 2 \<and> p_state r = RUNNABLE \<and> p_remaining_priority r < m")
    case True
    then have eq: "min_priority_loop (r # ps) m pid = min_priority_loop ps (p_remaining_priority r) (p_pid r)" by simp
    from Cons.IH [of "p_remaining_priority r" "p_pid r"] show ?thesis
    proof (elim disjE bexE conjE, goal_cases)
      case 1
      then show ?thesis using True eq by (intro disjI2 bexI [of _ r]) auto
    next
      case (2 p)
      then show ?thesis using True eq by (intro disjI2 bexI [of _ p]) auto
    qed
  next
    case False
    then have eq: "min_priority_loop (r # ps) m pid = min_priority_loop ps m pid" by auto
    from Cons.IH [of m pid] show ?thesis
    proof (elim disjE bexE conjE, goal_cases)
      case 1
      then show ?thesis using False eq by (intro disjI1) auto
    next
      case (2 p)
      then show ?thesis using False eq by (intro disjI2 bexI [of _ p]) auto
    qed
  qed
qed simp

lemma dbl_gt_irrefl: "\<not> dbl_gt x x"
  by (cases x) simp_all

lemma dbl_gt_trans: "dbl_gt x y \<Longrightarrow> dbl_gt y z \<Longrightarrow> dbl_gt x z"
  by (cases x; cases y; cases z) simp_all

lemma dbl_gt_asym: "dbl_gt x y \<Longrightarrow> \<not> dbl_gt y x"
  by (cases x; cases y) simp_all

lemma max_hrrn_loop_spec:
  "(\<forall>q \<in> set ps. p_level q = 1 \<and> p_state q = RUNNABLE \<longrightarrow> \<not> dbl_gt (hrrn rnd now q) h) \<and>
     max_hrrn_loop rnd now ps h pid = pid \<or>
   (\<exists>p \<in> set ps. p_level p = 1 \<and> p_state p = RUNNABLE \<and> dbl_gt (hrrn rnd now p) h \<and>
     max_hrrn_loop rnd now ps h pid = p_pid p \<and>
     (\<forall>q \<in> set ps. p_level q = 1 \<and> p_state q = RUNNABLE \<longrightarrow> \<not> dbl_gt (hrrn rnd now q) (hrrn rnd now p)))"
proof (induction ps arbitrary: h pid)
  case (Cons r ps)
  show ?case
  proof (cases "p_level r = 1 \<and> p_state r = RUNNABLE \<and> dbl_gt (hrrn rnd now r) h")
    case True
    then have eq: "max_hrrn_loop rnd now (r # ps) h pid = max_hrrn_loop rnd now ps (hrrn rnd now r) (p_pid r)" by simp
    from Cons.IH [of "hrrn rnd now r" "p_pid r"] show ?thesis
    proof (elim disjE bexE conjE, goal_cases)
      case 1
      then show ?thesis using True eq dbl_gt_irrefl by (intro disjI2 bexI [of _ r]) auto
    next
      case (2 p)
      then show ?thesis using True eq dbl_gt_trans [of "hrrn rnd now p" "hrrn rnd now r" h] dbl_gt_asym [of "hrrn rnd now p" "hrrn rnd now r"]
        by (intro disjI2 bexI [of _ p]) auto
    qed
  next
    case False
    then have eq: "max_hrrn_loop rnd now (r # ps) h pid = max_hrrn_loop rnd now ps h pid" by auto
    from Cons.IH [of h pid] show ?thesis
    proof (elim disjE bexE conjE, goal_cases)
      case 1
      then show ?thesis using False eq by (intro disjI1) auto
    next
      case (2 p)
      then show ?thesis using False eq dbl_gt_trans [of "hrrn rnd now r" "hrrn rnd now p" h] by (intro disjI2 bexI [of _ p]) auto
    qed
  qed
qed simp

text \<open>The drawn ticket is between one and the number of tickets.\<close>

lemma draw_ticket_range:
  assumes "0 < n" "n < 2 ^ 31"
  shows "1 \<le> draw_ticket r n \<and> draw_ticket r n \<le> n"
proof -
  let ?w = "word_of_int n :: u32"
  have w: "uint ?w = n" using assms by (simp add: uint_word_of_int)
  let ?x = "(r * 11 + 13) mod ?w"
  have x: "0 \<le> uint ?x" "uint ?x < n" using assms w by (simp_all add: uint_mod)
  have "uint (?x + 1) = uint ?x + 1"
    using x assms(2) by (simp add: uint_word_ariths)
  moreover have "sint (?x + 1) = uint (?x + 1)"
    using x assms(2) calculation by (simp add: sint_uint signed_take_bit_int_eq_self)
  ultimately show ?thesis using x by (simp add: draw_ticket_def)
qed

text \<open>The process the lottery gives the processor to first: the first runnable one from the slot
  that holds the drawn ticket on.\<close>

primrec lottery_pick :: "int \<Rightarrow> proc list \<Rightarrow> int \<Rightarrow> nat \<Rightarrow> nat option" where
  "lottery_pick rt [] rc k = None"
| "lottery_pick rt (p # ps) rc k =
     (if p_level p = 0 then
        let rc = wrap32 (rc + p_ticket p) in
        if rt \<le> rc \<and> p_state p = RUNNABLE then Some k else lottery_pick rt ps rc (Suc k)
      else lottery_pick rt ps rc (Suc k))"

text \<open>Tables that differ in the cycle counters only.\<close>

definition key :: "proc \<Rightarrow> proc" where
  "key p = p\<lparr>p_cycleNum := 0\<rparr>"

definition same_table :: "proc list \<Rightarrow> proc list \<Rightarrow> bool" where
  "same_table T T' \<longleftrightarrow> map key T' = map key T"

lemma key_fields:
  "key p = key q \<Longrightarrow> p_level p = p_level q \<and> p_state p = p_state q \<and> p_ticket p = p_ticket q \<and>
     p_pid p = p_pid q \<and> p_kstack p = p_kstack q \<and> p_pgdir p = p_pgdir q \<and>
     p_remaining_priority p = p_remaining_priority q"
  unfolding key_def by (cases p; cases q) simp

lemma same_table_nth:
  assumes "same_table T T'" "i < length T"
  shows "key (T' ! i) = key (T ! i)"
  using assms unfolding same_table_def by (metis length_map nth_map)

lemma same_table_length: "same_table T T' \<Longrightarrow> length T' = length T"
  unfolding same_table_def by (metis length_map)

lemma same_table_refl [simp]: "same_table T T"
  by (simp add: same_table_def)

lemma same_table_trans: "same_table T T' \<Longrightarrow> same_table T' T'' \<Longrightarrow> same_table T T''"
  by (simp add: same_table_def)

lemma same_table_bump: "i < length T \<Longrightarrow> same_table T (T[i := bump (T ! i)])"
  by (simp add: same_table_def map_update bump_def key_def list_update_same_conv)

lemma lottery_pick_key: "map key ps = map key qs \<Longrightarrow> lottery_pick rt ps rc k = lottery_pick rt qs rc k"
proof (induction ps arbitrary: qs rc k)
  case (Cons p ps)
  then obtain q qs' where qs: "qs = q # qs'" "key p = key q" "map key ps = map key qs'"
    by (cases qs) auto
  show ?case using Cons.IH [OF qs(3)] key_fields [OF qs(2)] qs(1) by (simp add: Let_def)
qed simp

lemma ticket_sum_key: "map key ps = map key qs \<Longrightarrow> ticket_sum ps n = ticket_sum qs n"
proof (induction ps arbitrary: qs n)
  case (Cons p ps)
  then obtain q qs' where qs: "qs = q # qs'" "key p = key q" "map key ps = map key qs'"
    by (cases qs) auto
  show ?case using Cons.IH [OF qs(3)] key_fields [OF qs(2)] qs(1) by simp
qed simp

text \<open>What every runnable process has, so that the switch to it cannot panic.\<close>

definition runnable_ok :: "proc list \<Rightarrow> bool" where
  "runnable_ok T \<longleftrightarrow> (\<forall>p \<in> set T. p_state p = RUNNABLE \<longrightarrow> p_kstack p \<noteq> 0 \<and> p_pgdir p \<noteq> 0)"

lemma runnable_ok_nth:
  assumes "runnable_ok T" "same_table T T'" "i < length T" "p_state (T' ! i) = RUNNABLE"
  shows "p_kstack (T' ! i) \<noteq> 0 \<and> p_pgdir (T' ! i) \<noteq> 0"
  using assms key_fields [OF same_table_nth [OF assms(2,3)]] unfolding runnable_ok_def
  by (metis nth_mem)

lemma lottery_loop_run:
  assumes "mach_ok (mach s)" "this_cpu (mach s) = Some c" "runnable_ok T" "same_table T (ptable s)" "n \<le> length T"
  shows "case lottery_pick rt (take (n - k) (drop k T)) rc k of
      Some i \<Rightarrow> i < n \<and> p_state (T ! i) = RUNNABLE \<and> (\<exists>s'. lottery_loop c rt [k..<n] rc s [] = Blocked s' \<and> dispatched i (T ! i) s')
    | None \<Rightarrow> \<exists>T'. same_table T T' \<and> lottery_loop c rt [k..<n] rc s [] = Ret () (s\<lparr>ptable := T'\<rparr>) []"
  using assms
proof (induction "n - k" arbitrary: k rc s)
  case 0
  then show ?case by (auto intro!: exI [of _ "ptable s"])
next
  case (Suc x)
  then have k: "k < n" "k < length T" "[k..<n] = k # [Suc k..<n]" "x = n - Suc k" by (simp_all add: upt_conv_Cons)
  have take: "take (n - k) (drop k T) = T ! k # take (n - Suc k) (drop (Suc k) T)"
    using k by (metis Cons_nth_drop_Suc Suc.hyps(2) take_Suc_Cons)
  have len: "length (ptable s) = length T" by (rule same_table_length [OF Suc.prems(4)])
  note kf = key_fields [OF same_table_nth [OF Suc.prems(4) k(2)]]
  show ?case
  proof (cases "p_level (T ! k) = 0")
    case False
    then have "lottery_loop c rt [k..<n] rc s [] = lottery_loop c rt [Suc k..<n] rc s []"
      using kf k(3) by (simp add: bnd_run get_proc_def get_run)
    then show ?thesis
      using Suc.hyps(1) [OF k(4) Suc.prems, of rc] False take by (simp split: option.splits)
  next
    case True
    let ?rc = "wrap32 (rc + p_ticket (T ! k))"
    show ?thesis
    proof (cases "rt \<le> ?rc")
      case no: False
      then have "lottery_loop c rt [k..<n] rc s [] = lottery_loop c rt [Suc k..<n] ?rc s []"
        using kf k(3) True by (simp add: bnd_run seq_run whenM_run get_proc_def get_run Let_def)
      then show ?thesis
        using Suc.hyps(1) [OF k(4) Suc.prems, of ?rc] True no take by (simp add: Let_def split: option.splits)
    next
      case yes: True
      show ?thesis
      proof (cases "p_state (T ! k) = RUNNABLE")
        case run: True
        then obtain s' where "run_p c k s [] = Blocked s'" "dispatched k (ptable s ! k) s'"
          using run_p_dispatch [OF Suc.prems(1,2), of k] kf len k(2)
            runnable_ok_nth [OF Suc.prems(3,4) k(2)] by auto
        then show ?thesis
          using kf k(1,3) True yes run take
          by (simp add: bnd_run seq_run whenM_run get_proc_def get_run Let_def dispatched_def)
      next
        case idle: False
        let ?s = "s\<lparr>ptable := (ptable s)[k := bump (ptable s ! k)]\<rparr>"
        have "run_p c k s [] = Ret () ?s []"
          using run_p_skip [of k s c "[]"] idle kf len k(2) by simp
        then have "lottery_loop c rt [k..<n] rc s [] = lottery_loop c rt [Suc k..<n] ?rc ?s []"
          using kf k(3) True yes by (simp add: bnd_run seq_run whenM_run get_proc_def get_run Let_def)
        moreover have "same_table T (ptable ?s)"
          using same_table_trans [OF Suc.prems(4) same_table_bump] k(2) len by simp
        ultimately show ?thesis
          using Suc.hyps(1) [OF k(4), of ?s ?rc] Suc.prems True yes idle take
          by (simp add: Let_def split: option.splits)
      qed
    qed
  qed
qed

section \<open>A round of the scheduler\<close>

text \<open>The state inside a round, before any process has been given the processor.\<close>

definition in_round :: "machine \<Rightarrow> u32 \<Rightarrow> proc list \<Rightarrow> 'z proc_state_scheme \<Rightarrow> bool" where
  "in_round m\<^sub>0 now T s \<longleftrightarrow> inside m\<^sub>0 {PtableLock} (mach s) \<and> ticks s = now \<and> same_table T (ptable s)"

definition chosen :: "proc list \<Rightarrow> nat option \<Rightarrow> ('z proc_state_scheme \<Rightarrow> bool) \<Rightarrow> 'a \<Rightarrow>
    ('z proc_state_scheme, 'a) outcome \<Rightarrow> bool" where
  "chosen T pick I a out \<longleftrightarrow> (case pick of
     Some i \<Rightarrow> i < length T \<and> p_state (T ! i) = RUNNABLE \<and> (\<exists>s'. out = Blocked s' \<and> dispatched i (T ! i) s')
   | None \<Rightarrow> \<exists>s'. I s' \<and> out = Ret a s' [])"

lemma read_ticks:
  assumes "mach_ok m\<^sub>0" "lock_free m\<^sub>0 TicksLock" "inside m\<^sub>0 {PtableLock} (mach s)"
  shows "\<exists>m. inside m\<^sub>0 {PtableLock} m \<and> (\<forall>k es.
    seq (acquire TicksLock) (bnd (get ticks) (\<lambda>now. seq (release TicksLock) (k now))) s es =
    k (ticks s) (s\<lparr>mach := m\<rparr>) es)"
proof -
  let ?m = "acq (mem s) TicksLock (mach s)"
  have w: "inside m\<^sub>0 {TicksLock, PtableLock} ?m" using inside_acq [OF assms(1,3,2)] by simp
  have a: "acquire TicksLock s es = Ret () (s\<lparr>mach := ?m\<rparr>) es" for es
    using acquire_run [of s TicksLock es] inside_ok [OF assms(1,3)] inside_free [OF assms(3,2)] by simp
  have r: "release TicksLock (s\<lparr>mach := ?m\<rparr>) es = Ret () (s\<lparr>mach := rel TicksLock ?m\<rparr>) es" for es
    using release_run [of "s\<lparr>mach := ?m\<rparr>" TicksLock es] inside_ok [OF assms(1) w]
      inside_depth [OF assms(1) w, of TicksLock] inside_holds [OF w, of TicksLock] by simp
  have "inside m\<^sub>0 ({TicksLock, PtableLock} - {TicksLock}) (rel TicksLock ?m)"
    by (rule inside_rel [OF assms(1) w]) simp
  moreover have "{TicksLock, PtableLock} - {TicksLock} = {PtableLock}" by auto
  ultimately show ?thesis
    using a r by (intro exI [of _ "rel TicksLock ?m"]) (simp add: seq_run bnd_run get_run)
qed

lemma in_round_cpu:
  assumes "mach_ok m\<^sub>0" "inside m\<^sub>0 {PtableLock} m"
  shows "mach_ok m" "\<not> IF m" "this_cpu m = this_cpu m\<^sub>0" "this_cpu m\<^sub>0 \<noteq> None"
  using inside_ok [OF assms] assms by (auto simp: inside_def mach_ok_def)

lemma run_first_level:
  assumes ok: "mach_ok m\<^sub>0" "lock_free m\<^sub>0 TicksLock" and T: "length T = NPROC" "runnable_ok T" "ticket_sum T 0 \<noteq> 0"
    and s: "in_round m\<^sub>0 now T s"
  shows "chosen T (lottery_pick (draw_ticket now (ticket_sum T 0)) T 0 0) (in_round m\<^sub>0 now T) ()
    (run_first_level_processes s [])"
proof -
  have w: "inside m\<^sub>0 {PtableLock} (mach s)" and tk: "ticks s = now" and st: "same_table T (ptable s)"
    using s by (simp_all add: in_round_def)
  obtain c where c: "this_cpu m\<^sub>0 = Some c" using in_round_cpu(4) [OF ok(1) w] by blast
  have cpu: "mycpu s [] = Ret c s []"
    using mycpu_run [of s "[]"] in_round_cpu [OF ok(1) w] c by simp
  obtain m where m: "inside m\<^sub>0 {PtableLock} m" "\<And>k :: u32 \<Rightarrow> ('a proc_state_scheme, unit) kM. \<And>es.
      seq (acquire TicksLock) (bnd (get ticks) (\<lambda>now. seq (release TicksLock) (k now))) s es = k (ticks s) (s\<lparr>mach := m\<rparr>) es"
    using read_ticks [OF ok w] by blast
  have sum: "ticket_sum (take NPROC (ptable s)) 0 = ticket_sum T 0"
    using st T(1) same_table_length [OF st] by (intro ticket_sum_key) (simp add: same_table_def)
  let ?rt = "draw_ticket now (ticket_sum T 0)"
  have run: "run_first_level_processes s [] = lottery_loop c ?rt [0..<NPROC] 0 (s\<lparr>mach := m\<rparr>) []"
    using m(2) [of "\<lambda>rand. if ticket_sum T 0 = 0 then panic ''trap'' else lottery_loop c (draw_ticket rand (ticket_sum T 0)) [0..<NPROC] 0" "[]"]
      sum tk T(3) by (simp add: run_first_level_processes_def bnd_run get_run cpu)
  have "same_table T (ptable (s\<lparr>mach := m\<rparr>))" using st by simp
  from lottery_loop_run [OF _ _ T(2) this, of c NPROC ?rt 0 0] in_round_cpu [OF ok(1) m(1)] c T(1)
  show ?thesis
    unfolding chosen_def run using m(1) tk by (auto simp: in_round_def split: option.splits)
qed

text \<open>A scan that acts on the one slot with a given pid.\<close>

lemma forM_skip:
  "(\<And>i. i \<in> set xs \<Longrightarrow> f i s es = Ret () s es) \<Longrightarrow> forM xs f s es = Ret () s es"
  by (induction xs) (auto simp: seq_run)

lemma scan_pid:
  fixes f :: "nat \<Rightarrow> proc \<Rightarrow> ('z proc_state_scheme, unit) kM" and pid :: int
  assumes "length (ptable s) = NPROC"
  defines "g \<equiv> \<lambda>i. bnd (get_proc i) (\<lambda>p. whenM (p_pid p = pid) (f i p))"
  shows "find_from (\<lambda>p. p_pid p = pid) (ptable s) 0 = None \<Longrightarrow> forM [0..<NPROC] g s es = Ret () s es"
    "find_from (\<lambda>p. p_pid p = pid) (ptable s) 0 = Some i \<Longrightarrow> f i (ptable s ! i) s es = Blocked s' \<Longrightarrow>
       forM [0..<NPROC] g s es = Blocked s'"
proof -
  assume "find_from (\<lambda>p. p_pid p = pid) (ptable s) 0 = None"
  then have "p_pid (ptable s ! j) \<noteq> pid" if "j < NPROC" for j
    using that assms(1) by (auto simp: find_from_None)
  then show "forM [0..<NPROC] g s es = Ret () s es"
    by (intro forM_skip) (simp add: g_def bnd_run get_proc_def get_run whenM_run)
next
  assume "find_from (\<lambda>p. p_pid p = pid) (ptable s) 0 = Some i" and f: "f i (ptable s ! i) s es = Blocked s'"
  then have i: "i < NPROC" "p_pid (ptable s ! i) = pid" "\<forall>j < i. p_pid (ptable s ! j) \<noteq> pid"
    using assms(1) by (auto simp: find_from_0)
  have "forM [0..<i] g s es = Ret () s es"
    using i(3) by (intro forM_skip) (simp add: g_def bnd_run get_proc_def get_run whenM_run)
  moreover have "[0..<NPROC] = [0..<i] @ i # [Suc i..<NPROC]"
    using i(1) upt_add_eq_append [of 0 i "NPROC - i"] by (simp add: upt_conv_Cons)
  moreover have "g i s es = Blocked s'"
    using f i(2) by (simp add: g_def bnd_run get_proc_def get_run whenM_run)
  ultimately show "forM [0..<NPROC] g s es = Blocked s'"
    by (simp add: forM_append seq_run)
qed

text \<open>Runnable processes have distinct pids, shared with no other slot, and none has pid \<open>-1\<close>.\<close>

definition pids_ok :: "proc list \<Rightarrow> bool" where
  "pids_ok T \<longleftrightarrow> (\<forall>i < length T. \<forall>j < length T. p_state (T ! i) = RUNNABLE \<and> p_pid (T ! j) = p_pid (T ! i) \<longrightarrow> i = j) \<and>
     (\<forall>p \<in> set T. p_pid p \<noteq> - 1)"

lemma pids_ok_find:
  assumes "pids_ok T" "i < length T" "p_state (T ! i) = RUNNABLE"
  shows "find_from (\<lambda>p. p_pid p = p_pid (T ! i)) T 0 = Some i"
  using assms unfolding find_from_0 pids_ok_def by (metis less_trans less_irrefl)

definition pick_hrrn :: "(rat \<Rightarrow> rat) \<Rightarrow> u32 \<Rightarrow> proc list \<Rightarrow> nat option" where
  "pick_hrrn rnd now T = find_from (\<lambda>p. p_pid p = max_hrrn_loop rnd now T (Num (- 1)) (- 1)) T 0"

definition pick_priority :: "proc list \<Rightarrow> nat option" where
  "pick_priority T = find_from (\<lambda>p. p_pid p = min_priority_loop T 1000000000 (- 1)) T 0"

lemma pick_hrrn_spec:
  assumes "pids_ok T"
  shows "case pick_hrrn rnd now T of
      Some i \<Rightarrow> i < length T \<and> p_level (T ! i) = 1 \<and> p_state (T ! i) = RUNNABLE \<and>
        (\<forall>q \<in> set T. p_level q = 1 \<and> p_state q = RUNNABLE \<longrightarrow> \<not> dbl_gt (hrrn rnd now q) (hrrn rnd now (T ! i)))
    | None \<Rightarrow> \<forall>q \<in> set T. p_level q = 1 \<and> p_state q = RUNNABLE \<longrightarrow> \<not> dbl_gt (hrrn rnd now q) (Num (- 1))"
  using max_hrrn_loop_spec [of T rnd now "Num (- 1)" "- 1"]
proof (elim disjE bexE conjE, goal_cases)
  case 1
  then have "pick_hrrn rnd now T = None"
    using assms by (auto simp: pick_hrrn_def find_from_None pids_ok_def)
  then show ?case using 1 by simp
next
  case (2 p)
  then obtain i where i: "i < length T" "T ! i = p" by (auto simp: in_set_conv_nth)
  then have "pick_hrrn rnd now T = Some i"
    using pids_ok_find [OF assms i(1)] 2 by (simp add: pick_hrrn_def)
  then show ?case using 2 i by simp
qed

lemma pick_priority_spec:
  assumes "pids_ok T"
  shows "case pick_priority T of
      Some i \<Rightarrow> i < length T \<and> p_level (T ! i) = 2 \<and> p_state (T ! i) = RUNNABLE \<and> p_remaining_priority (T ! i) < 1000000000 \<and>
        (\<forall>q \<in> set T. p_level q = 2 \<and> p_state q = RUNNABLE \<longrightarrow> p_remaining_priority (T ! i) \<le> p_remaining_priority q)
    | None \<Rightarrow> \<forall>q \<in> set T. p_level q = 2 \<and> p_state q = RUNNABLE \<longrightarrow> 1000000000 \<le> p_remaining_priority q"
  using min_priority_loop_spec [of T 1000000000 "- 1"]
proof (elim disjE bexE conjE, goal_cases)
  case 1
  then have "pick_priority T = None"
    using assms by (auto simp: pick_priority_def find_from_None pids_ok_def)
  then show ?case using 1 by simp
next
  case (2 p)
  then obtain i where i: "i < length T" "T ! i = p" by (auto simp: in_set_conv_nth)
  then have "pick_priority T = Some i"
    using pids_ok_find [OF assms i(1)] 2 by (simp add: pick_priority_def)
  then show ?case using 2 i by simp
qed

definition in_round_eq :: "machine \<Rightarrow> u32 \<Rightarrow> proc list \<Rightarrow> 'z proc_state_scheme \<Rightarrow> bool" where
  "in_round_eq m\<^sub>0 now T s \<longleftrightarrow> inside m\<^sub>0 {PtableLock} (mach s) \<and> ticks s = now \<and> ptable s = T"

lemma run_second_level:
  assumes ok: "mach_ok m\<^sub>0" "lock_free m\<^sub>0 TicksLock" and T: "length T = NPROC" "runnable_ok T" "pids_ok T"
    and s: "in_round_eq m\<^sub>0 now T s"
  shows "chosen T (pick_hrrn rnd now T) (in_round_eq m\<^sub>0 now T) () (run_second_level_processes rnd s [])"
proof -
  have w: "inside m\<^sub>0 {PtableLock} (mach s)" and tk: "ticks s = now" and st: "ptable s = T"
    using s by (simp_all add: in_round_eq_def)
  obtain c where c: "this_cpu m\<^sub>0 = Some c" using in_round_cpu(4) [OF ok(1) w] by blast
  have cpu: "mycpu s [] = Ret c s []"
    using mycpu_run [of s "[]"] in_round_cpu [OF ok(1) w] c by simp
  obtain m where m: "inside m\<^sub>0 {PtableLock} m" "\<And>k :: u32 \<Rightarrow> ('a proc_state_scheme, unit) kM. \<And>es.
      seq (acquire TicksLock) (bnd (get ticks) (\<lambda>now. seq (release TicksLock) (k now))) s es = k (ticks s) (s\<lparr>mach := m\<rparr>) es"
    using read_ticks [OF ok w] by blast
  let ?pid = "max_hrrn_loop rnd now T (Num (- 1)) (- 1)"
  let ?scan = "forM [0..<NPROC] (\<lambda>i. bnd (get_proc i) (\<lambda>p. whenM (p_pid p = ?pid) (run_p c i)))"
  let ?s = "s\<lparr>mach := m\<rparr>"
  have run: "run_second_level_processes rnd s [] = ?scan ?s []"
    unfolding run_second_level_processes_def bnd_run [of mycpu] cpu outcome.case m(2)
    using st T(1) tk by (simp add: bnd_run get_run)
  note scan = scan_pid [where s = ?s and pid = ?pid and f = "\<lambda>i p. run_p c i" and es = "[]"]
  show ?thesis
  proof (cases "pick_hrrn rnd now T")
    case None
    then have "run_second_level_processes rnd s [] = Ret () ?s []"
      using run scan(1) st T(1) by (simp add: pick_hrrn_def)
    then show ?thesis using None m(1) tk st by (simp add: chosen_def in_round_eq_def)
  next
    case (Some i)
    then have i: "i < length T" "p_state (T ! i) = RUNNABLE"
      using pick_hrrn_spec [OF T(3), of rnd now] by simp_all
    obtain s' where "run_p c i ?s [] = Blocked s'" "dispatched i (T ! i) s'"
      using run_p_dispatch [of ?s c i] in_round_cpu [OF ok(1) m(1)] c i st runnable_ok_nth [OF T(2) same_table_refl i] by auto
    then show ?thesis
      using Some run scan(2) [where i = i and s' = s'] st T(1) i by (simp add: chosen_def pick_hrrn_def)
  qed
qed

lemma run_third_level:
  assumes ok: "mach_ok m\<^sub>0" and T: "length T = NPROC" "runnable_ok T" "pids_ok T" and s: "in_round_eq m\<^sub>0 now T s"
  shows "chosen T (pick_priority T) (in_round_eq m\<^sub>0 now T) () (run_third_level_processes s [])"
proof -
  have w: "inside m\<^sub>0 {PtableLock} (mach s)" and st: "ptable s = T"
    using s by (simp_all add: in_round_eq_def)
  obtain c where c: "this_cpu m\<^sub>0 = Some c" using in_round_cpu(4) [OF ok(1) w] by blast
  have cpu: "mycpu s [] = Ret c s []"
    using mycpu_run [of s "[]"] in_round_cpu [OF ok(1) w] c by simp
  let ?pid = "min_priority_loop T 1000000000 (- 1)"
  define f :: "nat \<Rightarrow> proc \<Rightarrow> ('a proc_state_scheme, unit) kM" where
    "f = (\<lambda>i p. seq (whenM (p_remaining_priority p - 1 \<ge> 0)
                (upd_proc i (\<lambda>p. p\<lparr>p_remaining_priority := p_remaining_priority p - 1\<rparr>))) (run_p c i))"
  have run: "run_third_level_processes s [] =
      forM [0..<NPROC] (\<lambda>i. bnd (get_proc i) (\<lambda>p. whenM (p_pid p = ?pid) (f i p))) s []"
    unfolding run_third_level_processes_def bnd_run [of mycpu] cpu outcome.case
    using st T(1) by (simp add: bnd_run get_run f_def)
  note scan = scan_pid [where s = s and pid = ?pid and f = f and es = "[]"]
  show ?thesis
  proof (cases "pick_priority T")
    case None
    then have "run_third_level_processes s [] = Ret () s []"
      using run scan(1) st T(1) by (simp add: pick_priority_def)
    then show ?thesis using None s by (simp add: chosen_def)
  next
    case (Some i)
    then have i: "i < length T" "p_state (T ! i) = RUNNABLE"
      using pick_priority_spec [OF T(3)] by simp_all
    define p where "p = (if p_remaining_priority (T ! i) - 1 \<ge> 0
      then (T ! i)\<lparr>p_remaining_priority := p_remaining_priority (T ! i) - 1\<rparr> else T ! i)"
    let ?s = "s\<lparr>ptable := T[i := p]\<rparr>"
    have p: "p_state p = RUNNABLE" "p_pid p = p_pid (T ! i)" "p_kstack p = p_kstack (T ! i)" "p_pgdir p = p_pgdir (T ! i)"
      using i by (simp_all add: p_def)
    have "f i (T ! i) s [] = run_p c i ?s []"
      using st i by (cases s) (simp add: f_def p_def krun)
    moreover obtain s' where "run_p c i ?s [] = Blocked s'" "dispatched i p s'"
      using run_p_dispatch [of ?s c i] in_round_cpu [OF ok w] c i p runnable_ok_nth [OF T(2) same_table_refl i] by auto
    ultimately show ?thesis
      using Some run scan(2) [where i = i and s' = s'] st T(1) i p by (simp add: chosen_def pick_priority_def dispatched_def)
  qed
qed

definition has_level :: "int \<Rightarrow> proc list \<Rightarrow> bool" where
  "has_level l T \<longleftrightarrow> (\<exists>p \<in> set T. p_level p = l \<and> p_state p = RUNNABLE)"

lemma level_loop_none:
  assumes "\<And>i. i \<in> set is \<Longrightarrow> \<not> (p_level (ptable s ! i) = l \<and> p_state (ptable s ! i) = RUNNABLE)"
  shows "level_loop l run is did s es = Ret did s es"
  using assms by (induction "is") (auto simp: bnd_run get_proc_def get_run krun)

lemma level_loop_run:
  fixes run :: "('z proc_state_scheme, unit) kM"
  assumes run: "\<And>s. I s \<Longrightarrow> chosen T pick I () (run s [])"
    and I: "\<And>s. I s \<Longrightarrow> same_table T (ptable s)" and s: "I s"
    and "is": "\<And>i. i \<in> set is \<Longrightarrow> i < length T"
    and some: "did \<or> (\<exists>i \<in> set is. p_level (T ! i) = l \<and> p_state (T ! i) = RUNNABLE)"
    and pick: "pick \<noteq> None \<Longrightarrow> \<not> did"
  shows "chosen T pick I True (level_loop l run is did s [])"
  using s "is" some pick
proof (induction "is" arbitrary: did s)
  case (Cons i "is")
  have kf: "p_level (ptable s ! i) = p_level (T ! i)" "p_state (ptable s ! i) = p_state (T ! i)"
    using key_fields [OF same_table_nth [OF I [OF Cons.prems(1)], of i]] Cons.prems(2) by simp_all
  show ?case
  proof (cases "p_level (T ! i) = l \<and> p_state (T ! i) = RUNNABLE")
    case False
    then show ?thesis
      using Cons.IH [OF Cons.prems(1), of did] Cons.prems kf by (auto simp: bnd_run get_proc_def get_run)
  next
    case True
    then have eq: "level_loop l run (i # is) did s [] = seq run (level_loop l run is True) s []"
      using kf by (simp add: bnd_run get_proc_def get_run)
    show ?thesis
    proof (cases pick)
      case None
      then obtain s' where s': "I s'" "run s [] = Ret () s' []"
        using run [OF Cons.prems(1)] by (auto simp: chosen_def)
      then show ?thesis
        using Cons.IH [OF s'(1), of True] Cons.prems(2) None eq by (simp add: seq_run)
    next
      case (Some j)
      then show ?thesis
        using run [OF Cons.prems(1)] eq by (auto simp: chosen_def seq_run)
    qed
  qed
qed (cases pick; auto simp: chosen_def)

text \<open>The slot a round of the scheduler gives the processor to first.\<close>

definition choice :: "(rat \<Rightarrow> rat) \<Rightarrow> u32 \<Rightarrow> proc list \<Rightarrow> nat option" where
  "choice rnd now T =
     (if has_level 0 T then lottery_pick (draw_ticket now (ticket_sum T 0)) T 0 0
      else if has_level 1 T then pick_hrrn rnd now T
      else if has_level 2 T then pick_priority T
      else None)"

text \<open>What the process table satisfies when the scheduler looks at it.\<close>

definition sched_ok :: "proc list \<Rightarrow> bool" where
  "sched_ok T \<longleftrightarrow> length T = NPROC \<and> runnable_ok T \<and> pids_ok T \<and> (has_level 0 T \<longrightarrow> ticket_sum T 0 \<noteq> 0)"

lemma has_level_upt: "length T = n \<Longrightarrow> has_level l T \<longleftrightarrow> (\<exists>i \<in> set [0..<n]. p_level (T ! i) = l \<and> p_state (T ! i) = RUNNABLE)"
  by (fastforce simp: has_level_def in_set_conv_nth)

lemma in_round_eqD: "in_round_eq m\<^sub>0 now T s \<Longrightarrow> in_round m\<^sub>0 now T s"
  by (simp add: in_round_eq_def in_round_def)

lemma level_loop_level:
  assumes "length T = NPROC" "in_round_eq m\<^sub>0 now T s" "\<not> has_level l T"
  shows "level_loop l run [0..<NPROC] did s es = Ret did s es"
  using assms has_level_upt [OF assms(1), of l] by (intro level_loop_none) (auto simp: in_round_eq_def)

lemma round_end:
  assumes "mach_ok m\<^sub>0" "in_round m\<^sub>0 now T s"
  shows "\<exists>s'. release PtableLock s [] = Ret () s' [] \<and> same_table T (ptable s') \<and> inside m\<^sub>0 {} (mach s')"
proof -
  have w: "inside m\<^sub>0 {PtableLock} (mach s)" using assms(2) by (simp add: in_round_def)
  have "inside m\<^sub>0 ({PtableLock} - {PtableLock}) (rel PtableLock (mach s))"
    by (rule inside_rel [OF assms(1) w]) simp
  then show ?thesis
    using release_run [of s PtableLock "[]"] inside_ok [OF assms(1) w] inside_depth [OF assms(1) w, of PtableLock]
      inside_holds [OF w, of PtableLock] assms(2) by (simp add: in_round_def)
qed

text \<open>The outcome of a round: the processor is handed to slot \<open>i\<close>, or no process ran.\<close>

definition round_result :: "machine \<Rightarrow> proc list \<Rightarrow> nat option \<Rightarrow> ('z proc_state_scheme, unit) outcome \<Rightarrow> bool" where
  "round_result m\<^sub>0 T pick out \<longleftrightarrow>
     chosen T pick (\<lambda>s'. same_table T (ptable s') \<and> inside m\<^sub>0 {} (mach s')) () out"

lemma chosen_release:
  assumes "mach_ok m\<^sub>0" "chosen T pick (in_round m\<^sub>0 now T) a (m s [])" "k a = release PtableLock"
  shows "round_result m\<^sub>0 T pick (bnd m k s [])"
proof (cases pick)
  case None
  then obtain s' where s': "in_round m\<^sub>0 now T s'" "m s [] = Ret a s' []"
    using assms(2) by (auto simp: chosen_def)
  show ?thesis
    using round_end [OF assms(1) s'(1)] s'(2) assms(3) None by (auto simp: round_result_def chosen_def bnd_run)
next
  case (Some i)
  then show ?thesis using assms(2) by (auto simp: round_result_def chosen_def bnd_run)
qed

lemma chosen_mono: "chosen T pick I a out \<Longrightarrow> (\<And>s. I s \<Longrightarrow> J s) \<Longrightarrow> chosen T pick J a out"
  by (auto simp: chosen_def split: option.splits)

lemma chosen_release_eq:
  assumes "mach_ok m\<^sub>0" "chosen T pick (in_round_eq m\<^sub>0 now T) a (m s [])" "k a = release PtableLock"
  shows "round_result m\<^sub>0 T pick (bnd m k s [])"
proof (rule chosen_release [OF assms(1)])
  show "chosen T pick (in_round m\<^sub>0 now T) a (m s [])"
    using assms(2) by (rule chosen_mono) (rule in_round_eqD)
qed (rule assms(3))

lemma levels_run:
  fixes s :: "'z proc_state_scheme"
  assumes ok: "mach_ok m\<^sub>0" "lock_free m\<^sub>0 TicksLock" and T: "sched_ok T" and s: "in_round_eq m\<^sub>0 now T s"
  shows "round_result m\<^sub>0 T (choice rnd now T)
    (bnd (level_loop 0 run_first_level_processes [0..<NPROC] False) (\<lambda>did.
     if did then release PtableLock
     else
       bnd (level_loop 1 (run_second_level_processes rnd) [0..<NPROC] False) (\<lambda>did.
       if did then release PtableLock
       else
         bnd (level_loop 2 run_third_level_processes [0..<NPROC] False) (\<lambda>_.
         release PtableLock))) s [])"
proof -
  have len: "length T = NPROC" and r: "runnable_ok T" and p: "pids_ok T" and z: "has_level 0 T \<Longrightarrow> ticket_sum T 0 \<noteq> 0"
    using T by (auto simp: sched_ok_def)
  have same: "same_table T (ptable s')" if "in_round_eq m\<^sub>0 now T s'" for s' :: "'z proc_state_scheme"
    using that by (simp add: in_round_eq_def)
  have same': "same_table T (ptable s')" if "in_round m\<^sub>0 now T s'" for s' :: "'z proc_state_scheme"
    using that by (simp add: in_round_def)
  note skip = level_loop_level [OF len s]
  show ?thesis
  proof (cases "has_level 0 T")
    case True
    have "chosen T (choice rnd now T) (in_round m\<^sub>0 now T) True (level_loop 0 run_first_level_processes [0..<NPROC] False s [])"
      using run_first_level [OF ok len r z [OF True]] in_round_eqD [OF s] True has_level_upt [OF len, of 0] len
      by (intro level_loop_run) (auto simp: choice_def same')
    then show ?thesis by (rule chosen_release [OF ok(1)]) simp
  next
    case no0: False
    show ?thesis
    proof (cases "has_level 1 T")
      case True
      have "chosen T (choice rnd now T) (in_round_eq m\<^sub>0 now T) True
          (level_loop 1 (run_second_level_processes rnd) [0..<NPROC] False s [])"
        using run_second_level [OF ok len r p] s True no0 has_level_upt [OF len, of 1] len
        by (intro level_loop_run) (auto simp: choice_def same)
      then have "round_result m\<^sub>0 T (choice rnd now T) (bnd (level_loop 1 (run_second_level_processes rnd) [0..<NPROC] False)
          (\<lambda>did. if did then release PtableLock else bnd (level_loop 2 run_third_level_processes [0..<NPROC] False) (\<lambda>_.
         release PtableLock)) s [])"
        by (rule chosen_release_eq [OF ok(1)]) simp
      then show ?thesis using skip [OF no0] by (simp add: bnd_run)
    next
      case no1: False
      show ?thesis
      proof (cases "has_level 2 T")
        case True
        have "chosen T (choice rnd now T) (in_round_eq m\<^sub>0 now T) True
            (level_loop 2 run_third_level_processes [0..<NPROC] False s [])"
          using run_third_level [OF ok(1) len r p] s True no0 no1 has_level_upt [OF len, of 2] len
          by (intro level_loop_run) (auto simp: choice_def same)
        then have "round_result m\<^sub>0 T (choice rnd now T)
            (bnd (level_loop 2 run_third_level_processes [0..<NPROC] False) (\<lambda>_. release PtableLock) s [])"
          by (rule chosen_release_eq [OF ok(1)]) simp
        then show ?thesis using skip [OF no0] skip [OF no1] by (simp add: bnd_run)
      next
        case False
        then show ?thesis
          using round_end [OF ok(1) in_round_eqD [OF s]] skip [OF no0] skip [OF no1] skip [OF False] no0 no1
          by (auto simp: bnd_run choice_def round_result_def chosen_def)
      qed
    qed
  qed
qed

section \<open>Properties\<close>

text \<open>C15: A round of \<^verbatim>\<open>scheduler\<close> hands the processor, before any other process runs, to the
  process \<^const>\<open>choice\<close> names: RUNNABLE before, RUNNING and \<^verbatim>\<open>c->proc\<close> now, with its own page
  directory in \<^verbatim>\<open>cr3\<close> and its own kernel stack in the task state segment; when \<^const>\<open>choice\<close> names none,
  the round returns with the locks as they were and no process changed but for its cycle count.\<close>

theorem scheduler_round_dispatches_choice:
  assumes ok: "mach_ok (mach s)" "depth (mach s) = 0" "lock_free (mach s) PtableLock" "lock_free (mach s) TicksLock"
    and T: "sched_ok (ptable s)"
  shows "round_result ((mach s)\<lparr>IF := True\<rparr>) (ptable s) (choice rnd (ticks s) (ptable s)) (scheduler_round rnd s [])"
proof -
  let ?m = "(mach s)\<lparr>IF := True\<rparr>"
  let ?s = "s\<lparr>mach := ?m\<rparr>"
  let ?s' = "?s\<lparr>mach := acq (mem s) PtableLock ?m\<rparr>"
  have same: "this_cpu ?m = this_cpu (mach s)" "the_cpu ?m = the_cpu (mach s)"
    by (simp_all add: this_cpu_def the_cpu_def)
  have m: "mach_ok ?m" "lock_free ?m PtableLock" "lock_free ?m TicksLock"
    using ok same by (simp_all add: mach_ok_def depth_def lock_free_def)
  have "inside ?m {PtableLock} (acq (mem s) PtableLock ?m)"
    using inside_acq [OF m(1) inside_refl [OF m(1)] m(2)] by simp
  then have "in_round_eq ?m (ticks s) (ptable s) ?s'" by (simp add: in_round_eq_def)
  note levels_run [OF m(1,3) T this, of rnd]
  moreover have "acquire PtableLock ?s es = Ret () ?s' es" for es
    using acquire_run [of ?s PtableLock es] m by simp
  ultimately show ?thesis
    unfolding scheduler_round_def seq_run [of sti] sti_def upd_mach_def upd_run outcome.case
    by (simp add: seq_run)
qed

definition witness_proc :: "int \<Rightarrow> int \<Rightarrow> proc" where
  "witness_proc pid prio = zero_proc\<lparr>p_state := RUNNABLE, p_pid := pid, p_level := 2, p_remaining_priority := prio, p_cycleNum := 1,
     p_kstack := 0x80400000, p_pgdir := 0x80401000\<rparr>"

definition witness_table :: "proc list" where
  "witness_table = witness_proc 1 10 # witness_proc 2 5 # replicate 62 zero_proc"

lemma witness_table_nth:
  "i < NPROC \<Longrightarrow> witness_table ! i = (if i = 0 then witness_proc 1 10 else if i = 1 then witness_proc 2 5 else zero_proc)"
  by (simp add: witness_table_def nth_Cons')

lemma witness_table_ok: "sched_ok witness_table"
proof -
  have len: "length witness_table = NPROC" by (simp add: witness_table_def)
  have p: "p_state (witness_proc a b) = RUNNABLE" "p_pid (witness_proc a b) = a" "p_state zero_proc = UNUSED" "p_pid zero_proc = 0" for a b
    by (simp_all add: witness_proc_def zero_proc_def)
  have "i = j" if "i < NPROC" "j < NPROC" "p_state (witness_table ! i) = RUNNABLE" "p_pid (witness_table ! j) = p_pid (witness_table ! i)" for i j
    using that by (simp add: witness_table_nth p split: if_splits)
  moreover have "p_pid q \<noteq> - 1" if "q \<in> set witness_table" for q
    using that by (auto simp: witness_table_def p)
  ultimately have "pids_ok witness_table" unfolding pids_ok_def len by blast
  then show ?thesis
    using len by (simp add: sched_ok_def runnable_ok_def has_level_def) (simp add: witness_table_def witness_proc_def zero_proc_def)
qed

lemma witness_table_choice: "choice rnd now witness_table = Some 1"
proof -
  have "min_priority_loop (replicate n zero_proc) m p = p" for n m p
    by (induction n) (simp_all add: zero_proc_def)
  then have "min_priority_loop witness_table 1000000000 (- 1) = 2"
    by (simp add: witness_table_def witness_proc_def)
  then have "pick_priority witness_table = Some 1"
    unfolding pick_priority_def find_from_0 by (simp add: witness_table_def witness_proc_def)
  then show ?thesis
    by (simp add: choice_def has_level_def witness_table_def witness_proc_def zero_proc_def)
qed

theorem scheduler_round_dispatches_choice_witness:
  "\<exists>s'. scheduler_round (\<lambda>x. x) (witness_procs\<lparr>ptable := witness_table\<rparr>) [] = Blocked s' \<and> dispatched 1 (witness_table ! 1) s'"
  using scheduler_round_dispatches_choice [of "witness_procs\<lparr>ptable := witness_table\<rparr>" "\<lambda>x. x"]
  by (simp add: witness_table_ok witness_table_choice witness_procs_def round_result_def chosen_def)

lemma lottery_pick_Some:
  "lottery_pick rt ps rc k = Some i \<Longrightarrow> k \<le> i \<and> i - k < length ps \<and> p_level (ps ! (i - k)) = 0 \<and> p_state (ps ! (i - k)) = RUNNABLE"
proof (induction ps arbitrary: rc k)
  case (Cons p ps)
  show ?case
  proof (cases "i = k")
    case False
    then obtain rc' where "lottery_pick rt ps rc' (Suc k) = Some i"
      using Cons.prems by (auto simp: Let_def split: if_splits)
    then show ?thesis using Cons.IH [of rc' "Suc k"] by (auto simp: nth_Cons' Suc_diff_le)
  next
    case True
    have "lottery_pick rt ps rc' (Suc k) \<noteq> Some k" for rc' using Cons.IH [of rc' "Suc k"] True by auto
    then show ?thesis using Cons.prems True by (auto simp: Let_def split: if_splits)
  qed
qed simp

text \<open>C16: The levels are strict priorities: the process chosen is RUNNABLE, no RUNNABLE process has a
  smaller level; at level 1 no RUNNABLE process of that level has a larger response ratio, at level 2 none has a smaller
  remaining priority.\<close>

theorem choice_respects_levels:
  assumes p: "pids_ok T" and c: "choice rnd now T = Some i"
  shows "i < length T \<and> p_state (T ! i) = RUNNABLE \<and>
    (\<forall>q \<in> set T. p_state q = RUNNABLE \<and> 0 \<le> p_level q \<longrightarrow> p_level (T ! i) \<le> p_level q \<and>
       (p_level q = 1 \<and> p_level (T ! i) = 1 \<longrightarrow> \<not> dbl_gt (hrrn rnd now q) (hrrn rnd now (T ! i))) \<and>
       (p_level q = 2 \<and> p_level (T ! i) = 2 \<longrightarrow> p_remaining_priority (T ! i) \<le> p_remaining_priority q))"
proof -
  consider "has_level 0 T" "lottery_pick (draw_ticket now (ticket_sum T 0)) T 0 0 = Some i"
    | "\<not> has_level 0 T" "has_level 1 T" "pick_hrrn rnd now T = Some i"
    | "\<not> has_level 0 T" "\<not> has_level 1 T" "has_level 2 T" "pick_priority T = Some i"
    using c by (auto simp: choice_def split: if_splits)
  then show ?thesis
  proof cases
    case 1
    then show ?thesis using lottery_pick_Some [OF 1(2)] by auto
  next
    case 2
    have "1 \<le> p_level q" if "q \<in> set T" "p_state q = RUNNABLE" "0 \<le> p_level q" for q
      using that 2(1) by (cases "p_level q = 0") (auto simp: has_level_def)
    then show ?thesis using pick_hrrn_spec [OF p, of rnd now] 2 by auto
  next
    case 3
    have "2 \<le> p_level q" if "q \<in> set T" "p_state q = RUNNABLE" "0 \<le> p_level q" for q
      using that 3(1,2) by (cases "p_level q = 0"; cases "p_level q = 1") (auto simp: has_level_def)
    then show ?thesis using pick_priority_spec [OF p] 3 by auto
  qed
qed

theorem choice_respects_levels_witness:
  "1 < length witness_table \<and> p_state (witness_table ! 1) = RUNNABLE"
  using choice_respects_levels [of witness_table "\<lambda>x. x" 0 1] witness_table_ok witness_table_choice
  by (simp add: sched_ok_def)

text \<open>C17: When level 0 has no RUNNABLE process, level 1 never passes over its own: with cycle counts of at least 1 (\<^verbatim>\<open>allocproc\<close> starts them there) and a
  rounding that keeps non-negative ratios non-negative, a process is chosen whenever level 1 has a RUNNABLE one.  When it has none either, level 2
  chooses a process exactly if a RUNNABLE one of its processes has a remaining priority below 1000000000, where the scan starts; a process
  that \<^verbatim>\<open>set_process_remaining_priority\<close> has put at or above it is passed over.\<close>

theorem choice_progress:
  assumes p: "pids_ok T" and rnd: "\<And>x. 0 \<le> x \<Longrightarrow> 0 \<le> rnd x" and cyc: "\<forall>q \<in> set T. p_state q = RUNNABLE \<longrightarrow> 1 \<le> p_cycleNum q"
    and l: "\<not> has_level 0 T"
  shows "(has_level 1 T \<longrightarrow> choice rnd now T \<noteq> None) \<and>
    (\<not> has_level 1 T \<longrightarrow> (choice rnd now T \<noteq> None \<longleftrightarrow>
       (\<exists>q \<in> set T. p_level q = 2 \<and> p_state q = RUNNABLE \<and> p_remaining_priority q < 1000000000)))"
proof (cases "has_level 1 T")
  case True
  then obtain q where q: "q \<in> set T" "p_level q = 1" "p_state q = RUNNABLE" by (auto simp: has_level_def)
  then have c: "1 \<le> p_cycleNum q" using cyc by blast
  then have "0 \<le> rnd (of_nat (unat (now - word_of_int (p_arrTime q))) / of_int (p_cycleNum q))"
    by (intro rnd divide_nonneg_nonneg of_nat_0_le_iff) simp
  then have "dbl_gt (hrrn rnd now q) (Num (- 1))" using c by (simp add: hrrn_def Let_def)
  then show ?thesis
    using pick_hrrn_spec [OF p, of rnd now] q l True by (auto simp: choice_def split: option.splits)
next
  case False
  have eq: "choice rnd now T = (if has_level 2 T then pick_priority T else None)" using l False by (simp add: choice_def)
  show ?thesis
  proof (cases "pick_priority T")
    case None
    then show ?thesis using pick_priority_spec [OF p] False eq by auto
  next
    case (Some i)
    then have i: "T ! i \<in> set T" "p_level (T ! i) = 2" "p_state (T ! i) = RUNNABLE" "p_remaining_priority (T ! i) < 1000000000"
      using pick_priority_spec [OF p] by simp_all
    then have "has_level 2 T" unfolding has_level_def by blast
    then show ?thesis using Some i False eq by auto
  qed
qed

theorem choice_progress_witness: "choice (\<lambda>x. x) 0 witness_table \<noteq> None"
proof -
  have "pids_ok witness_table" "\<not> has_level 0 witness_table" "\<not> has_level 1 witness_table"
    "\<forall>q \<in> set witness_table. p_state q = RUNNABLE \<longrightarrow> 1 \<le> p_cycleNum q"
    "\<exists>q \<in> set witness_table. p_level q = 2 \<and> p_state q = RUNNABLE \<and> p_remaining_priority q < 1000000000"
    using witness_table_ok by (simp_all add: sched_ok_def has_level_def witness_table_def witness_proc_def zero_proc_def)
  then show ?thesis using choice_progress [of witness_table "\<lambda>x. x" 0] by blast
qed

end
