(* ===== verification/Proc_Info.thy ===== *)
theory Proc_Info
  imports Sched "HOL-Library.Signed_Division"
begin

text \<open>
  The process listing of \<^verbatim>\<open>proc.c\<close> (\<^verbatim>\<open>procdump\<close>, \<^verbatim>\<open>print_processes_info\<close>) and the number formatting it
  uses.  A C string is the list of its characters before the terminating zero.

  The parameters \<open>rnd\<close> and \<open>rndf\<close> are the rounding of a \<^verbatim>\<open>double\<close> and of a \<^verbatim>\<open>float\<close> operation.
\<close>

section \<open>Numbers to strings\<close>

text \<open>The loop of \<^verbatim>\<open>reverse\<close> swaps \<open>i\<close> and \<open>j\<close> while \<open>i < j\<close>.\<close>

function reverse_loop :: "string \<Rightarrow> nat \<Rightarrow> nat \<Rightarrow> string" where
  "reverse_loop str i j =
     (if i < j then reverse_loop (str[i := str ! j, j := str ! i]) (i + 1) (j - 1) else str)"
  by pat_completeness auto
termination by (relation "measure (\<lambda>(str, i, j). j - i)") auto

definition reverse :: "string \<Rightarrow> nat \<Rightarrow> string" where
  "reverse str len = (if len = 0 then str else reverse_loop str 0 (len - 1))"

text \<open>The digits of \<open>x\<close>, least significant first; \<^verbatim>\<open>%\<close> and \<^verbatim>\<open>/\<close> truncate towards zero.\<close>

function digits_loop :: "int \<Rightarrow> string" where
  "digits_loop x = (if x = 0 then [] else char_of (x smod 10 + 48) # digits_loop (x sdiv 10))"
  by pat_completeness auto
termination
  by (relation "measure (\<lambda>x. nat (abs x))") (auto simp: signed_divide_int_def abs_mult sgn_mult)

declare reverse_loop.simps [simp del] digits_loop.simps [simp del]

definition intToStr :: "int \<Rightarrow> nat \<Rightarrow> string" where
  "intToStr x d =
     (let str = (if x = 0 then ''0'' else []) @ digits_loop x;
          str = str @ replicate (d - length str) (CHR ''0'')
      in reverse str (length str))"

text \<open>Conversion to \<^verbatim>\<open>int\<close> truncates; out of range, and for what is no number, the processor delivers the smallest integer.\<close>

definition to_int :: "rat \<Rightarrow> int" where
  "to_int q = (let t = (if 0 \<le> q then \<lfloor>q\<rfloor> else \<lceil>q\<rceil>) in if - (2 ^ 31) \<le> t \<and> t < 2 ^ 31 then t else - (2 ^ 31))"

fun dbl_int :: "dbl \<Rightarrow> int" where
  "dbl_int (Num q) = to_int q"
| "dbl_int _ = - (2 ^ 31)"

text \<open>An operation with a number as the other operand leaves an infinity and what is no number as they are.\<close>

fun dbl_map :: "(rat \<Rightarrow> rat) \<Rightarrow> dbl \<Rightarrow> dbl" where
  "dbl_map f (Num q) = Num (f q)"
| "dbl_map f x = x"

definition ftoa :: "(rat \<Rightarrow> rat) \<Rightarrow> dbl \<Rightarrow> nat \<Rightarrow> string" where
  "ftoa rndf n afterpoint =
     (let ipart = dbl_int n;
          fpart = dbl_map (\<lambda>q. rndf (q - rndf (of_int ipart))) n;
          pwr = 10 ^ afterpoint;
          fpart = dbl_map (\<lambda>q. rndf (q * pwr)) fpart
      in intToStr ipart 0 @ ''.'' @ intToStr (dbl_int fpart) afterpoint)"

section \<open>The listing\<close>

definition states :: "procstate \<Rightarrow> string" where
  "states st = (case st of UNUSED \<Rightarrow> '' UNUSED '' | EMBRYO \<Rightarrow> '' EMBRYO '' | SLEEPING \<Rightarrow> ''SLEEPING''
     | RUNNABLE \<Rightarrow> ''RUNNABLE'' | RUNNING \<Rightarrow> ''RUNNING '' | ZOMBIE \<Rightarrow> '' ZOMBIE '')"

text \<open>A string argument of \<^verbatim>\<open>cprintf\<close> that is not a null pointer.\<close>

definition str_arg :: "string \<Rightarrow> cparg" where
  "str_arg str = cstr 1 str"

definition print_process :: "(rat \<Rightarrow> rat) \<Rightarrow> (rat \<Rightarrow> rat) \<Rightarrow> u32 \<Rightarrow> proc \<Rightarrow> ('z cons_state_scheme, unit) kM" where
  "print_process rnd rndf now p =
     whenM (p_state p \<noteq> UNUSED) (
       let hrrn_str = ftoa rndf (dbl_map rndf (hrrn rnd now p)) 2;
           cycle_str = ftoa rndf (Num (rndf (of_int (p_cycleNum p)))) 2;
           priority_str = ftoa rndf (Num (rndf (rndf (of_int (p_remaining_priority p)) / 10))) 1
       in
       stmts [
         call_cprintf ''%s        %d        %s        %d        %d''
           [str_arg (p_name p), cint (p_pid p), str_arg (states (p_state p)), cint (p_level p), cint (p_ticket p)],
         call_cprintf ''        %s'' [str_arg cycle_str],
         call_cprintf (''        %s        %s '' @ [CHR 0x0A]) [str_arg hrrn_str, str_arg priority_str]])"

definition print_processes_info :: "(rat \<Rightarrow> rat) \<Rightarrow> (rat \<Rightarrow> rat) \<Rightarrow> ('z proc_state_scheme, unit) kM" where
  "print_processes_info rnd rndf =
     seq (acquire TicksLock) (
     bnd (get ticks) (\<lambda>now.
     seq (release TicksLock) (
     seq (call_cprintf (''Name        PID        State        Level        Tickets        CycleNum        HRRN        RemainingPriority'' @ [CHR 0x0A]) []) (
     forM [0..<NPROC] (\<lambda>i.
       bnd (get_proc i) (print_process rnd rndf now))))))"

definition procdump :: "(rat \<Rightarrow> rat) \<Rightarrow> (rat \<Rightarrow> rat) \<Rightarrow> ('z proc_state_scheme, unit) kM" where
  "procdump rnd rndf = print_processes_info rnd rndf"

section \<open>Numbers\<close>

text \<open>The loop turns round the segment between its two indices.\<close>

lemma reverse_loop_rev:
  "j < length str \<Longrightarrow> i \<le> Suc j \<Longrightarrow>
     reverse_loop str i j = take i str @ rev (drop i (take (Suc j) str)) @ drop (Suc j) str"
proof (induction str i j rule: reverse_loop.induct)
  case (1 str i j)
  show ?case
  proof (cases "i < j")
    case False
    then have "j = i \<or> Suc j = i" using 1(3) by auto
    then show ?thesis
      using False 1(2) by (auto simp: reverse_loop.simps [of str i j] take_Suc_conv_app_nth id_take_nth_drop [symmetric])
  next
    case True
    let ?s = "str[i := str ! j, j := str ! i]"
    obtain k where k: "j = Suc k" using True by (cases j) auto
    have "take i ?s @ str ! j # rev (drop (Suc i) (take j str)) @ str ! i # drop (Suc j) str =
      take i str @ rev (drop i (take (Suc j) str)) @ drop (Suc j) str"
      using True 1(2) by (simp add: take_Suc_conv_app_nth [of j] Cons_nth_drop_Suc [symmetric])
    moreover have "reverse_loop str i j = take (i + 1) ?s @ rev (drop (i + 1) (take (Suc (j - 1)) ?s)) @ drop (Suc (j - 1)) ?s"
      using 1(1) [OF True] True 1(2) by (simp add: reverse_loop.simps [of str i j])
    moreover have "take (i + 1) ?s = take i ?s @ [str ! j]"
      using True 1(2) by (simp add: take_Suc_conv_app_nth)
    moreover have "drop (i + 1) (take (Suc (j - 1)) ?s) = drop (Suc i) (take j str)"
      using True k 1(2) by (simp add: take_update_swap drop_update_swap list_update_beyond)
    moreover have "drop (Suc (j - 1)) ?s = str ! i # drop (Suc j) str"
      using True k 1(2) by (simp add: drop_update_swap Cons_nth_drop_Suc [symmetric] nth_list_update)
    ultimately show ?thesis by simp
  qed
qed

lemma reverse_length: "reverse str (length str) = rev str"
  using reverse_loop_rev [of "length str - 1" str 0] by (cases str) (simp_all add: reverse_def)

text \<open>C24: \<^verbatim>\<open>reverse\<close>, which swaps characters in place from both ends towards the middle, computes the reversal of the
  first \<open>len\<close> characters and leaves the others alone.\<close>

theorem reverse_rev:
  assumes "len \<le> length str"
  shows "reverse str len = rev (take len str) @ drop len str"
  using reverse_loop_rev [of "len - 1" str 0] assms by (cases len) (simp_all add: reverse_def)

theorem reverse_rev_witness: "reverse ''321.50'' 3 = ''123.50''"
  using reverse_rev [of 3 "''321.50''"] by simp

text \<open>The number a decimal string denotes, and the value of digits stored least significant first.\<close>

definition dec_value :: "string \<Rightarrow> int" where
  "dec_value str = foldl (\<lambda>a c. 10 * a + (of_char c - 48)) 0 str"

primrec lsd_value :: "string \<Rightarrow> int" where
  "lsd_value [] = 0"
| "lsd_value (c # cs) = (of_char c - 48) + 10 * lsd_value cs"

definition is_digit :: "char \<Rightarrow> bool" where
  "is_digit c \<longleftrightarrow> 48 \<le> (of_char c :: int) \<and> of_char c \<le> (57 :: int)"

lemma dec_value_rev: "dec_value (rev cs) = lsd_value cs"
  by (induction cs) (simp_all add: dec_value_def)

lemma lsd_value_pad: "lsd_value (cs @ replicate n (CHR ''0'')) = lsd_value cs"
  by (induction cs) (induction n, simp_all)

lemma digit_char_of: "0 \<le> d \<Longrightarrow> d < 10 \<Longrightarrow> of_char (char_of (d + 48)) = d + 48 \<and> is_digit (char_of (d + 48))"
  for d :: int
  by (simp add: of_char_of is_digit_def)

lemma digits_loop_value:
  "0 \<le> x \<Longrightarrow> lsd_value (digits_loop x) = x \<and> (\<forall>c \<in> set (digits_loop x). is_digit c)"
proof (induction x rule: digits_loop.induct)
  case (1 x)
  show ?case
  proof (cases "x = 0")
    case True
    then show ?thesis by (simp add: digits_loop.simps [of 0])
  next
    case False
    have d: "x sdiv 10 = x div 10" "x smod 10 = x mod 10"
      using 1(2) False by (simp_all add: sgn_pos signed_divide_int_def signed_modulo_int_def minus_mult_div_eq_mod)
    have "0 \<le> x div 10" using 1(2) by simp
    from 1(1) [OF False] this have IH: "lsd_value (digits_loop (x div 10)) = x div 10"
      "\<forall>c \<in> set (digits_loop (x div 10)). is_digit c"
      unfolding d by blast+
    show ?thesis
      unfolding digits_loop.simps [of x] using False IH digit_char_of [of "x mod 10"] by (simp add: d)
  qed
qed

text \<open>The number of digits: none for 0, otherwise as many as the number needs.\<close>

lemma digits_loop_length:
  "0 < x \<Longrightarrow> 10 ^ (length (digits_loop x) - 1) \<le> x \<and> x < 10 ^ length (digits_loop x) \<and> digits_loop x \<noteq> []"
proof (induction x rule: digits_loop.induct)
  case (1 x)
  have d: "x sdiv 10 = x div 10" "digits_loop x = char_of (x smod 10 + 48) # digits_loop (x div 10)"
    using 1(2) by (simp_all add: digits_loop.simps [of x] sgn_pos signed_divide_int_def)
  let ?n = "length (digits_loop (x div 10))"
  show ?case
  proof (cases "x div 10 = 0")
    case True
    then show ?thesis using 1(2) d by (simp add: digits_loop.simps [of 0])
  next
    case False
    then have IH: "10 ^ (?n - 1) \<le> x div 10" "x div 10 < 10 ^ ?n" "0 < ?n" using 1 d by auto
    have "10 ^ ?n = 10 * (10 :: int) ^ (?n - 1)" using IH(3) by (cases ?n) simp_all
    moreover have "10 * a \<le> x \<and> x < 10 * b" if "a \<le> x div 10" "x div 10 < b" for a b :: int using that by presburger
    from this [OF IH(1,2)] have "10 * 10 ^ (?n - 1) \<le> x" "x < 10 ^ Suc ?n" by simp_all
    ultimately show ?thesis unfolding d(2) by simp
  qed
qed

text \<open>C25: For a number that is not negative \<^verbatim>\<open>intToStr\<close> yields the decimal digits that denote it, most significant first: at least one of them and at
  least as many as the width asks for, and beyond that not one more than the number needs, so that the first is not a zero.\<close>

theorem intToStr_denotes:
  assumes "0 \<le> x"
  shows "dec_value (intToStr x d) = x \<and> (\<forall>c \<in> set (intToStr x d). is_digit c) \<and>
    max 1 d \<le> length (intToStr x d) \<and> (max 1 d < length (intToStr x d) \<longrightarrow> 10 ^ (length (intToStr x d) - 1) \<le> x)"
proof -
  let ?ds = "(if x = 0 then ''0'' else []) @ digits_loop x"
  have eq: "intToStr x d = rev (?ds @ replicate (d - length ?ds) (CHR ''0''))"
    unfolding intToStr_def Let_def by (rule reverse_length)
  have "lsd_value ?ds = x" "\<forall>c \<in> set ?ds. is_digit c"
    using digits_loop_value [OF assms] by (auto simp: digits_loop.simps [of 0] is_digit_def)
  moreover have "is_digit (CHR ''0'')" by (simp add: is_digit_def)
  moreover have "1 \<le> length ?ds" "1 < length ?ds \<longrightarrow> 10 ^ (length ?ds - 1) \<le> x"
    using digits_loop_length [of x] assms by (auto simp: digits_loop.simps [of 0] Suc_le_eq)
  moreover have "length (intToStr x d) = max d (length ?ds)" unfolding eq by simp
  ultimately show ?thesis unfolding eq dec_value_rev lsd_value_pad by (auto simp: max_def split: if_splits)
qed

theorem intToStr_denotes_witness:
  "dec_value (intToStr 0 0) = 0 \<and> 1 \<le> length (intToStr 0 0) \<and> dec_value (intToStr 42 5) = 42 \<and> 5 \<le> length (intToStr 42 5)"
  using intToStr_denotes [of 0 0] intToStr_denotes [of 42 5] by simp

text \<open>For a negative number the remainders are negative and the characters are not digits.\<close>

lemma intToStr_negative: "intToStr (- 1) 0 = ''/''"
  by code_simp

end
