(* ===== verification/Console_In.thy ===== *)
theory Console_In
  imports Inode Proc_Info
begin

text \<open>
  Console input (\<^verbatim>\<open>console.c\<close>): the line editor of the interrupt handler, and the device functions that
  \<^verbatim>\<open>readi\<close> and \<^verbatim>\<open>writei\<close> call.  \<^verbatim>\<open>consoleintr\<close> is given the characters its argument \<^verbatim>\<open>getc\<close> delivers
  before the first negative value.

  Two places of the editor index \<^verbatim>\<open>input.buf\<close> without reducing the index; \<open>after_buf\<close> is the memory
  such an access reads when the index is past the end.
\<close>

section \<open>State\<close>

record console_state = fs_state +
  input_buf :: "u8 list"
  input_r :: u32
  input_w :: u32
  input_e :: u32
  input_size :: u32
  end_pos :: u32
  after_buf :: "u32 \<Rightarrow> u8"

abbreviation "INPUT_BUF \<equiv> 128 :: u32"

definition inbuf :: "u32 \<Rightarrow> 'z console_state_scheme \<Rightarrow> u8" where
  "inbuf i s = input_buf s ! unat (i mod INPUT_BUF)"

definition raw_inbuf :: "u32 \<Rightarrow> 'z console_state_scheme \<Rightarrow> u8" where
  "raw_inbuf i s = (if i < INPUT_BUF then input_buf s ! unat i else after_buf s i)"

definition set_inbuf :: "u32 \<Rightarrow> u8 \<Rightarrow> ('z console_state_scheme, unit) kM" where
  "set_inbuf i c = upd (\<lambda>s. s\<lparr>input_buf := (input_buf s)[unat (i mod INPUT_BUF) := c]\<rparr>)"

section \<open>The line editor\<close>

text \<open>\<^verbatim>\<open>consputc\<close> of a \<^verbatim>\<open>char\<close>, which is sign-extended.\<close>

definition putch :: "u8 \<Rightarrow> ('z cons_state_scheme, unit) kM" where
  "putch c = consputc (sint c)"

abbreviation "newline \<equiv> 0x0A :: u8"

text \<open>The loops of \<^verbatim>\<open>C('U')\<close> and of the opening brace move the edit index back to the start of the line; \<open>n\<close> is the distance to
  \<^verbatim>\<open>input.w\<close>.\<close>

primrec back_loop :: "int \<Rightarrow> nat \<Rightarrow> ('z console_state_scheme, unit) kM" where
  "back_loop out 0 = ret ()"
| "back_loop out (Suc n) =
     bnd (get (\<lambda>s. inbuf (input_e s - 1) s)) (\<lambda>c.
     if c = newline then ret ()
     else
       seq (upd (\<lambda>s. s\<lparr>input_e := input_e s - 1\<rparr>)) (
       seq (consputc out) (
       back_loop out n)))"

definition line_back :: "int \<Rightarrow> ('z console_state_scheme, unit) kM" where
  "line_back out = bnd (get (\<lambda>s. unat (input_e s - input_w s))) (back_loop out)"

text \<open>\<^verbatim>\<open>while (input.e != input.r + input.size)\<close>: print the rest of the line.\<close>

definition to_end :: "('z console_state_scheme, unit) kM" where
  "to_end =
     bnd (get (\<lambda>s. unat (input_r s + input_size s - input_e s))) (\<lambda>n.
     forM [0..<n] (\<lambda>_.
       bnd (get (\<lambda>s. raw_inbuf (input_e s) s)) (\<lambda>c.
       seq (putch c) (upd (\<lambda>s. s\<lparr>input_e := input_e s + 1\<rparr>)))))"

text \<open>Print the characters from the edit index on, and move the cursor back over \<open>n\<close> characters.\<close>

definition tail_len :: "'z console_state_scheme \<Rightarrow> nat" where
  "tail_len s = unat (input_r s + input_size s - input_e s)"

definition print_tail :: "('z console_state_scheme, unit) kM" where
  "print_tail =
     bnd (get tail_len) (\<lambda>n.
     forM [0..<n] (\<lambda>i. bnd (get (\<lambda>s. inbuf (input_e s + of_nat i) s)) putch))"

definition cursor_back :: "('z console_state_scheme, unit) kM" where
  "cursor_back = bnd (get tail_len) (\<lambda>n. forM [0..<n] (\<lambda>_. consputc 8))"

definition do_backspace :: "('z console_state_scheme, unit) kM" where
  "do_backspace =
     seq (bnd (get (\<lambda>s. input_e s \<noteq> input_r s + input_size s)) (\<lambda>mid.
          if mid then
            bnd (get (\<lambda>s. input_e s > input_w s)) (\<lambda>gt.
            whenM gt (stmts [
              upd (\<lambda>s. s\<lparr>input_e := input_e s - 1\<rparr>),
              upd (\<lambda>s. s\<lparr>input_size := input_size s - 1\<rparr>),
              consputc 8,
              bnd (get tail_len) (\<lambda>n. forM [0..<n] (\<lambda>i.
                bnd (get (\<lambda>s. inbuf (input_e s + of_nat i + 1) s)) (\<lambda>c.
                bnd (get input_e) (\<lambda>e. set_inbuf (e + of_nat i) c)))),
              bnd (get (\<lambda>s. input_r s + input_size s)) (\<lambda>k. set_inbuf k 0x20),
              print_tail,
              consputc 0x20,
              consputc 8,
              cursor_back]))
          else
            bnd (get (\<lambda>s. input_e s \<noteq> input_w s)) (\<lambda>ne.
            whenM ne (stmts [
              upd (\<lambda>s. s\<lparr>input_e := input_e s - 1\<rparr>),
              consputc BACKSPACE,
              upd (\<lambda>s. s\<lparr>input_size := input_size s - 1\<rparr>)]))))
         (upd (\<lambda>s. s\<lparr>end_pos := end_pos s - 1\<rparr>))"

text \<open>\<^verbatim>\<open>input.buf[input.e++ % INPUT_BUF] = c; input.size++; consputc(c);\<close>\<close>

definition put_char :: "int \<Rightarrow> ('z console_state_scheme, unit) kM" where
  "put_char c =
     stmts [
       bnd (get input_e) (\<lambda>e. set_inbuf e (word_of_int c)),
       upd (\<lambda>s. s\<lparr>input_e := input_e s + 1\<rparr>),
       upd (\<lambda>s. s\<lparr>input_size := input_size s + 1\<rparr>),
       consputc c]"

text \<open>The characters behind the edit index move one place to the right, the last one first.\<close>

definition shift_right :: "('z console_state_scheme, unit) kM" where
  "shift_right =
     bnd (get (\<lambda>s. nat (sint (input_r s + input_size s - input_e s)))) (\<lambda>n.
     forM (rev [1..<Suc n]) (\<lambda>i.
       bnd (get (\<lambda>s. inbuf (input_e s + of_nat i - 1) s)) (\<lambda>c.
       bnd (get input_e) (\<lambda>e. set_inbuf (e + of_nat i) c))))"

abbreviation "CtrlC \<equiv> 3 :: int"
abbreviation "CtrlD \<equiv> 4 :: int"
abbreviation "CtrlH \<equiv> 8 :: int"
abbreviation "CtrlP \<equiv> 16 :: int"
abbreviation "CtrlU \<equiv> 21 :: int"

definition do_char :: "int \<Rightarrow> ('z console_state_scheme, unit) kM" where
  "do_char c =
     bnd (get (\<lambda>s. c \<noteq> 0 \<and> input_e s - input_r s < INPUT_BUF)) (\<lambda>room.
     whenM room (
       let c = (if c = 13 then 10 else c) in
       seq (bnd (get (\<lambda>s. input_e s \<noteq> input_r s + input_size s)) (\<lambda>mid.
            if mid then
              (if c = 10 \<or> c = CtrlD then seq to_end (put_char c)
               else stmts [shift_right, put_char c, print_tail, cursor_back])
            else put_char c)) (
       bnd (get (\<lambda>s. c = 10 \<or> c = CtrlD \<or> input_size s = INPUT_BUF)) (\<lambda>done.
       whenM done (
         seq (upd (\<lambda>s. s\<lparr>input_w := input_e s\<rparr>)) (
         seq (upd (\<lambda>s. s\<lparr>input_size := 0\<rparr>)) (
         wakeup (Some ChInput))))))))"

definition do_cancel :: "('z console_state_scheme, unit) kM" where
  "do_cancel =
     bnd (get (\<lambda>s. unat (input_w s + input_size s - input_e s))) (\<lambda>n.
     seq (forM [0..<n] (\<lambda>_. consputc 0x20)) (
     bnd (get (\<lambda>s. unat (input_size s))) (\<lambda>m.
     seq (forM [0..<m] (\<lambda>_. consputc BACKSPACE)) (
     seq (upd (\<lambda>s. s\<lparr>input_e := input_w s\<rparr>)) (
     upd (\<lambda>s. s\<lparr>input_size := 0\<rparr>))))))"

text \<open>The body of the \<^verbatim>\<open>switch\<close>; the result tells whether a process listing was asked for.\<close>

definition console_key :: "int \<Rightarrow> ('z console_state_scheme, bool) kM" where
  "console_key c =
     (if c = CtrlP then ret True
      else if c = CtrlU then
        seq (line_back BACKSPACE) (seq (upd (\<lambda>s. s\<lparr>end_pos := input_e s\<rparr>)) (ret False))
      else if c = CtrlH \<or> c = 0x7F then seq do_backspace (ret False)
      else if c = CtrlC then seq do_cancel (ret False)
      else if c = 0x7B then seq (line_back 8) (ret False)
      else if c = 0x7D then seq to_end (ret False)
      else seq (do_char c) (ret False))"

primrec console_keys :: "int list \<Rightarrow> bool \<Rightarrow> ('z console_state_scheme, bool) kM" where
  "console_keys [] doprocdump = ret doprocdump"
| "console_keys (c # cs) doprocdump =
     bnd (console_key c) (\<lambda>p. console_keys cs (doprocdump \<or> p))"

definition consoleintr :: "(rat \<Rightarrow> rat) \<Rightarrow> (rat \<Rightarrow> rat) \<Rightarrow> int list \<Rightarrow> ('z console_state_scheme, unit) kM" where
  "consoleintr rnd rndf keys =
     seq (upd (\<lambda>s. if end_pos s = - 1 then s\<lparr>end_pos := input_e s\<rparr> else s)) (
     seq (acquire ConsLock) (
     bnd (console_keys keys False) (\<lambda>doprocdump.
     seq (release ConsLock) (
     whenM doprocdump (procdump rnd rndf)))))"

section \<open>The device functions\<close>

text \<open>The inner loop of \<^verbatim>\<open>consoleread\<close> waits for input; it yields whether the process was killed.\<close>

definition wait_input :: "('z console_state_scheme, bool) kM" where
  "wait_input =
     forever (
       bnd (get (\<lambda>s. input_r s = input_w s)) (\<lambda>empty.
       if \<not> empty then ret (Some False)
       else
         bnd myproc (\<lambda>p. deref p (\<lambda>i.
         bnd (get_proc i) (\<lambda>pr.
         if p_killed pr then ret (Some True)
         else seq (sleep (Some ChInput) (Some ConsLock)) (ret None))))))"

text \<open>The outer loop: \<open>k\<close> bytes are still wanted.  The result is \<open>None\<close> when the process was killed, else the number of bytes not delivered,
  with the bytes stored so far.\<close>

primrec consoleread_loop :: "int \<Rightarrow> nat \<Rightarrow> ('z console_state_scheme, int option \<times> u8 list) kM" where
  "consoleread_loop target 0 = ret (Some 0, [])"
| "consoleread_loop target (Suc k) =
     bnd wait_input (\<lambda>killed.
     if killed then ret (None, [])
     else
       bnd (get (\<lambda>s. inbuf (input_r s) s)) (\<lambda>c.
       seq (upd (\<lambda>s. s\<lparr>input_r := input_r s + 1\<rparr>)) (
       if sint c = CtrlD then
         seq (whenM (int (Suc k) < target) (upd (\<lambda>s. s\<lparr>input_r := input_r s - 1\<rparr>))) (
         ret (Some (int (Suc k)), []))
       else if c = newline then ret (Some (int k), [c])
       else
         bnd (consoleread_loop target k) (\<lambda>(left, bs). ret (left, c # bs)))))"

definition consoleread :: "nat \<Rightarrow> int \<Rightarrow> ('z console_state_scheme, int \<times> u8 list) kM" where
  "consoleread ip n =
     seq (iunlock (Some ip)) (
     seq (acquire ConsLock) (
     bnd (consoleread_loop n (nat n)) (\<lambda>(left, bs).
     seq (release ConsLock) (
     seq (ilock (Some ip)) (
     ret (case left of None \<Rightarrow> (- 1, bs) | Some k \<Rightarrow> (if n > 0 then n - k else 0, bs)))))))"

definition consolewrite :: "nat \<Rightarrow> u8 list \<Rightarrow> int \<Rightarrow> ('z console_state_scheme, int) kM" where
  "consolewrite ip buf n =
     seq (iunlock (Some ip)) (
     seq (acquire ConsLock) (
     seq (forM [0..<nat n] (\<lambda>i. consputc (uint (buf ! i)))) (
     seq (release ConsLock) (
     seq (ilock (Some ip)) (
     ret n)))))"

text \<open>The last statement of \<^verbatim>\<open>consoleinit\<close> routes the keyboard interrupt.\<close>

definition consoleinit :: "('z console_state_scheme, unit) kM \<Rightarrow> ('z console_state_scheme, unit) kM" where
  "consoleinit ioapicenable_kbd =
     stmts [
       initlock ConsLock ''console'',
       upd (\<lambda>s. s\<lparr>devsw_write := (devsw_write s)[1 := Some DevConsole]\<rparr>),
       upd (\<lambda>s. s\<lparr>devsw_read := (devsw_read s)[1 := Some DevConsole]\<rparr>),
       upd (\<lambda>s. s\<lparr>cons_locking := True\<rparr>),
       ioapicenable_kbd]"

end
