(* ===== verification/Content.thy ===== *)
theory Content
  imports Console_In
begin

text \<open>
  Reading and writing inode content, directories and path names (\<^verbatim>\<open>fs.c\<close>).  \<^verbatim>\<open>readi\<close> yields the bytes it stores
  at \<^verbatim>\<open>dst\<close> along with its result, \<^verbatim>\<open>writei\<close> is given the bytes at \<^verbatim>\<open>src\<close>.  A path is the list of its bytes
  before the terminating zero; the name buffer of \<^verbatim>\<open>namex\<close> is kept as the string in it.
\<close>

section \<open>Reading and writing\<close>

function readi_loop :: "nat \<Rightarrow> nat \<Rightarrow> nat \<Rightarrow> ('z fs_state_scheme, u8 list) kM" where
  "readi_loop i off n =
     (if n = 0 then ret []
      else
        bnd (bmap i (off div BSIZE)) (\<lambda>addr.
        bnd (get_inode i) (\<lambda>ip.
        bnd (bread (i_dev ip) addr) (\<lambda>bp.
        bnd (get_buf bp) (\<lambda>x.
        seq (brelse bp) (
        bnd (readi_loop i (off + min n (BSIZE - off mod BSIZE)) (n - min n (BSIZE - off mod BSIZE))) (\<lambda>rest.
        ret (get_bytes (b_data x) (off mod BSIZE) (min n (BSIZE - off mod BSIZE)) @ rest)))))))) "
  by pat_completeness auto
termination by (relation "measure (\<lambda>(i, off, n). n)") auto

definition readi :: "nat \<Rightarrow> u32 \<Rightarrow> u32 \<Rightarrow> ('z console_state_scheme, int \<times> u8 list) kM" where
  "readi i off n =
     bnd (get_inode i) (\<lambda>ip.
     if i_type ip = T_DEV then
       bnd (get devsw_read) (\<lambda>tab.
       if sint (i_major ip) < 0 \<or> sint (i_major ip) \<ge> NDEV then ret (- 1, [])
       else
         case tab ! nat (sint (i_major ip)) of
           None \<Rightarrow> ret (- 1, [])
         | Some DevConsole \<Rightarrow> consoleread i (sint n))
     else if off > i_size ip \<or> off + n < off then ret (- 1, [])
     else
       let n = (if off + n > i_size ip then i_size ip - off else n) in
       bnd (readi_loop i (unat off) (unat n)) (\<lambda>bs.
       ret (sint n, bs)))"

function writei_loop :: "nat \<Rightarrow> nat \<Rightarrow> u8 list \<Rightarrow> ('z fs_state_scheme, unit) kM" where
  "writei_loop i off src =
     (if src = [] then ret ()
      else
        bnd (bmap i (off div BSIZE)) (\<lambda>addr.
        bnd (get_inode i) (\<lambda>ip.
        bnd (bread (i_dev ip) addr) (\<lambda>bp.
        seq (upd_data bp (\<lambda>d. put_bytes d (off mod BSIZE) (take (BSIZE - off mod BSIZE) src))) (
        seq (log_write bp) (
        seq (brelse bp) (
        writei_loop i (off + min (length src) (BSIZE - off mod BSIZE)) (drop (BSIZE - off mod BSIZE) src))))))))"
  by pat_completeness auto
termination
proof (relation "measure (\<lambda>(i, off, src). length src)", goal_cases)
  case (2 i off src)
  then have "0 < length src" "0 < BSIZE - off mod BSIZE" by simp_all
  then have "length src - (BSIZE - off mod BSIZE) < length src" by linarith
  then show ?case by simp
qed simp

definition writei :: "nat \<Rightarrow> u8 list \<Rightarrow> u32 \<Rightarrow> u32 \<Rightarrow> ('z console_state_scheme, int) kM" where
  "writei i src off n =
     bnd (get_inode i) (\<lambda>ip.
     if i_type ip = T_DEV then
       bnd (get devsw_write) (\<lambda>tab.
       if sint (i_major ip) < 0 \<or> sint (i_major ip) \<ge> NDEV then ret (- 1)
       else
         case tab ! nat (sint (i_major ip)) of
           None \<Rightarrow> ret (- 1)
         | Some DevConsole \<Rightarrow> consolewrite i src (sint n))
     else if off > i_size ip \<or> off + n < off then ret (- 1)
     else if off + n > of_nat (MAXFILE * BSIZE) then ret (- 1)
     else
       seq (writei_loop i (unat off) (take (unat n) src)) (
       bnd (get_inode i) (\<lambda>ip.
       seq (whenM (n > 0 \<and> off + n > i_size ip) (
              seq (upd_inode i (\<lambda>ip. ip\<lparr>i_size := off + n\<rparr>)) (
              iupdate i))) (
       ret (sint n)))))"

section \<open>Directories\<close>

abbreviation "DIRSIZ \<equiv> 14 :: nat"
abbreviation "DIRENT \<equiv> 16 :: nat"

text \<open>\<^verbatim>\<open>strncmp\<close> and \<^verbatim>\<open>strncpy\<close> on strings given by their bytes; past the end of the list is the terminating zero.\<close>

definition at0 :: "u8 list \<Rightarrow> u8" where
  "at0 xs = (case xs of [] \<Rightarrow> 0 | x # _ \<Rightarrow> x)"

primrec strncmp_bytes :: "u8 list \<Rightarrow> u8 list \<Rightarrow> nat \<Rightarrow> int" where
  "strncmp_bytes p q 0 = 0"
| "strncmp_bytes p q (Suc n) =
     (if at0 p \<noteq> 0 \<and> at0 p = at0 q then strncmp_bytes (tl p) (tl q) n
      else uint (at0 p) - uint (at0 q))"

primrec strncpy_bytes :: "u8 list \<Rightarrow> nat \<Rightarrow> u8 list" where
  "strncpy_bytes t 0 = []"
| "strncpy_bytes t (Suc n) =
     (if at0 t \<noteq> 0 then at0 t # strncpy_bytes (tl t) n else replicate (Suc n) 0)"

definition namecmp :: "u8 list \<Rightarrow> u8 list \<Rightarrow> int" where
  "namecmp p q = strncmp_bytes p q DIRSIZ"

definition de_inum :: "u8 list \<Rightarrow> u16" where
  "de_inum de = get16 de 0"

definition de_name :: "u8 list \<Rightarrow> u8 list" where
  "de_name de = drop 2 de"

text \<open>The offsets of the entries of a directory of a given size.\<close>

definition dir_offs :: "u32 \<Rightarrow> u32 list" where
  "dir_offs sz = map (\<lambda>k. of_nat (k * DIRENT)) [0..<(unat sz + DIRENT - 1) div DIRENT]"

definition dirlookup :: "nat \<Rightarrow> u8 list \<Rightarrow> ('z console_state_scheme, (nat \<times> u32) option) kM" where
  "dirlookup dp name =
     bnd (get_inode dp) (\<lambda>d.
     if i_type d \<noteq> T_DIR then panic ''dirlookup not DIR''
     else
       firstM (dir_offs (i_size d)) (\<lambda>off.
         bnd (readi dp off (of_nat DIRENT)) (\<lambda>(r, de).
         if r \<noteq> int DIRENT then panic ''dirlookup read''
         else if de_inum de = 0 then ret None
         else if namecmp name (de_name de) = 0 then
           bnd (get_inode dp) (\<lambda>d.
           bnd (iget (i_dev d) (ucast (de_inum de))) (\<lambda>ip.
           ret (Some (ip, off))))
         else ret None)))"

definition dirlink :: "nat \<Rightarrow> u8 list \<Rightarrow> u32 \<Rightarrow> ('z console_state_scheme, int) kM" where
  "dirlink dp name inum =
     bnd (dirlookup dp name) (\<lambda>r.
     case r of
       Some (ip, _) \<Rightarrow> seq (iput ip) (ret (- 1))
     | None \<Rightarrow>
         bnd (get_inode dp) (\<lambda>d.
         bnd (firstM (dir_offs (i_size d)) (\<lambda>off.
                bnd (readi dp off (of_nat DIRENT)) (\<lambda>(r, de).
                if r \<noteq> int DIRENT then panic ''dirlink read''
                else if de_inum de = 0 then ret (Some off)
                else ret None))) (\<lambda>free.
         let off = (case free of Some o' \<Rightarrow> o' | None \<Rightarrow> of_nat (length (dir_offs (i_size d)) * DIRENT));
             de = bytes16 (ucast inum) @ strncpy_bytes name DIRSIZ in
         bnd (writei dp de off (of_nat DIRENT)) (\<lambda>r.
         if r \<noteq> int DIRENT then panic ''dirlink''
         else ret 0))))"

section \<open>Paths\<close>

abbreviation "slash \<equiv> 0x2F :: u8"

definition skipelem :: "u8 list \<Rightarrow> (u8 list \<times> u8 list) option" where
  "skipelem path =
     (let path = dropWhile (\<lambda>c. c = slash) path in
      if path = [] then None
      else
        let s = takeWhile (\<lambda>c. c \<noteq> slash) path;
            rest = dropWhile (\<lambda>c. c \<noteq> slash) path
        in Some (take DIRSIZ s, dropWhile (\<lambda>c. c = slash) rest))"

lemma skipelem_shorter:
  assumes "skipelem path = Some (name, rest)"
  shows "length rest < length path"
proof -
  define p where "p = dropWhile (\<lambda>c. c = slash) path"
  have p: "p \<noteq> []" "rest = dropWhile (\<lambda>c. c = slash) (dropWhile (\<lambda>c. c \<noteq> slash) p)"
    using assms unfolding skipelem_def Let_def p_def [symmetric] by (simp_all split: if_splits)
  obtain c cs where c: "p = c # cs" using p(1) by (cases p) auto
  have "c \<noteq> slash" using hd_dropWhile [of "\<lambda>c. c = slash" path] p(1) unfolding p_def [symmetric] c by simp
  then have "rest = dropWhile (\<lambda>c. c = slash) (dropWhile (\<lambda>c. c \<noteq> slash) cs)" using p(2) c by simp
  then have "length rest \<le> length cs"
    using order_trans [OF length_dropWhile_le length_dropWhile_le] by blast
  moreover have "length p \<le> length path" unfolding p_def by (rule length_dropWhile_le)
  ultimately show ?thesis using c by simp
qed

text \<open>The loop of \<^verbatim>\<open>namex\<close> from the inode \<open>ip\<close>; the result is the inode found with the last name copied.\<close>

function namex_loop :: "bool \<Rightarrow> nat \<Rightarrow> u8 list \<Rightarrow> u8 list \<Rightarrow> ('z console_state_scheme, (nat \<times> u8 list) option) kM" where
  "namex_loop nameiparent ip name path =
     (case skipelem path of
        None \<Rightarrow> if nameiparent then seq (iput ip) (ret None) else ret (Some (ip, name))
      | Some (name, path) \<Rightarrow>
          seq (ilock (Some ip)) (
          bnd (get_inode ip) (\<lambda>d.
          if i_type d \<noteq> T_DIR then seq (iunlockput ip) (ret None)
          else if nameiparent \<and> path = [] then
            seq (iunlock (Some ip)) (ret (Some (ip, name)))
          else
            bnd (dirlookup ip name) (\<lambda>r.
            case r of
              None \<Rightarrow> seq (iunlockput ip) (ret None)
            | Some (next, _) \<Rightarrow> seq (iunlockput ip) (namex_loop nameiparent next name path)))))"
  by pat_completeness auto
termination
  by (relation "measure (\<lambda>(np, ip, name, path). length path)") (auto dest: skipelem_shorter)

definition namex :: "u8 list \<Rightarrow> bool \<Rightarrow> ('z console_state_scheme, (nat \<times> u8 list) option) kM" where
  "namex path nameiparent =
     bnd (if at0 path = slash then iget ROOTDEV ROOTINO
          else
            bnd myproc (\<lambda>p. deref p (\<lambda>i.
            bnd (get_proc i) (\<lambda>pr. deref (p_cwd pr) idup)))) (\<lambda>ip.
     namex_loop nameiparent ip [] path)"

definition namei :: "u8 list \<Rightarrow> ('z console_state_scheme, nat option) kM" where
  "namei path = bnd (namex path False) (\<lambda>r. ret (map_option fst r))"

definition nameiparent :: "u8 list \<Rightarrow> ('z console_state_scheme, (nat \<times> u8 list) option) kM" where
  "nameiparent path = namex path True"

end
