(* ===== verification/Pipe.thy ===== *)
theory Pipe
  imports Content
begin

text \<open>
  Pipes (\<^verbatim>\<open>pipe.c\<close>): a ring of 512 bytes with free-running 32-bit counters.  The structures live in pages
  of the page allocator; \<open>pipes\<close> maps the address of such a page to the structure in it.  The allocation of a pipe is
  with the file table, which it needs.
\<close>

section \<open>State\<close>

record pipe =
  p_data :: "u8 list"
  nread :: u32
  nwrite :: u32
  readopen :: bool
  writeopen :: bool

record pipe_state = console_state +
  pipes :: "u32 \<Rightarrow> pipe"

abbreviation "PIPESIZE \<equiv> 512 :: u32"

definition get_pipe :: "u32 \<Rightarrow> ('z pipe_state_scheme, pipe) kM" where
  "get_pipe p = get (\<lambda>s. pipes s p)"

definition upd_pipe :: "u32 \<Rightarrow> (pipe \<Rightarrow> pipe) \<Rightarrow> ('z pipe_state_scheme, unit) kM" where
  "upd_pipe p f = upd (\<lambda>s. s\<lparr>pipes := (pipes s)(p := f (pipes s p))\<rparr>)"

section \<open>The code\<close>

definition pipeclose :: "u32 \<Rightarrow> bool \<Rightarrow> ('z pipe_state_scheme, unit) kM" where
  "pipeclose p writable =
     seq (acquire (PipeLock p)) (
     seq (if writable then
            seq (upd_pipe p (\<lambda>x. x\<lparr>writeopen := False\<rparr>)) (wakeup (Some (ChPipeRead p)))
          else
            seq (upd_pipe p (\<lambda>x. x\<lparr>readopen := False\<rparr>)) (wakeup (Some (ChPipeWrite p)))) (
     bnd (get_pipe p) (\<lambda>x.
     if \<not> readopen x \<and> \<not> writeopen x then seq (release (PipeLock p)) (kfree p)
     else release (PipeLock p))))"

text \<open>\<^verbatim>\<open>myproc()->killed\<close>\<close>

definition mykilled :: "('z proc_state_scheme, bool) kM" where
  "mykilled = bnd myproc (\<lambda>p. deref p (\<lambda>i. bnd (get_proc i) (\<lambda>pr. ret (p_killed pr))))"

definition pipe_full :: "pipe \<Rightarrow> bool" where
  "pipe_full x \<longleftrightarrow> nwrite x = nread x + PIPESIZE"

definition pipe_empty :: "pipe \<Rightarrow> bool" where
  "pipe_empty x \<longleftrightarrow> nread x = nwrite x"

definition put_byte :: "u8 \<Rightarrow> pipe \<Rightarrow> pipe" where
  "put_byte c x = x\<lparr>p_data := (p_data x)[unat (nwrite x mod PIPESIZE) := c], nwrite := nwrite x + 1\<rparr>"

definition next_byte :: "pipe \<Rightarrow> u8" where
  "next_byte x = p_data x ! unat (nread x mod PIPESIZE)"

definition drop_byte :: "pipe \<Rightarrow> pipe" where
  "drop_byte x = x\<lparr>nread := nread x + 1\<rparr>"

text \<open>The inner loop of \<^verbatim>\<open>pipewrite\<close>; it yields whether the write has to be given up.\<close>

definition wait_room :: "u32 \<Rightarrow> ('z pipe_state_scheme, bool) kM" where
  "wait_room p =
     forever (
       bnd (get_pipe p) (\<lambda>x.
       if \<not> pipe_full x then ret (Some False)
       else
         bnd (if readopen x then mykilled else ret True) (\<lambda>stop.
         if stop then ret (Some True)
         else
           seq (wakeup (Some (ChPipeRead p))) (
           seq (sleep (Some (ChPipeWrite p)) (Some (PipeLock p))) (
           ret None)))))"

primrec pipewrite_loop :: "u32 \<Rightarrow> u8 list \<Rightarrow> ('z pipe_state_scheme, bool) kM" where
  "pipewrite_loop p [] = ret True"
| "pipewrite_loop p (c # cs) =
     bnd (wait_room p) (\<lambda>stop.
     if stop then ret False
     else seq (upd_pipe p (put_byte c)) (pipewrite_loop p cs))"

definition pipewrite :: "u32 \<Rightarrow> u8 list \<Rightarrow> int \<Rightarrow> ('z pipe_state_scheme, int) kM" where
  "pipewrite p addr n =
     seq (acquire (PipeLock p)) (
     bnd (pipewrite_loop p (take (nat n) addr)) (\<lambda>ok.
     if \<not> ok then seq (release (PipeLock p)) (ret (- 1))
     else
       seq (wakeup (Some (ChPipeRead p))) (
       seq (release (PipeLock p)) (
       ret n))))"

definition wait_data :: "u32 \<Rightarrow> ('z pipe_state_scheme, bool) kM" where
  "wait_data p =
     forever (
       bnd (get_pipe p) (\<lambda>x.
       if \<not> (pipe_empty x \<and> writeopen x) then ret (Some False)
       else
         bnd mykilled (\<lambda>k.
         if k then ret (Some True)
         else
           seq (sleep (Some (ChPipeRead p)) (Some (PipeLock p))) (
           ret None))))"

primrec piperead_loop :: "u32 \<Rightarrow> nat \<Rightarrow> ('z pipe_state_scheme, u8 list) kM" where
  "piperead_loop p 0 = ret []"
| "piperead_loop p (Suc n) =
     bnd (get_pipe p) (\<lambda>x.
     if pipe_empty x then ret []
     else
       seq (upd_pipe p drop_byte) (
       bnd (piperead_loop p n) (\<lambda>bs.
       ret (next_byte x # bs))))"

definition piperead :: "u32 \<Rightarrow> int \<Rightarrow> ('z pipe_state_scheme, int \<times> u8 list) kM" where
  "piperead p n =
     seq (acquire (PipeLock p)) (
     bnd (wait_data p) (\<lambda>killed.
     if killed then seq (release (PipeLock p)) (ret (- 1, []))
     else
       bnd (piperead_loop p (nat n)) (\<lambda>bs.
       seq (wakeup (Some (ChPipeWrite p))) (
       seq (release (PipeLock p)) (
       ret (int (length bs), bs))))))"

section \<open>The ring as a queue\<close>

text \<open>The contract of a bounded queue: its contents as a list, oldest element first.\<close>

locale bounded_queue =
  fixes ok full none :: "'q \<Rightarrow> bool"
    and put :: "'a \<Rightarrow> 'q \<Rightarrow> 'q"
    and front :: "'q \<Rightarrow> 'a"
    and drp :: "'q \<Rightarrow> 'q"
    and contents :: "'q \<Rightarrow> 'a list"
    and cap :: nat
  assumes full_iff: "ok q \<Longrightarrow> full q \<longleftrightarrow> length (contents q) = cap"
    and none_iff: "ok q \<Longrightarrow> none q \<longleftrightarrow> contents q = []"
    and bounded: "ok q \<Longrightarrow> length (contents q) \<le> cap"
    and put_ok: "ok q \<Longrightarrow> \<not> full q \<Longrightarrow> ok (put c q)"
    and put_contents: "ok q \<Longrightarrow> \<not> full q \<Longrightarrow> contents (put c q) = contents q @ [c]"
    and drp_ok: "ok q \<Longrightarrow> \<not> none q \<Longrightarrow> ok (drp q)"
    and drp_contents: "ok q \<Longrightarrow> \<not> none q \<Longrightarrow> contents q = front q # contents (drp q)"
begin

text \<open>Reading up to \<open>n\<close> elements takes a prefix of the contents.\<close>

primrec drain :: "nat \<Rightarrow> 'q \<Rightarrow> 'a list \<times> 'q" where
  "drain 0 q = ([], q)"
| "drain (Suc n) q = (if none q then ([], q) else let (bs, q') = drain n (drp q) in (front q # bs, q'))"

lemma drain_spec:
  "ok q \<Longrightarrow> fst (drain n q) = take n (contents q) \<and> contents (snd (drain n q)) = drop n (contents q) \<and> ok (snd (drain n q))"
proof (induction n arbitrary: q)
  case (Suc n)
  show ?case
  proof (cases "none q")
    case False
    then show ?thesis
      using Suc.IH [OF drp_ok [OF Suc.prems False]] drp_contents [OF Suc.prems False] by (simp add: case_prod_beta Let_def)
  qed (use Suc.prems none_iff in simp)
qed simp

end

definition pipe_ok :: "pipe \<Rightarrow> bool" where
  "pipe_ok x \<longleftrightarrow> length (p_data x) = 512 \<and> unat (nwrite x - nread x) \<le> 512"

definition pipe_bytes :: "pipe \<Rightarrow> u8 list" where
  "pipe_bytes x = map (\<lambda>k. p_data x ! ((unat (nread x) + k) mod 512)) [0..<unat (nwrite x - nread x)]"

lemma slot_mod: "unat ((a :: u32) mod PIPESIZE) = unat a mod 512"
  by (simp add: unat_mod)

lemma unat_add_mod_512: "unat ((a :: u32) + b) mod 512 = (unat a + unat b) mod 512"
proof -
  have "(512 :: nat) dvd 2 ^ LENGTH(32)" by simp
  then show ?thesis unfolding unat_word_ariths by (simp only: mod_mod_cancel)
qed

lemma mod_512_inj: "(a + k) mod 512 = (a + n) mod 512 \<Longrightarrow> k \<le> n \<Longrightarrow> n < k + 512 \<Longrightarrow> k = (n :: nat)"
proof -
  assume *: "(a + k) mod 512 = (a + n) mod 512" "k \<le> n" "n < k + 512"
  then have "(a + n - (a + k)) mod 512 = 0" by (metis add_le_cancel_left mod_eq_dvd_iff_nat mod_0_imp_dvd dvd_imp_mod_0)
  with * show "k = n" by simp
qed

lemma unat_Suc_u32: "unat (d :: u32) \<le> 512 \<Longrightarrow> unat (d + 1) = unat d + 1"
  by (simp add: unat_word_ariths)

lemma put_byte_bytes:
  assumes "pipe_ok x" "\<not> pipe_full x"
  shows "pipe_ok (put_byte c x)" "pipe_bytes (put_byte c x) = pipe_bytes x @ [c]"
proof -
  let ?n = "unat (nwrite x - nread x)"
  have "nwrite x - nread x \<noteq> 512" using assms(2) by (auto simp: pipe_full_def algebra_simps)
  then have "?n \<noteq> 512" by (simp add: word_unat_eq_iff)
  then have n: "?n < 512" using assms(1) by (simp add: pipe_ok_def)
  have d: "unat (nwrite x + 1 - nread x) = ?n + 1"
    using unat_Suc_u32 [of "nwrite x - nread x"] n by (simp add: algebra_simps)
  then show "pipe_ok (put_byte c x)" using n assms(1) by (simp add: pipe_ok_def put_byte_def)
  have w: "unat (nwrite x) mod 512 = (unat (nread x) + ?n) mod 512"
    using unat_add_mod_512 [of "nread x" "nwrite x - nread x"] by simp
  have "(unat (nread x) + ?n) mod 512 \<noteq> (unat (nread x) + k) mod 512" if "k < ?n" for k
    using mod_512_inj [of "unat (nread x)" k ?n] that n by auto
  then show "pipe_bytes (put_byte c x) = pipe_bytes x @ [c]"
    using assms(1) d w by (auto simp: pipe_bytes_def put_byte_def slot_mod pipe_ok_def nth_list_update)
qed

lemma drop_byte_bytes:
  assumes "pipe_ok x" "\<not> pipe_empty x"
  shows "pipe_ok (drop_byte x)" "pipe_bytes x = next_byte x # pipe_bytes (drop_byte x)"
proof -
  let ?n = "unat (nwrite x - nread x)"
  have "nwrite x - nread x \<noteq> 0" using assms(2) by (auto simp: pipe_empty_def)
  then have n: "0 < ?n" by (simp add: unat_gt_0)
  have "unat (nwrite x - nread x - 1) = ?n - 1" using n by (simp add: unat_minus_one unat_gt_0)
  then have d: "unat (nwrite x - (nread x + 1)) = ?n - 1" by (simp add: algebra_simps)
  then show "pipe_ok (drop_byte x)" using assms(1) by (auto simp: pipe_ok_def drop_byte_def)
  obtain k where k: "?n = Suc k" using n by (cases ?n) auto
  have "(unat (nread x + 1) + j) mod 512 = (unat (nread x) + Suc j) mod 512" for j
  proof -
    have "(unat (nread x + 1) + j) mod 512 = (unat (nread x + 1) mod 512 + j) mod 512" by (simp only: mod_add_left_eq)
    also have "\<dots> = ((unat (nread x) + 1) mod 512 + j) mod 512" by (simp only: unat_add_mod_512 unat_1)
    also have "\<dots> = (unat (nread x) + Suc j) mod 512" by (simp only: mod_add_left_eq add.assoc plus_1_eq_Suc)
    finally show ?thesis .
  qed
  then show "pipe_bytes x = next_byte x # pipe_bytes (drop_byte x)"
    using k d unfolding pipe_bytes_def drop_byte_def next_byte_def slot_mod
    by (simp add: upt_conv_Cons map_Suc_upt [symmetric] o_def del: upt_Suc)
qed

lemma length_pipe_bytes [simp]: "length (pipe_bytes x) = unat (nwrite x - nread x)"
  by (simp add: pipe_bytes_def)

interpretation ring: bounded_queue pipe_ok pipe_full pipe_empty put_byte next_byte drop_byte pipe_bytes 512
proof unfold_locales
  fix q c
  assume ok: "pipe_ok q"
  have "nwrite q = nread q + 512 \<longleftrightarrow> nwrite q - nread q = 512" by (auto simp: algebra_simps)
  then show "pipe_full q = (length (pipe_bytes q) = 512)" by (simp add: pipe_full_def word_unat_eq_iff)
  have "pipe_empty q \<longleftrightarrow> unat (nwrite q - nread q) = 0" by (auto simp: pipe_empty_def unat_eq_0)
  then show "pipe_empty q = (pipe_bytes q = [])" by (simp add: pipe_bytes_def)
  show "length (pipe_bytes q) \<le> 512" using ok by (simp add: pipe_ok_def)
  show "\<not> pipe_full q \<Longrightarrow> pipe_ok (put_byte c q)" "\<not> pipe_full q \<Longrightarrow> pipe_bytes (put_byte c q) = pipe_bytes q @ [c]"
    using put_byte_bytes [OF ok] by blast+
  show "\<not> pipe_empty q \<Longrightarrow> pipe_ok (drop_byte q)" "\<not> pipe_empty q \<Longrightarrow> pipe_bytes q = next_byte q # pipe_bytes (drop_byte q)"
    using drop_byte_bytes [OF ok] by blast+
qed

section \<open>Streams through a pipe\<close>

lemma keeps_pipe [uses]: "keeps (get_pipe p)" "keeps (upd_pipe p f)" "keeps mykilled" "keeps (wakeup ch)"
  unfolding get_pipe_def upd_pipe_def mykilled_def deref_def get_proc_def wakeup_def wakeup1_def upd_proc_def
  by (auto intro!: uses split: option.splits)

lemma consumes_wait_room:
  "consumes (bnd (get_pipe p) (\<lambda>x.
       if \<not> pipe_full x then ret (Some False)
       else
         bnd (if readopen x then mykilled else ret True) (\<lambda>stop.
         if stop then ret (Some True)
         else
           seq (wakeup (Some (ChPipeRead p))) (
           seq (sleep (Some (ChPipeWrite p)) (Some (PipeLock p))) (
           ret None)))))"
  by (auto intro!: consumes_sleep consumes_bnd consumes_seq uses consumes_ret)

lemma consumes_wait_data:
  "consumes (bnd (get_pipe p) (\<lambda>x.
       if \<not> (pipe_empty x \<and> writeopen x) then ret (Some False)
       else
         bnd mykilled (\<lambda>k.
         if k then ret (Some True)
         else
           seq (sleep (Some (ChPipeRead p)) (Some (PipeLock p))) (
           ret None))))"
  by (auto intro!: consumes_sleep consumes_bnd uses consumes_ret)

lemma wp_mykilled_waiting:
  assumes "mach_ok m\<^sub>0" "cpu_proc (the_cpu m\<^sub>0) = Some i" "waiting m\<^sub>0 i L pid I s" "stable E I"
  shows "wp mykilled (\<lambda>k s'. waiting m\<^sub>0 i L pid I s' \<and> s' = s\<lparr>mach := mach s'\<rparr> \<and> k = p_killed (ptable s ! i)) s"
  unfolding mykilled_def
proof (rule wp_bnd, rule wp_myproc [OF assms(1)])
  show "inside m\<^sub>0 {L} (mach s)" using assms(3) by (simp add: waiting_def)
  fix m assume "inside m\<^sub>0 {L} m"
  then have "waiting m\<^sub>0 i L pid I (s\<lparr>mach := m\<rparr>)"
    using assms(3) stableD(1) [OF assms(4), of s m] by (simp add: waiting_def)
  then show "wp (deref (cpu_proc (the_cpu m\<^sub>0)) (\<lambda>i. bnd (get_proc i) (\<lambda>pr. ret (p_killed pr))))
      (\<lambda>k s'. waiting m\<^sub>0 i L pid I s' \<and> s' = s\<lparr>mach := mach s'\<rparr> \<and> k = p_killed (ptable s ! i)) (s\<lparr>mach := m\<rparr>)"
    by (simp add: assms(2) deref_def get_proc_def, intro wp_bnd) (simp add: wp_get wp_ret)
qed

text \<open>What writers may do while a reader of the pipe sleeps: append bytes, and close their end.\<close>

definition pipe_step :: "u32 \<Rightarrow> (u8 list \<Rightarrow> u8 list \<Rightarrow> bool) \<Rightarrow> ('z pipe_state_scheme \<Rightarrow> 'z pipe_state_scheme) \<Rightarrow> bool" where
  "pipe_step p R e \<longleftrightarrow> (\<forall>s. length (ptable (e s)) = length (ptable s) \<and>
     (pipe_ok (pipes s p) \<longrightarrow> pipe_ok (pipes (e s) p) \<and> R (pipe_bytes (pipes s p)) (pipe_bytes (pipes (e s) p))))"

definition appended :: "u8 list \<Rightarrow> u8 list \<Rightarrow> bool" where
  "appended b c \<longleftrightarrow> (\<exists>d. c = b @ d)"

lemma appended_trans: "appended a b \<Longrightarrow> appended b c \<Longrightarrow> appended a c" and appended_refl: "appended a a"
  by (auto simp: appended_def)

text \<open>The pipe holds, relative to the stream \<open>st\<close>, what \<open>R\<close> allows.\<close>

definition stream :: "u32 \<Rightarrow> (u8 list \<Rightarrow> u8 list \<Rightarrow> bool) \<Rightarrow> u8 list \<Rightarrow> 'z pipe_state_scheme \<Rightarrow> bool" where
  "stream p R st s \<longleftrightarrow> length (ptable s) = NPROC \<and> pipe_ok (pipes s p) \<and> R st (pipe_bytes (pipes s p))"

definition others :: "machine \<Rightarrow> nat \<Rightarrow> u32 \<Rightarrow> (u8 list \<Rightarrow> u8 list \<Rightarrow> bool) \<Rightarrow> ('z pipe_state_scheme \<Rightarrow> 'z pipe_state_scheme) set" where
  "others m\<^sub>0 i p R = {e. env_ok m\<^sub>0 i e \<and> pipe_step p R e}"

lemma stable_stream:
  assumes "\<And>a b c. R a b \<Longrightarrow> R b c \<Longrightarrow> R a c"
  shows "stable (others m\<^sub>0 i p R) (stream p R st)"
  unfolding stable_def stream_def others_def pipe_step_def using assms by auto

text \<open>What readers may do while a writer sleeps: take bytes from the front, and close their end.  What they have received so far
  is kept outside the kernel structures \<^verbatim>\<open>pipewrite\<close> works on, and \<open>got\<close> tells it from a state: every byte a
  reader takes goes there.\<close>

definition apart :: "('z pipe_state_scheme \<Rightarrow> u8 list) \<Rightarrow> bool" where
  "apart got \<longleftrightarrow> (\<forall>s x T m. got (s\<lparr>pipes := x, ptable := T, mach := m\<rparr>) = got s)"

definition reader_step :: "u32 \<Rightarrow> ('z pipe_state_scheme \<Rightarrow> u8 list) \<Rightarrow> ('z pipe_state_scheme \<Rightarrow> 'z pipe_state_scheme) \<Rightarrow> bool" where
  "reader_step p got e \<longleftrightarrow> (\<forall>s. length (ptable (e s)) = length (ptable s) \<and>
     (pipe_ok (pipes s p) \<longrightarrow> pipe_ok (pipes (e s) p) \<and>
       (\<exists>k. got (e s) = got s @ take k (pipe_bytes (pipes s p)) \<and> pipe_bytes (pipes (e s) p) = drop k (pipe_bytes (pipes s p)))))"

definition readers :: "machine \<Rightarrow> nat \<Rightarrow> u32 \<Rightarrow> ('z pipe_state_scheme \<Rightarrow> u8 list) \<Rightarrow> ('z pipe_state_scheme \<Rightarrow> 'z pipe_state_scheme) set" where
  "readers m\<^sub>0 i p got = {e. env_ok m\<^sub>0 i e \<and> reader_step p got e}"

text \<open>The bytes received and those still in the pipe are the stream \<open>st\<close>.\<close>

definition flow :: "u32 \<Rightarrow> ('z pipe_state_scheme \<Rightarrow> u8 list) \<Rightarrow> u8 list \<Rightarrow> 'z pipe_state_scheme \<Rightarrow> bool" where
  "flow p got st s \<longleftrightarrow> length (ptable s) = NPROC \<and> pipe_ok (pipes s p) \<and> got s @ pipe_bytes (pipes s p) = st"

lemma apartD:
  assumes "apart got"
  shows "got (s\<lparr>mach := m, ptable := T\<rparr>) = got s" "got (s\<lparr>pipes := x\<rparr>) = got s" "got (s\<lparr>mach := m\<rparr>) = got s"
proof -
  have *: "got (s\<lparr>pipes := x, ptable := T, mach := m\<rparr>) = got s" for x T m using assms unfolding apart_def by blast
  show "got (s\<lparr>mach := m, ptable := T\<rparr>) = got s" using * [where x = "pipes s" and T = T and m = m] by (cases s) simp
  show "got (s\<lparr>pipes := x\<rparr>) = got s" using * [where x = x and T = "ptable s" and m = "mach s"] by simp
  show "got (s\<lparr>mach := m\<rparr>) = got s" using * [where x = "pipes s" and T = "ptable s" and m = m] by simp
qed

lemma stable_flow:
  assumes "apart got"
  shows "stable (readers m\<^sub>0 i p got) (flow p got st)"
  unfolding stable_def
proof (intro conjI allI ballI impI)
  fix e s assume "e \<in> readers m\<^sub>0 i p got" "flow p got st s"
  then show "flow p got st (e s)" unfolding readers_def reader_step_def flow_def by (auto dest!: spec [of _ s])
qed (auto simp: flow_def apartD [OF assms])

text \<open>The state in which a process waits for the other end: asleep on the channel, nobody left asleep on the
  channel it has just signalled.\<close>

definition parked :: "nat \<Rightarrow> chan \<Rightarrow> 'z proc_state_scheme \<Rightarrow> bool" where
  "parked i ch s \<longleftrightarrow> p_state (ptable s ! i) = SLEEPING \<and> p_chan (ptable s ! i) = Some ch"

definition no_sleeper :: "chan \<Rightarrow> 'z proc_state_scheme \<Rightarrow> bool" where
  "no_sleeper ch s \<longleftrightarrow> (\<forall>q \<in> set (ptable s). \<not> (p_state q = SLEEPING \<and> p_chan q = Some ch))"

lemma no_sleeper_wake: "no_sleeper ch (s\<lparr>ptable := (map (wake_one (Some ch)) t)[i := asleep (Some ch') q]\<rparr>)" if "ch' \<noteq> ch"
  using that unfolding no_sleeper_def by (auto simp: wake_one_def asleep_def dest!: set_update_subset_insert [THEN subsetD])

text \<open>The two steps of a waiting round: the test of \<^verbatim>\<open>killed\<close> and going to sleep.\<close>

lemma wpb_killed_round:
  assumes ok: "mach_ok m\<^sub>0" "cpu_proc (the_cpu m\<^sub>0) = Some i" and t: "waiting m\<^sub>0 i L pid I t" "stable E I"
    and Q: "\<And>u. waiting m\<^sub>0 i L pid I u \<Longrightarrow> pipes u = pipes t \<Longrightarrow> ptable u = ptable t \<Longrightarrow> wpb E B (f (p_killed (ptable t ! i))) Q u"
  shows "wpb E B (bnd mykilled f) Q t"
proof (rule wpb_bndI [OF wpb_wp [OF wp_mykilled_waiting [OF ok t]]], elim conjE)
  fix k u assume u: "waiting m\<^sub>0 i L pid I u" "u = t\<lparr>mach := mach u\<rparr>" "k = p_killed (ptable t ! i)"
  show "wpb E B (f k) Q u"
    using Q [OF u(1)] u(3) arg_cong [where f = pipes, OF u(2)] arg_cong [where f = ptable, OF u(2)] by simp
qed

lemma wpb_sleep_round:
  assumes ok: "mach_ok m\<^sub>0" "depth m\<^sub>0 = 0" "lock_free m\<^sub>0 PtableLock" "cpu_proc (the_cpu m\<^sub>0) = Some i"
    and u: "waiting m\<^sub>0 i (PipeLock p) pid I u" and E: "\<And>e. e \<in> E \<Longrightarrow> env_ok m\<^sub>0 i e" "stable E I"
    and B: "\<And>s'. I s' \<Longrightarrow> pipes s' = pipes u \<Longrightarrow> ptable s' = (ptable u)[i := asleep ch (ptable u ! i)] \<Longrightarrow> i < length (ptable u) \<Longrightarrow> B s'"
    and Q: "\<And>u. waiting m\<^sub>0 i (PipeLock p) pid I u \<Longrightarrow> Q None u"
  shows "wpb E B (seq (sleep ch (Some (PipeLock p))) (ret None)) Q u"
proof (rule wpb_seqI [OF wpb_sleep_waiting [OF ok(1-3) _ ok(4) u E]], simp_all add: wpb_ret Q)
  fix s' assume I: "I s'" and s': "s' = u\<lparr>mach := mach s', ptable := (ptable u)[i := asleep ch (ptable u ! i)]\<rparr>"
  show "B s'"
    by (rule B) (use I arg_cong [where f = pipes, OF s'] arg_cong [where f = ptable, OF s'] u in \<open>simp_all add: waiting_def\<close>)
qed

lemma waiting_I: "waiting m\<^sub>0 i L pid I s \<Longrightarrow> I s"
  by (simp add: waiting_def)

abbreviation writer_parked :: "nat \<Rightarrow> u32 \<Rightarrow> 'z pipe_state_scheme \<Rightarrow> bool" where
  "writer_parked i p s \<equiv> pipe_full (pipes s p) \<and> readopen (pipes s p) \<and> parked i (ChPipeWrite p) s \<and> no_sleeper (ChPipeRead p) s"

lemma wpb_wait_room:
  fixes s :: "'z pipe_state_scheme"
  assumes ok: "mach_ok m\<^sub>0" "depth m\<^sub>0 = 0" "lock_free m\<^sub>0 PtableLock" "cpu_proc (the_cpu m\<^sub>0) = Some i" and g: "apart got"
    and w: "waiting m\<^sub>0 i (PipeLock p) pid (flow p got st) s"
  shows "wpb (readers m\<^sub>0 i p got)
     (\<lambda>s'. flow p got st s' \<and> writer_parked i p s')
     (wait_room p)
     (\<lambda>stop s'. waiting m\<^sub>0 i (PipeLock p) pid (flow p got st) s' \<and>
        (if stop then pipe_full (pipes s' p) \<and> (\<not> readopen (pipes s' p) \<or> p_killed (ptable s' ! i)) else \<not> pipe_full (pipes s' p))) s"
    (is "wpb ?E ?B _ ?Q s")
  unfolding wait_room_def
proof (rule wpb_forever [where I = "waiting m\<^sub>0 i (PipeLock p) pid (flow p got st)", OF consumes_wait_room w],
    rule wpb_bnd_wp, simp only: get_pipe_def wp_get)
  let ?W = "waiting m\<^sub>0 i (PipeLock p) pid (flow p got st) :: 'z pipe_state_scheme \<Rightarrow> bool"
  let ?R = "\<lambda>r t'. case r of None \<Rightarrow> ?W t' | Some v \<Rightarrow> ?Q v t'"
  have st: "stable ?E (flow p got st)" by (rule stable_flow [OF g])
  have E: "\<And>e. e \<in> ?E \<Longrightarrow> env_ok m\<^sub>0 i e" by (simp add: readers_def)
  have L: "PipeLock p \<noteq> PtableLock" by simp
  have sleep: "wpb ?E ?B (seq (wakeup (Some (ChPipeRead p))) (seq (sleep (Some (ChPipeWrite p)) (Some (PipeLock p))) (ret None))) ?R u"
    if u: "?W u" "pipe_full (pipes u p)" "readopen (pipes u p)" for u
  proof (rule wpb_seqI [OF wpb_wp [OF wp_wakeup_waiting [OF ok(1,3) L u(1) _ st]]])
    show "length (ptable u) = NPROC" using u(1) by (simp add: waiting_def flow_def)
  next
    fix v assume "?W v \<and> v = u\<lparr>ptable := map (wake_one (Some (ChPipeRead p))) (ptable u), mach := mach v\<rparr>"
    then have v: "?W v" "v = u\<lparr>ptable := map (wake_one (Some (ChPipeRead p))) (ptable u), mach := mach v\<rparr>" by blast+
    have pv: "ptable v = map (wake_one (Some (ChPipeRead p))) (ptable u)" "pipes v = pipes u"
      using arg_cong [where f = ptable, OF v(2)] arg_cong [where f = pipes, OF v(2)] by simp_all
    show "wpb ?E ?B (seq (sleep (Some (ChPipeWrite p)) (Some (PipeLock p))) (ret None)) ?R v"
      by (rule wpb_sleep_round [OF ok v(1) E st])
        (use u(2,3) pv no_sleeper_wake [where ch' = "ChPipeWrite p" and ch = "ChPipeRead p"] in
          \<open>simp_all add: parked_def asleep_def no_sleeper_def\<close>)
  qed
  fix t assume t: "?W t"
  show "wpb ?E ?B (if \<not> pipe_full (pipes t p) then ret (Some False)
     else bnd (if readopen (pipes t p) then mykilled else ret True) (\<lambda>stop. if stop then ret (Some True) else
       seq (wakeup (Some (ChPipeRead p))) (seq (sleep (Some (ChPipeWrite p)) (Some (PipeLock p))) (ret None)))) ?R t"
  proof (cases "pipe_full (pipes t p) \<and> readopen (pipes t p)")
    case True
    show ?thesis
      by (simp only: True simp_thms if_True if_False, rule wpb_killed_round [OF ok(1,4) t st])
        (use True sleep in \<open>auto intro!: wpb_ret\<close>)
  qed (use t in \<open>auto intro!: wpb_bnd wpb_ret\<close>)
qed

lemma flow_put:
  "apart got \<Longrightarrow> flow p got st s \<Longrightarrow> \<not> pipe_full (pipes s p) \<Longrightarrow> flow p got (st @ [c]) (s\<lparr>pipes := (pipes s)(p := put_byte c (pipes s p))\<rparr>)"
  by (auto simp: flow_def apartD ring.put_ok ring.put_contents)

lemma wpb_pipewrite_loop:
  fixes s :: "'z pipe_state_scheme"
  assumes ok: "mach_ok m\<^sub>0" "depth m\<^sub>0 = 0" "lock_free m\<^sub>0 PtableLock" "cpu_proc (the_cpu m\<^sub>0) = Some i" and g: "apart got"
  shows "waiting m\<^sub>0 i (PipeLock p) pid (flow p got st) s \<Longrightarrow>
    wpb (readers m\<^sub>0 i p got) (\<lambda>s'. writer_parked i p s' \<and> (\<exists>j < length bs. flow p got (st @ take j bs) s')) (pipewrite_loop p bs)
     (\<lambda>ok s'. \<exists>j \<le> length bs. waiting m\<^sub>0 i (PipeLock p) pid (flow p got (st @ take j bs)) s' \<and> (ok \<longleftrightarrow> j = length bs) \<and>
        (ok \<or> \<not> readopen (pipes s' p) \<or> p_killed (ptable s' ! i))) s"
proof (induction bs arbitrary: st s)
  case Nil
  then show ?case by (simp add: wpb_ret)
next
  case (Cons c cs)
  let ?W = "\<lambda>st. waiting m\<^sub>0 i (PipeLock p) pid (flow p got st) :: 'z pipe_state_scheme \<Rightarrow> bool"
  let ?E = "readers m\<^sub>0 i p got"
  let ?B = "\<lambda>bs st s'. writer_parked i p s' \<and> (\<exists>j < length bs. flow p got (st @ take j bs) s')"
  let ?Q = "\<lambda>bs st ok s'. \<exists>j \<le> length bs. ?W (st @ take j bs) s' \<and> (ok \<longleftrightarrow> j = length bs) \<and>
        (ok \<or> \<not> readopen (pipes s' p) \<or> p_killed (ptable s' ! i))"
  have step: "wpb ?E (?B (c # cs) st) (pipewrite_loop p cs) (?Q (c # cs) st) u" if "?W (st @ [c]) u" for u
  proof (rule wpb_weaken, rule wpb_mono [OF Cons.IH [OF that]], elim exE conjE)
    fix ok s' j
    assume "j \<le> length cs" "?W ((st @ [c]) @ take j cs) s'" "ok = (j = length cs)"
      "ok \<or> \<not> readopen (pipes s' p) \<or> p_killed (ptable s' ! i)"
    then show "?Q (c # cs) st ok s'" by (intro exI [of _ "Suc j"]) simp
  next
    fix s' assume "?B cs (st @ [c]) s'"
    then obtain j where "writer_parked i p s'" "j < length cs" "flow p got (st @ [c] @ take j cs) s'" by auto
    then show "?B (c # cs) st s'" by (intro conjI exI [of _ "Suc j"]) simp_all
  qed
  have put: "?W (st @ [c]) (t\<lparr>pipes := (pipes t)(p := put_byte c (pipes t p))\<rparr>)" if "?W st t" "\<not> pipe_full (pipes t p)" for t
    using that flow_put [OF g] by (simp add: waiting_def)
  show ?case
    unfolding pipewrite_loop.simps
  proof (rule wpb_bndI [OF wpb_weaken [OF wpb_wait_room [OF ok g Cons.prems]]])
    fix s' assume "flow p got st s' \<and> writer_parked i p s'"
    then show "?B (c # cs) st s'" by (auto intro!: exI [of _ 0])
  next
    fix stop t
    assume t: "?W st t \<and> (if stop then pipe_full (pipes t p) \<and> (\<not> readopen (pipes t p) \<or> p_killed (ptable t ! i)) else \<not> pipe_full (pipes t p))"
    show "wpb ?E (?B (c # cs) st) (if stop then ret False else seq (upd_pipe p (put_byte c)) (pipewrite_loop p cs)) (?Q (c # cs) st) t"
    proof (cases stop)
      case True
      with t show ?thesis by (auto intro!: wpb_ret exI [of _ 0])
    next
      case False
      with t have "wpb ?E (?B (c # cs) st) (pipewrite_loop p cs) (?Q (c # cs) st) (t\<lparr>pipes := (pipes t)(p := put_byte c (pipes t p))\<rparr>)"
        by (intro step put) simp_all
      then show ?thesis by (simp add: False, intro wpb_seq_wp) (simp only: upd_pipe_def wp_upd)
    qed
  qed
qed

text \<open>Leaving the critical section of the pipe.\<close>

lemma wp_leave:
  assumes "mach_ok m\<^sub>0" "waiting m\<^sub>0 i (PipeLock p) pid I s" "stable E I"
    and "\<And>s'. inside m\<^sub>0 {} (mach s') \<Longrightarrow> I s' \<Longrightarrow> pipes s' = pipes s \<Longrightarrow> ptable s' = ptable s \<Longrightarrow> Q () s'"
  shows "wp (release (PipeLock p)) Q s"
proof (rule wp_release [OF assms(1), of "{PipeLock p}"])
  fix m assume "inside m\<^sub>0 ({PipeLock p} - {PipeLock p}) m"
  then show "Q () (s\<lparr>mach := m\<rparr>)"
    using assms(2) stableD(1) [OF assms(3), of s m] by (intro assms(4)) (simp_all add: waiting_def)
qed (use assms(2) in \<open>simp_all add: waiting_def\<close>)

text \<open>C19: No byte is lost, duplicated or reordered by \<^verbatim>\<open>pipewrite\<close>, whatever readers do while it sleeps.  Let \<open>got\<close> be what the readers have
  received.  When \<^verbatim>\<open>pipewrite\<close> returns, it returns \<open>n\<close>, and what the readers have received since, followed by what the pipe holds, is
  what the pipe held before followed by the \<open>n\<close> bytes, and no reader is left asleep; or it returns -1, the same is true of the first \<open>j < n\<close> bytes, and the read end is
  closed or the process is killed.  It takes and gives back the lock of the pipe.  It never panics; while it sleeps some of the bytes are written in
  the same sense, the pipe is full, its read end is open and no reader is asleep.\<close>

theorem pipewrite_stream:
  fixes s :: "'z pipe_state_scheme"
  assumes ok: "mach_ok (mach s)" "depth (mach s) = 0" "lock_free (mach s) PtableLock" "lock_free (mach s) (PipeLock p)"
    and i: "cpu_proc (the_cpu (mach s)) = Some i" "i < length (ptable s)" "length (ptable s) = NPROC"
    and p: "pipe_ok (pipes s p)" and n: "length addr = nat n" "0 \<le> n" and g: "apart got"
  shows "wpb (readers (mach s) i p got)
     (\<lambda>s'. writer_parked i p s' \<and> (\<exists>j < nat n. got s' @ pipe_bytes (pipes s' p) = got s @ pipe_bytes (pipes s p) @ take j addr))
     (pipewrite p addr n)
     (\<lambda>r s'. \<exists>j. got s' @ pipe_bytes (pipes s' p) = got s @ pipe_bytes (pipes s p) @ take j addr \<and> pipe_ok (pipes s' p) \<and>
        inside (mach s) {} (mach s') \<and>
        (r = n \<and> j = nat n \<and> no_sleeper (ChPipeRead p) s' \<or> r = - 1 \<and> j < nat n \<and> (\<not> readopen (pipes s' p) \<or> p_killed (ptable s' ! i)))) s"
    (is "wpb ?E ?B _ ?Q s")
  unfolding pipewrite_def
proof (rule wpb_seq_wp, rule wp_acquire [OF ok(1) inside_refl [OF ok(1)] ok(4)], simp)
  let ?st = "got s @ pipe_bytes (pipes s p)" and ?pid = "p_pid (ptable s ! i)"
  let ?W = "\<lambda>st. waiting (mach s) i (PipeLock p) ?pid (flow p got st) :: 'z pipe_state_scheme \<Rightarrow> bool"
  have st: "\<And>st. stable ?E (flow p got st)" by (rule stable_flow [OF g])
  fix m assume "inside (mach s) {PipeLock p} m"
  then have w: "?W ?st (s\<lparr>mach := m\<rparr>)" using i p by (simp add: waiting_def flow_def apartD [OF g])
  have loop: "wpb ?E ?B (pipewrite_loop p addr) (\<lambda>ok s'. \<exists>j \<le> length addr. ?W (?st @ take j addr) s' \<and> (ok \<longleftrightarrow> j = length addr) \<and>
      (ok \<or> \<not> readopen (pipes s' p) \<or> p_killed (ptable s' ! i))) (s\<lparr>mach := m\<rparr>)"
    by (rule wpb_weaken [OF wpb_pipewrite_loop [OF ok(1-3) i(1) g w]]) (use n in \<open>auto simp: flow_def\<close>)
  have take: "take (nat n) addr = addr" using n by simp
  show "wpb ?E ?B (bnd (pipewrite_loop p (take (nat n) addr)) (\<lambda>ok. if \<not> ok then seq (release (PipeLock p)) (ret (- 1))
       else seq (wakeup (Some (ChPipeRead p))) (seq (release (PipeLock p)) (ret n)))) ?Q (s\<lparr>mach := m\<rparr>)"
    unfolding take
  proof (rule wpb_bndI [OF loop], elim exE conjE)
    fix okb t j
    assume t: "j \<le> length addr" "?W (?st @ take j addr) t" "okb = (j = length addr)" "okb \<or> \<not> readopen (pipes t p) \<or> p_killed (ptable t ! i)"
    then have w: "?W (?st @ take j addr) t" "j \<le> nat n" "okb = (j = nat n)" using n by simp_all
    show "wpb ?E ?B (if \<not> okb then seq (release (PipeLock p)) (ret (- 1))
       else seq (wakeup (Some (ChPipeRead p))) (seq (release (PipeLock p)) (ret n))) ?Q t"
    proof (cases okb)
      case False
      show ?thesis
        by (simp only: False simp_thms if_True, rule wpb_seq_wp, rule wp_leave [OF ok(1) w(1) st])
          (use False t(4) w(2,3) in \<open>auto simp: flow_def intro!: wpb_ret exI [of _ j]\<close>)
    next
      case True
      have L: "PipeLock p \<noteq> PtableLock" "length (ptable t) = NPROC" using w(1) by (simp_all add: waiting_def flow_def)
      show ?thesis
      proof (simp only: True simp_thms if_False, rule wpb_seqI [OF wpb_wp [OF wp_wakeup_waiting [OF ok(1,3) L(1) w(1) L(2) st]]])
        fix v assume "?W (?st @ take j addr) v \<and> v = t\<lparr>ptable := map (wake_one (Some (ChPipeRead p))) (ptable t), mach := mach v\<rparr>"
        then have v: "?W (?st @ take j addr) v" "v = t\<lparr>ptable := map (wake_one (Some (ChPipeRead p))) (ptable t), mach := mach v\<rparr>" by blast+
        have ns: "no_sleeper (ChPipeRead p) s'" if "ptable s' = ptable v" for s' :: "'z pipe_state_scheme"
          using arg_cong [where f = ptable, OF v(2)] that by (auto simp: no_sleeper_def wake_one_def)
        show "wpb ?E ?B (seq (release (PipeLock p)) (ret n)) ?Q v"
          by (rule wpb_seq_wp, rule wp_leave [OF ok(1) v(1) st])
            (use True w(3) ns in \<open>auto simp: flow_def intro!: wpb_ret exI [of _ j]\<close>)
      qed
    qed
  qed
qed

text \<open>The reading side.\<close>

lemma piperead_loop_run:
  "piperead_loop p n s es =
     Ret (fst (ring.drain n (pipes s p))) (s\<lparr>pipes := (pipes s)(p := snd (ring.drain n (pipes s p)))\<rparr>) es"
proof (induction n arbitrary: s)
  case (Suc n)
  show ?case
    by (cases "pipe_empty (pipes s p)")
      (simp_all add: bnd_run seq_run get_run upd_run get_pipe_def upd_pipe_def case_prod_beta Let_def Suc.IH cong: if_cong)
qed simp

abbreviation reader_parked :: "nat \<Rightarrow> u32 \<Rightarrow> 'z pipe_state_scheme \<Rightarrow> bool" where
  "reader_parked i p s \<equiv> pipe_empty (pipes s p) \<and> writeopen (pipes s p) \<and> parked i (ChPipeRead p) s"

lemma wpb_wait_data:
  fixes s :: "'z pipe_state_scheme"
  assumes ok: "mach_ok m\<^sub>0" "depth m\<^sub>0 = 0" "lock_free m\<^sub>0 PtableLock" "cpu_proc (the_cpu m\<^sub>0) = Some i"
    and w: "waiting m\<^sub>0 i (PipeLock p) pid (stream p appended st) s"
  shows "wpb (others m\<^sub>0 i p appended) (reader_parked i p) (wait_data p)
     (\<lambda>stop s'. waiting m\<^sub>0 i (PipeLock p) pid (stream p appended st) s' \<and>
        (if stop then pipe_empty (pipes s' p) \<and> p_killed (ptable s' ! i) else \<not> (pipe_empty (pipes s' p) \<and> writeopen (pipes s' p)))) s"
    (is "wpb ?E ?B _ ?Q s")
  unfolding wait_data_def
proof (rule wpb_forever [where I = "waiting m\<^sub>0 i (PipeLock p) pid (stream p appended st)", OF consumes_wait_data w],
    rule wpb_bnd_wp, simp only: get_pipe_def wp_get)
  let ?W = "waiting m\<^sub>0 i (PipeLock p) pid (stream p appended st) :: 'z pipe_state_scheme \<Rightarrow> bool"
  let ?R = "\<lambda>r t'. case r of None \<Rightarrow> ?W t' | Some v \<Rightarrow> ?Q v t'"
  have st: "stable ?E (stream p appended st)" by (rule stable_stream) (rule appended_trans)
  have E: "\<And>e. e \<in> ?E \<Longrightarrow> env_ok m\<^sub>0 i e" by (simp add: others_def)
  have sleep: "wpb ?E ?B (seq (sleep (Some (ChPipeRead p)) (Some (PipeLock p))) (ret None)) ?R u"
    if u: "?W u" "pipe_empty (pipes u p)" "writeopen (pipes u p)" for u
    by (rule wpb_sleep_round [OF ok u(1) E st]) (use u(2,3) in \<open>simp_all add: parked_def asleep_def\<close>)
  fix t assume t: "?W t"
  show "wpb ?E ?B (if \<not> (pipe_empty (pipes t p) \<and> writeopen (pipes t p)) then ret (Some False)
     else bnd mykilled (\<lambda>k. if k then ret (Some True) else seq (sleep (Some (ChPipeRead p)) (Some (PipeLock p))) (ret None))) ?R t"
  proof (cases "pipe_empty (pipes t p) \<and> writeopen (pipes t p)")
    case True
    show ?thesis
      by (simp only: True simp_thms if_True if_False, rule wpb_killed_round [OF ok(1,4) t st])
        (use True sleep in \<open>auto intro!: wpb_ret\<close>)
  qed (use t in \<open>auto intro!: wpb_ret\<close>)
qed

text \<open>The bytes are read and the section is left: nobody may write in between.\<close>

lemma wp_piperead_tail:
  assumes ok: "mach_ok m\<^sub>0" "lock_free m\<^sub>0 PtableLock" and w: "waiting m\<^sub>0 i (PipeLock p) pid (stream p appended st) t"
    and Q: "\<And>s' b. b = pipe_bytes (pipes t p) \<Longrightarrow> inside m\<^sub>0 {} (mach s') \<Longrightarrow> pipe_ok (pipes s' p) \<Longrightarrow>
      pipe_bytes (pipes s' p) = drop n b \<Longrightarrow> writeopen (pipes s' p) = writeopen (pipes t p) \<Longrightarrow> Q (int (length (take n b)), take n b) s'"
  shows "wp (bnd (piperead_loop p n) (\<lambda>bs. seq (wakeup (Some (ChPipeWrite p))) (seq (release (PipeLock p)) (ret (int (length bs), bs))))) Q t"
proof -
  let ?x = "snd (ring.drain n (pipes t p))" and ?b = "pipe_bytes (pipes t p)"
  have t: "inside m\<^sub>0 {PipeLock p} (mach t)" "length (ptable t) = NPROC" "pipe_ok (pipes t p)"
    using w by (simp_all add: waiting_def stream_def)
  have wo: "writeopen (snd (ring.drain n x)) = writeopen x" for x
    by (induction n arbitrary: x) (auto simp: case_prod_beta Let_def drop_byte_def)
  show ?thesis
  proof (rule wp_bnd, rule wp_runI, rule piperead_loop_run, rule wp_seq, rule wp_wakeup_in [OF ok(1) _ ok(2)])
    show "inside m\<^sub>0 {PipeLock p} (mach (t\<lparr>pipes := (pipes t)(p := ?x)\<rparr>))" using t(1) by simp
    fix m assume m: "inside m\<^sub>0 {PipeLock p} m"
    let ?s = "t\<lparr>pipes := (pipes t)(p := ?x), ptable := map (wake_one (Some (ChPipeWrite p))) (ptable t), mach := m\<rparr>"
    have "wp (seq (release (PipeLock p)) (ret (int (length (take n ?b)), take n ?b))) Q ?s"
    proof (rule wp_seq, rule wp_release [OF ok(1), of "{PipeLock p}"])
      fix m' assume "inside m\<^sub>0 ({PipeLock p} - {PipeLock p}) m'"
      then show "wp (ret (int (length (take n ?b)), take n ?b)) Q (?s\<lparr>mach := m'\<rparr>)"
        using ring.drain_spec [OF t(3), of n] wo by (simp only: wp_ret, intro Q) simp_all
    qed (use m in simp_all)
    then show "wp (seq (release (PipeLock p)) (ret (int (length (fst (ring.drain n (pipes t p)))), fst (ring.drain n (pipes t p))))) Q
       (t\<lparr>pipes := (pipes t)(p := ?x), ptable := map (wake_one (Some (ChPipeWrite p))) (ptable (t\<lparr>pipes := (pipes t)(p := ?x)\<rparr>)), mach := m\<rparr>)"
      using ring.drain_spec [OF t(3), of n] by simp
  qed (use t in simp_all)
qed


text \<open>A pipe whose counters are about to wrap around, with one byte in it.\<close>

definition witness_ring :: pipe where
  "witness_ring = \<lparr>p_data = replicate 512 7, nread = 0xFFFFFFFE, nwrite = 0xFFFFFFFF, readopen = True, writeopen = True\<rparr>"

definition witness_pipe :: pipe_state where
  "witness_pipe = sleep_state.extend witness_sleep
     \<lparr>bufs = [], disk = (\<lambda>_. []), disksize = 0, disk_hist = [], log_start = 0, log_size = 0, outstanding = 0, committing = False,
      log_dev = 0, lh_n = 0, lh_block = [],
      sb = \<lparr>sb_size = 0, sb_nblocks = 0, sb_ninodes = 0, sb_nlog = 0, sb_logstart = 0, sb_inodestart = 0, sb_bmapstart = 0\<rparr>,
      inodes = [], devsw_read = [], devsw_write = [], input_buf = [], input_r = 0, input_w = 0, input_e = 0, input_size = 0,
      end_pos = 0, after_buf = (\<lambda>_. 0), pipes = (\<lambda>_. witness_ring)\<rparr>"

lemma witness_pipe_simps [simp]:
  "mach witness_pipe = boot_machine" "ptable witness_pipe = ptable witness_procs" "pipes witness_pipe p = witness_ring"
  using witness_sleep_simps by (simp_all add: witness_pipe_def sleep_state.defs)

lemma witness_ring_ok [simp]: "pipe_ok witness_ring" "pipe_bytes witness_ring = [7]"
  by (simp_all add: pipe_ok_def pipe_bytes_def witness_ring_def)

text \<open>A full pipe, and a reader that takes all its bytes; what the reader has received is the part of the state after the kernel's.\<close>

definition witness_full :: "u8 list pipe_state_scheme" where
  "witness_full = pipe_state.extend (witness_pipe\<lparr>pipes := \<lambda>_. witness_ring\<lparr>nread := 0xFFFFFF00, nwrite := 0x100\<rparr>\<rparr>) []"

definition witness_reader :: "u32 \<Rightarrow> u8 list pipe_state_scheme \<Rightarrow> u8 list pipe_state_scheme" where
  "witness_reader p s = s\<lparr>pipes := (pipes s)(p := (pipes s p)\<lparr>nread := nwrite (pipes s p)\<rparr>),
     pipe_state.more := pipe_state.more s @ pipe_bytes (pipes s p)\<rparr>"

lemma witness_full_simps [simp]:
  "mach witness_full = boot_machine" "ptable witness_full = ptable witness_procs" "pipe_state.more witness_full = []"
  "pipe_ok (pipes witness_full p)"
  using witness_pipe_simps by (simp_all add: witness_full_def pipe_state.defs witness_ring_def pipe_ok_def)

lemma witness_reader_ok: "witness_reader p \<in> readers boot_machine 0 p pipe_state.more"
proof -
  have "env_ok boot_machine 0 (witness_reader p)" by (rule env_ok_quiet) (simp_all add: witness_reader_def)
  moreover have "reader_step p pipe_state.more (witness_reader p)"
    unfolding reader_step_def
  proof (intro allI conjI impI)
    fix s :: "u8 list pipe_state_scheme"
    show "length (ptable (witness_reader p s)) = length (ptable s)" by (simp add: witness_reader_def)
    assume "pipe_ok (pipes s p)"
    then show "pipe_ok (pipes (witness_reader p s) p)" by (simp add: witness_reader_def pipe_ok_def)
    show "\<exists>k. pipe_state.more (witness_reader p s) = pipe_state.more s @ take k (pipe_bytes (pipes s p)) \<and>
        pipe_bytes (pipes (witness_reader p s) p) = drop k (pipe_bytes (pipes s p))"
      by (rule exI [of _ "length (pipe_bytes (pipes s p))"]) (simp add: witness_reader_def pipe_bytes_def)
  qed
  ultimately show ?thesis by (simp add: readers_def)
qed

theorem pipewrite_stream_witness:
  "case pipewrite 0x80400000 [1, 2, 3] 3 witness_full [witness_reader 0x80400000] of
     Ret r s' es' \<Rightarrow> \<exists>j. pipe_state.more s' @ pipe_bytes (pipes s' 0x80400000) = pipe_bytes (pipes witness_full 0x80400000) @ take j [1, 2, 3] \<and>
       (r = 3 \<and> j = 3 \<or> r = - 1 \<and> j < 3)
   | Panic p \<Rightarrow> False | Blocked s' \<Rightarrow> pipe_full (pipes s' 0x80400000) | Spin \<Rightarrow> False"
proof -
  let ?p = "0x80400000 :: u32" and ?e = "witness_reader 0x80400000"
  have g: "apart (pipe_state.more :: u8 list pipe_state_scheme \<Rightarrow> u8 list)" by (simp add: apart_def)
  have *: "wpb (readers (mach witness_full) 0 ?p pipe_state.more)
     (\<lambda>s'. writer_parked 0 ?p s' \<and> (\<exists>j < nat 3. pipe_state.more s' @ pipe_bytes (pipes s' ?p) =
        pipe_state.more witness_full @ pipe_bytes (pipes witness_full ?p) @ take j [1, 2, 3]))
     (pipewrite ?p [1, 2, 3] 3)
     (\<lambda>r s'. \<exists>j. pipe_state.more s' @ pipe_bytes (pipes s' ?p) = pipe_state.more witness_full @ pipe_bytes (pipes witness_full ?p) @ take j [1, 2, 3] \<and>
        pipe_ok (pipes s' ?p) \<and> inside (mach witness_full) {} (mach s') \<and>
        (r = 3 \<and> j = nat 3 \<and> no_sleeper (ChPipeRead ?p) s' \<or> r = - 1 \<and> j < nat 3 \<and> (\<not> readopen (pipes s' ?p) \<or> p_killed (ptable s' ! 0)))) witness_full"
    by (rule pipewrite_stream [OF _ _ _ _ _ _ _ _ _ _ g]) simp_all
  have e: "set [?e] \<subseteq> readers (mach witness_full) 0 ?p pipe_state.more" using witness_reader_ok by simp
  show ?thesis
    using * [unfolded wpb_def, rule_format, OF e] by (cases "pipewrite ?p [1, 2, 3] 3 witness_full [?e]") auto
qed


end
