(* ===== verification/File.thy ===== *)
theory File
  imports Pipe
begin

text \<open>The file table (\<^verbatim>\<open>file.c\<close>) and \<^verbatim>\<open>pipealloc\<close>.  A \<^verbatim>\<open>struct file *\<close> is an index into the table.  Reads yield the bytes
  they store at \<^verbatim>\<open>addr\<close>, writes are given the bytes found there.\<close>

section \<open>State\<close>

datatype fdtype = FD_NONE | FD_PIPE | FD_INODE

record file_rec =
  f_type :: fdtype
  f_ref :: int
  f_readable :: bool
  f_writable :: bool
  f_pipe :: u32
  f_ip :: nat
  f_off :: u32

record file_state = pipe_state +
  files :: "file_rec list"

definition get_file :: "nat \<Rightarrow> ('z file_state_scheme, file_rec) kM" where
  "get_file f = get (\<lambda>s. files s ! f)"

definition upd_file :: "nat \<Rightarrow> (file_rec \<Rightarrow> file_rec) \<Rightarrow> ('z file_state_scheme, unit) kM" where
  "upd_file f g = upd (\<lambda>s. s\<lparr>files := (files s)[f := g (files s ! f)]\<rparr>)"

section \<open>The code\<close>

definition fileinit :: "('z kbase_scheme, unit) kM" where
  "fileinit = initlock FtableLock ''ftable''"

definition filealloc :: "('z file_state_scheme, nat option) kM" where
  "filealloc =
     seq (acquire FtableLock) (
     bnd (get (\<lambda>s. find_from (\<lambda>f. f_ref f = 0) (files s) 0)) (\<lambda>r.
     case r of
       Some f \<Rightarrow>
         seq (upd_file f (\<lambda>x. x\<lparr>f_ref := 1\<rparr>)) (
         seq (release FtableLock) (
         ret (Some f)))
     | None \<Rightarrow> seq (release FtableLock) (ret None)))"

definition filedup :: "nat \<Rightarrow> ('z file_state_scheme, nat) kM" where
  "filedup f =
     seq (acquire FtableLock) (
     bnd (get_file f) (\<lambda>x.
     if f_ref x < 1 then panic ''filedup''
     else
       seq (upd_file f (\<lambda>x. x\<lparr>f_ref := f_ref x + 1\<rparr>)) (
       seq (release FtableLock) (
       ret f))))"

definition fileclose :: "nat \<Rightarrow> ('z file_state_scheme, unit) kM" where
  "fileclose f =
     seq (acquire FtableLock) (
     bnd (get_file f) (\<lambda>x.
     if f_ref x < 1 then panic ''fileclose''
     else
       seq (upd_file f (\<lambda>x. x\<lparr>f_ref := f_ref x - 1\<rparr>)) (
       bnd (get_file f) (\<lambda>ff.
       if f_ref ff > 0 then release FtableLock
       else
         seq (upd_file f (\<lambda>x. x\<lparr>f_ref := 0, f_type := FD_NONE\<rparr>)) (
         seq (release FtableLock) (
         case f_type ff of
           FD_PIPE \<Rightarrow> pipeclose (f_pipe ff) (f_writable ff)
         | FD_INODE \<Rightarrow> seq begin_op (seq (iput (f_ip ff)) end_op)
         | FD_NONE \<Rightarrow> ret ()))))))"

definition filestat :: "nat \<Rightarrow> ('z file_state_scheme, stat option) kM" where
  "filestat f =
     bnd (get_file f) (\<lambda>x.
     if f_type x = FD_INODE then
       seq (ilock (Some (f_ip x))) (
       bnd (stati (f_ip x)) (\<lambda>st.
       seq (iunlock (Some (f_ip x))) (
       ret (Some st))))
     else ret None)"

definition fileread :: "nat \<Rightarrow> int \<Rightarrow> ('z file_state_scheme, int \<times> u8 list) kM" where
  "fileread f n =
     bnd (get_file f) (\<lambda>x.
     if \<not> f_readable x then ret (- 1, [])
     else
       case f_type x of
         FD_PIPE \<Rightarrow> piperead (f_pipe x) n
       | FD_INODE \<Rightarrow>
           seq (ilock (Some (f_ip x))) (
           bnd (get_file f) (\<lambda>y.
           bnd (readi (f_ip x) (f_off y) (word_of_int n)) (\<lambda>(r, bs).
           seq (whenM (r > 0) (upd_file f (\<lambda>y. y\<lparr>f_off := f_off y + word_of_int r\<rparr>))) (
           seq (iunlock (Some (f_ip x))) (
           ret (r, bs))))))
       | FD_NONE \<Rightarrow> panic ''fileread'')"

text \<open>At most three blocks are written per transaction.\<close>

abbreviation "write_max \<equiv> 1536 :: nat"

text \<open>One round of the loop of \<^verbatim>\<open>filewrite\<close> on the bytes \<open>src\<close>.\<close>

definition write_chunk :: "nat \<Rightarrow> u8 list \<Rightarrow> ('z file_state_scheme, int) kM" where
  "write_chunk f src =
     seq begin_op (
     bnd (get_file f) (\<lambda>x.
     seq (ilock (Some (f_ip x))) (
     bnd (get_file f) (\<lambda>y.
     bnd (writei (f_ip x) src (f_off y) (of_nat (length src))) (\<lambda>r.
     seq (whenM (r > 0) (upd_file f (\<lambda>y. y\<lparr>f_off := f_off y + word_of_int r\<rparr>))) (
     seq (iunlock (Some (f_ip x))) (
     seq end_op (
     ret r))))))))"

text \<open>The loop; the result tells whether all bytes were written.\<close>

function write_loop :: "nat \<Rightarrow> u8 list \<Rightarrow> ('z file_state_scheme, bool) kM" where
  "write_loop f src =
     (if src = [] then ret True
      else
        bnd (write_chunk f (take write_max src)) (\<lambda>r.
        if r < 0 then ret False
        else if r \<noteq> int (length (take write_max src)) then panic ''short filewrite''
        else write_loop f (drop write_max src)))"
  by pat_completeness auto
termination by (relation "measure (\<lambda>(f, src). length src)") auto

definition filewrite :: "nat \<Rightarrow> u8 list \<Rightarrow> int \<Rightarrow> ('z file_state_scheme, int) kM" where
  "filewrite f addr n =
     bnd (get_file f) (\<lambda>x.
     if \<not> f_writable x then ret (- 1)
     else
       case f_type x of
         FD_PIPE \<Rightarrow> pipewrite (f_pipe x) addr n
       | FD_INODE \<Rightarrow>
           bnd (write_loop f (take (nat n) addr)) (\<lambda>all.
           ret (if all \<and> n \<ge> 0 then n else - 1))
       | FD_NONE \<Rightarrow> panic ''filewrite'')"

section \<open>Allocating a pipe\<close>

definition close_opt :: "nat option \<Rightarrow> ('z file_state_scheme, unit) kM" where
  "close_opt f = (case f of None \<Rightarrow> ret () | Some i \<Rightarrow> fileclose i)"

text \<open>The error exit; no page has been allocated when it is reached.\<close>

definition pipe_bad :: "nat option \<Rightarrow> nat option \<Rightarrow> ('z file_state_scheme, (nat \<times> nat) option) kM" where
  "pipe_bad f0 f1 = seq (close_opt f0) (seq (close_opt f1) (ret None))"

definition pipealloc :: "('z file_state_scheme, (nat \<times> nat) option) kM" where
  "pipealloc =
     bnd filealloc (\<lambda>r0.
     case r0 of
       None \<Rightarrow> pipe_bad None None
     | Some f0 \<Rightarrow>
         bnd filealloc (\<lambda>r1.
         case r1 of
           None \<Rightarrow> pipe_bad (Some f0) None
         | Some f1 \<Rightarrow>
             bnd kalloc (\<lambda>p.
             if p = 0 then pipe_bad (Some f0) (Some f1)
             else
               seq (upd_pipe p (\<lambda>x. x\<lparr>readopen := True, writeopen := True, nwrite := 0, nread := 0\<rparr>)) (
               seq (initlock (PipeLock p) ''pipe'') (
               seq (upd_file f0 (\<lambda>x. x\<lparr>f_type := FD_PIPE, f_readable := True, f_writable := False, f_pipe := p\<rparr>)) (
               seq (upd_file f1 (\<lambda>x. x\<lparr>f_type := FD_PIPE, f_readable := False, f_writable := True, f_pipe := p\<rparr>)) (
               ret (Some (f0, f1)))))))))"

end
