(* ===== verification/Proc_Life.thy ===== *)
theory Proc_Life
  imports File
begin

text \<open>
  The life of a process (\<^verbatim>\<open>proc.c\<close>): \<^verbatim>\<open>userinit\<close>, \<^verbatim>\<open>fork\<close>, \<^verbatim>\<open>exit\<close>, \<^verbatim>\<open>wait\<close> and \<^verbatim>\<open>forkret\<close>.  The image of the first
  program, \<^verbatim>\<open>_binary_initcode_start\<close> and its size, is a parameter of \<^verbatim>\<open>userinit\<close>.
\<close>

section \<open>State\<close>

text \<open>\<open>forkret_first\<close> is the static variable \<^verbatim>\<open>first\<close> of \<^verbatim>\<open>forkret\<close>.\<close>

record life_state = file_state +
  forkret_first :: bool

text \<open>Fields of a trap frame in kernel memory; the segment registers have sixteen bits.\<close>

definition store16 :: "mem \<Rightarrow> u32 \<Rightarrow> u16 \<Rightarrow> mem" where
  "store16 h a v = h(a := ucast v, a + 1 := ucast (drop_bit 8 v))"

definition load16 :: "mem \<Rightarrow> u32 \<Rightarrow> u16" where
  "load16 h a = ucast (h a) OR push_bit 8 (ucast (h (a + 1)))"

definition set_tf :: "u32 \<Rightarrow> trapframe \<Rightarrow> u32 \<Rightarrow> ('z kbase_scheme, unit) kM" where
  "set_tf tf r v = store_mem (tf + tf_off r) v"

definition set_tf16 :: "u32 \<Rightarrow> trapframe \<Rightarrow> u16 \<Rightarrow> ('z kbase_scheme, unit) kM" where
  "set_tf16 tf r v = upd_mem (\<lambda>h. store16 h (tf + tf_off r) v)"

definition get_tf :: "u32 \<Rightarrow> trapframe \<Rightarrow> ('z kbase_scheme, u32) kM" where
  "get_tf tf r = load_mem (tf + tf_off r)"

abbreviation "FL_IF \<equiv> 0x200 :: u32"

section \<open>The code\<close>

definition cstring :: "u8 list \<Rightarrow> string" where
  "cstring bs = map (\<lambda>b. char_of (unat b)) bs"

text \<open>\<^verbatim>\<open>safestrcpy\<close> into the sixteen bytes of \<^verbatim>\<open>name\<close>.\<close>

definition proc_name :: "string \<Rightarrow> string" where
  "proc_name str = take 15 str"

definition userinit :: "u32 \<Rightarrow> u32 \<Rightarrow> ('z life_state_scheme, unit) kM" where
  "userinit initcode_start initcode_size =
     bnd allocproc (\<lambda>p.
     seq (upd (\<lambda>s. s\<lparr>initproc := p\<rparr>)) (
     deref p (\<lambda>i.
     bnd setupkvm (\<lambda>pgdir.
     seq (upd_proc i (\<lambda>x. x\<lparr>p_pgdir := pgdir\<rparr>)) (
     if pgdir = 0 then panic ''userinit: out of memory?''
     else
       seq (inituvm pgdir initcode_start initcode_size) (
       seq (upd_proc i (\<lambda>x. x\<lparr>p_sz := PGSIZE\<rparr>)) (
       bnd (get_proc i) (\<lambda>pr.
       let tf = p_tf pr; ucode = of_nat SEG_UCODE * 8 + 3; udata = of_nat SEG_UDATA * 8 + 3 in
       seq (stmts [
         upd_mem (\<lambda>h. memset h tf 0 sizeof_trapframe),
         set_tf16 tf Tcs ucode,
         set_tf16 tf Tds udata,
         set_tf16 tf Tes udata,
         set_tf16 tf Tss udata,
         set_tf tf Teflags FL_IF,
         set_tf tf Tesp PGSIZE,
         set_tf tf Teip 0,
         upd_proc i (\<lambda>x. x\<lparr>p_name := proc_name ''initcode''\<rparr>)]) (
       bnd (namei [slash]) (\<lambda>ip.
       seq (upd_proc i (\<lambda>x. x\<lparr>p_cwd := ip\<rparr>)) (
       seq (acquire PtableLock) (
       seq (upd_proc i (\<lambda>x. x\<lparr>p_state := RUNNABLE\<rparr>)) (
       release PtableLock)))))))))))))"

definition fork_files :: "nat \<Rightarrow> nat \<Rightarrow> ('z file_state_scheme, unit) kM" where
  "fork_files cur np =
     forM [0..<NOFILE] (\<lambda>fd.
       bnd (get_proc cur) (\<lambda>c.
       case p_ofile c ! fd of
         None \<Rightarrow> ret ()
       | Some f \<Rightarrow>
           bnd (filedup f) (\<lambda>f'.
           upd_proc np (\<lambda>x. x\<lparr>p_ofile := (p_ofile x)[fd := Some f']\<rparr>))))"

definition fork :: "('z file_state_scheme, int) kM" where
  "fork =
     bnd myproc (\<lambda>cp. deref cp (\<lambda>cur.
     bnd allocproc (\<lambda>r.
     case r of
       None \<Rightarrow> ret (- 1)
     | Some np \<Rightarrow>
         bnd (get_proc cur) (\<lambda>c.
         bnd (copyuvm (p_pgdir c) (p_sz c)) (\<lambda>pgdir.
         seq (upd_proc np (\<lambda>x. x\<lparr>p_pgdir := pgdir\<rparr>)) (
         if pgdir = 0 then
           bnd (get_proc np) (\<lambda>x.
           seq (kfree (p_kstack x)) (
           seq (upd_proc np (\<lambda>x. x\<lparr>p_kstack := 0\<rparr>)) (
           seq (upd_proc np (\<lambda>x. x\<lparr>p_state := UNUSED\<rparr>)) (
           ret (- 1)))))
         else
           seq (upd_proc np (\<lambda>x. x\<lparr>p_sz := p_sz c\<rparr>)) (
           seq (upd_proc np (\<lambda>x. x\<lparr>p_parent := Some cur\<rparr>)) (
           bnd (get_proc np) (\<lambda>x.
           seq (upd_mem (\<lambda>h. memmove h (p_tf x) (p_tf c) sizeof_trapframe)) (
           seq (set_tf (p_tf x) Teax 0) (
           seq (fork_files cur np) (
           bnd (get_proc cur) (\<lambda>c.
           deref (p_cwd c) (\<lambda>cwd.
           bnd (idup cwd) (\<lambda>ip.
           seq (upd_proc np (\<lambda>x. x\<lparr>p_cwd := Some ip\<rparr>)) (
           seq (upd_proc np (\<lambda>x. x\<lparr>p_name := proc_name (p_name c)\<rparr>)) (
           bnd (get_proc np) (\<lambda>x.
           seq (acquire PtableLock) (
           seq (upd_proc np (\<lambda>x. x\<lparr>p_state := RUNNABLE\<rparr>)) (
           seq (release PtableLock) (
           ret (p_pid x))))))))))))))))))))))"

definition close_all :: "nat \<Rightarrow> ('z file_state_scheme, unit) kM" where
  "close_all cur =
     forM [0..<NOFILE] (\<lambda>fd.
       bnd (get_proc cur) (\<lambda>c.
       case p_ofile c ! fd of
         None \<Rightarrow> ret ()
       | Some f \<Rightarrow>
           seq (fileclose f)
               (upd_proc cur (\<lambda>x. x\<lparr>p_ofile := (p_ofile x)[fd := None]\<rparr>))))"

text \<open>\<^verbatim>\<open>wakeup1(p)\<close> for a pointer to a process.\<close>

definition wakeup1_proc :: "nat option \<Rightarrow> ('z proc_state_scheme, unit) kM" where
  "wakeup1_proc p = wakeup1 (map_option ChProc p)"

definition reparent :: "nat \<Rightarrow> ('z proc_state_scheme, unit) kM" where
  "reparent cur =
     forM [0..<NPROC] (\<lambda>i.
       bnd (get_proc i) (\<lambda>p.
       whenM (p_parent p = Some cur) (
         bnd (get initproc) (\<lambda>ini.
         seq (upd_proc i (\<lambda>x. x\<lparr>p_parent := ini\<rparr>)) (
         whenM (p_state p = ZOMBIE) (wakeup1_proc ini))))))"

definition exit :: "('z file_state_scheme, 'a) kM" where
  "exit =
     bnd myproc (\<lambda>cp.
     bnd (get initproc) (\<lambda>ini.
     if cp = ini then panic ''init exiting''
     else deref cp (\<lambda>cur.
       seq (close_all cur) (
       seq begin_op (
       bnd (get_proc cur) (\<lambda>c.
       seq (deref (p_cwd c) iput) (
       seq end_op (
       seq (upd_proc cur (\<lambda>x. x\<lparr>p_cwd := None\<rparr>)) (
       seq (acquire PtableLock) (
       bnd (get_proc cur) (\<lambda>c.
       seq (wakeup1_proc (p_parent c)) (
       seq (reparent cur) (
       seq (upd_proc cur (\<lambda>x. x\<lparr>p_state := ZOMBIE\<rparr>)) (
       seq sched (
       panic ''zombie exit''))))))))))))))) "

text \<open>One scan of the table by \<^verbatim>\<open>wait\<close>: an exited child is reaped; the result is its pid, or whether there is a
  child at all.\<close>

definition reap :: "nat \<Rightarrow> ('z proc_state_scheme, unit) kM" where
  "reap i =
     bnd (get_proc i) (\<lambda>p.
     seq (kfree (p_kstack p)) (
     seq (upd_proc i (\<lambda>x. x\<lparr>p_kstack := 0\<rparr>)) (
     seq (freevm (p_pgdir p)) (
     upd_proc i (\<lambda>x. x\<lparr>p_pid := 0, p_parent := None, p_name := [], p_killed := False, p_state := UNUSED\<rparr>)))))"

primrec wait_scan :: "nat \<Rightarrow> nat list \<Rightarrow> bool \<Rightarrow> ('z proc_state_scheme, int + bool) kM" where
  "wait_scan cur [] havekids = ret (Inr havekids)"
| "wait_scan cur (i # is) havekids =
     bnd (get_proc i) (\<lambda>p.
     if p_parent p \<noteq> Some cur then wait_scan cur is havekids
     else if p_state p = ZOMBIE then
       seq (reap i) (
       seq (release PtableLock) (
       ret (Inl (p_pid p))))
     else wait_scan cur is True)"

definition wait :: "('z proc_state_scheme, int) kM" where
  "wait =
     bnd myproc (\<lambda>cp. deref cp (\<lambda>cur.
     seq (acquire PtableLock) (
     forever (
       bnd (wait_scan cur [0..<NPROC] False) (\<lambda>r.
       case r of
         Inl pid \<Rightarrow> ret (Some pid)
       | Inr havekids \<Rightarrow>
           bnd (get_proc cur) (\<lambda>c.
           if \<not> havekids \<or> p_killed c then seq (release PtableLock) (ret (Some (- 1)))
           else seq (sleep (Some (ChProc cur)) (Some PtableLock)) (ret None)))))))"

definition forkret :: "('z life_state_scheme, unit) kM" where
  "forkret =
     seq (release PtableLock) (
     bnd (get forkret_first) (\<lambda>fst_time.
     whenM fst_time (
       seq (upd (\<lambda>s. s\<lparr>forkret_first := False\<rparr>)) (
       seq (iinit ROOTDEV) (
       initlog (uint ROOTDEV))))))"

end
