(* ===== verification/Exec.thy ===== *)
theory Exec
  imports Proc_Life
begin

text \<open>
  Loading programs (\<^verbatim>\<open>exec.c\<close>, \<^verbatim>\<open>loaduvm\<close> of \<^verbatim>\<open>vm.c\<close>) and access to user memory through the page table the
  processor uses.  Path names and arguments are the strings at the user's pointers.
\<close>

section \<open>State\<close>

text \<open>\<^verbatim>\<open>PATH\<close> with its first \<^verbatim>\<open>num_of_pathes\<close> entries, each the string in the row.\<close>

record exec_state = life_state +
  PATH :: "u8 list list"

section \<open>User memory\<close>

text \<open>The kernel address of a user address, through the current page directory; an access without a
  translation is a page fault in kernel mode.  The processor's write protection is on.\<close>

definition user_addr :: "bool \<Rightarrow> u32 \<Rightarrow> 'z kbase_scheme \<Rightarrow> u32 option" where
  "user_addr wr va s =
     (let e = pte_of (mem s) (P2V (cr3 (mach s))) va in
      if e AND PTE_P = 0 \<or> wr \<and> e AND PTE_W = 0 then None
      else Some (P2V (PTE_ADDR e) + (va AND 0xFFF)))"

definition uload :: "u32 \<Rightarrow> ('z kbase_scheme, u8) kM" where
  "uload va =
     bnd (get (user_addr False va)) (\<lambda>r.
     case r of None \<Rightarrow> panic ''trap'' | Some a \<Rightarrow> get (\<lambda>s. mem s a))"

primrec uload_bytes :: "u32 \<Rightarrow> nat \<Rightarrow> ('z kbase_scheme, u8 list) kM" where
  "uload_bytes va 0 = ret []"
| "uload_bytes va (Suc n) =
     bnd (uload va) (\<lambda>c. bnd (uload_bytes (va + 1) n) (\<lambda>cs. ret (c # cs)))"

definition uload32 :: "u32 \<Rightarrow> ('z kbase_scheme, u32) kM" where
  "uload32 va = bnd (uload_bytes va 4) (\<lambda>bs. ret (get32 bs 0))"

primrec ustore_bytes :: "u32 \<Rightarrow> u8 list \<Rightarrow> ('z kbase_scheme, unit) kM" where
  "ustore_bytes va [] = ret ()"
| "ustore_bytes va (c # cs) =
     bnd (get (user_addr True va)) (\<lambda>r.
     case r of None \<Rightarrow> panic ''trap''
     | Some a \<Rightarrow> seq (upd_mem (\<lambda>h. h(a := c))) (ustore_bytes (va + 1) cs))"

section \<open>Search path\<close>

text \<open>The loop of \<^verbatim>\<open>add_path\<close>: \<open>sub\<close> is the part of \<^verbatim>\<open>sub_path\<close> filled so far; a part is entered when its colon is met.\<close>

primrec path_parts :: "u8 list \<Rightarrow> u8 list \<Rightarrow> u8 list list" where
  "path_parts [] sub = []"
| "path_parts (c # cs) sub =
     (if c = 0x3A then sub # path_parts cs [] else path_parts cs (sub @ [c]))"

definition add_path :: "u8 list \<Rightarrow> ('z exec_state_scheme, unit) kM" where
  "add_path path =
     seq (upd (\<lambda>s. s\<lparr>PATH := PATH s @ path_parts path []\<rparr>)) (
     bnd (get PATH) (\<lambda>ps.
     forM ps (\<lambda>p. call_cprintf (''%s '' @ [CHR 0x0A]) [str_arg (cstring p)])))"

section \<open>Loading a segment\<close>

primrec loaduvm_loop :: "nat \<Rightarrow> u32 \<Rightarrow> u32 \<Rightarrow> nat \<Rightarrow> u32 \<Rightarrow> u32 \<Rightarrow> u32 \<Rightarrow> ('z console_state_scheme, int) kM" where
  "loaduvm_loop 0 pgdir addr ip offset sz i = spin"
| "loaduvm_loop (Suc k) pgdir addr ip offset sz i =
     (if i < sz then
        bnd (walkpgdir pgdir (addr + i) False) (\<lambda>pte.
        if pte = 0 then panic ''loaduvm: address should exist''
        else
          bnd (load_mem pte) (\<lambda>e.
          let pa = PTE_ADDR e; n = (if sz - i < PGSIZE then sz - i else PGSIZE) in
          bnd (readi ip (offset + i) n) (\<lambda>(r, bs).
          seq (upd_mem (\<lambda>h. store_bytes h (P2V pa) bs)) (
          if word_of_int r \<noteq> n then ret (- 1)
          else loaduvm_loop k pgdir addr ip offset sz (i + PGSIZE)))))
      else ret 0)"

text \<open>A segment that \<^verbatim>\<open>allocuvm\<close> has accepted lies below \<^verbatim>\<open>KERNBASE\<close>, so the loop has at most \<open>2 ^ 19\<close> rounds.\<close>

definition loaduvm :: "u32 \<Rightarrow> u32 \<Rightarrow> nat \<Rightarrow> u32 \<Rightarrow> u32 \<Rightarrow> ('z console_state_scheme, int) kM" where
  "loaduvm pgdir addr ip offset sz =
     (if addr mod PGSIZE \<noteq> 0 then panic ''loaduvm: addr must be page aligned''
      else loaduvm_loop (2 ^ 20 + 1) pgdir addr ip offset sz 0)"

section \<open>exec\<close>

text \<open>\<^verbatim>\<open>struct elfhdr\<close> (52 bytes) and \<^verbatim>\<open>struct proghdr\<close> (32 bytes), by the offsets of the fields used.\<close>

record elfhdr =
  e_magic :: u32
  e_entry :: u32
  e_phoff :: u32
  e_phnum :: u16

record proghdr =
  ph_type :: u32
  ph_off :: u32
  ph_vaddr :: u32
  ph_filesz :: u32
  ph_memsz :: u32

definition load_elfhdr :: "u8 list \<Rightarrow> elfhdr" where
  "load_elfhdr d = \<lparr>e_magic = get32 d 0, e_entry = get32 d 24, e_phoff = get32 d 28, e_phnum = get16 d 44\<rparr>"

definition load_proghdr :: "u8 list \<Rightarrow> proghdr" where
  "load_proghdr d = \<lparr>ph_type = get32 d 0, ph_off = get32 d 4, ph_vaddr = get32 d 8, ph_filesz = get32 d 16, ph_memsz = get32 d 20\<rparr>"

abbreviation "ELF_MAGIC \<equiv> 0x464C457F :: u32"
abbreviation "ELF_PROG_LOAD \<equiv> 1 :: u32"

text \<open>The search along \<^verbatim>\<open>PATH\<close> when the path itself does not name a file.\<close>

definition find_program :: "u8 list \<Rightarrow> ('z exec_state_scheme, nat option) kM" where
  "find_program path =
     bnd (namei path) (\<lambda>r.
     case r of
       Some ip \<Rightarrow> ret (Some ip)
     | None \<Rightarrow>
         bnd (get PATH) (\<lambda>ps.
         firstM ps (\<lambda>p.
           seq (call_cprintf (''%s '' @ [CHR 0x0A]) [str_arg (cstring (p @ path))]) (
           namei (p @ path)))))"

text \<open>The loop over the program headers; the result is the size of the image, \<open>None\<close> for \<^verbatim>\<open>goto bad\<close>.\<close>

primrec load_segments :: "nat \<Rightarrow> u32 \<Rightarrow> nat \<Rightarrow> u32 \<Rightarrow> u32 \<Rightarrow> ('z console_state_scheme, u32 option) kM" where
  "load_segments 0 pgdir ip off sz = ret (Some sz)"
| "load_segments (Suc k) pgdir ip off sz =
     bnd (readi ip off 32) (\<lambda>(r, bs).
     if r \<noteq> 32 then ret None
     else
       let ph = load_proghdr bs in
       if ph_type ph \<noteq> ELF_PROG_LOAD then load_segments k pgdir ip (off + 32) sz
       else if ph_memsz ph < ph_filesz ph then ret None
       else if ph_vaddr ph + ph_memsz ph < ph_vaddr ph then ret None
       else
         bnd (allocuvm pgdir sz (ph_vaddr ph + ph_memsz ph)) (\<lambda>sz.
         if sz = 0 then ret None
         else if ph_vaddr ph mod PGSIZE \<noteq> 0 then ret None
         else
           bnd (loaduvm pgdir (ph_vaddr ph) ip (ph_off ph) (ph_filesz ph)) (\<lambda>r.
           if r < 0 then ret None
           else load_segments k pgdir ip (off + 32) sz)))"

text \<open>Push the argument strings; the result is the stack pointer and the addresses of the strings.\<close>

primrec push_args :: "u32 \<Rightarrow> u8 list list \<Rightarrow> nat \<Rightarrow> u32 \<Rightarrow> ('z kmem_state_scheme, (u32 \<times> u32 list) option) kM" where
  "push_args pgdir [] argc sp = ret (Some (sp, []))"
| "push_args pgdir (a # as) argc sp =
     (if argc \<ge> MAXARG then ret None
      else
        let sp = (sp - of_nat (length a + 1)) AND NOT 3 in
        bnd (copyout pgdir sp (a @ [0])) (\<lambda>r.
        if r < 0 then ret None
        else
          bnd (push_args pgdir as (argc + 1) sp) (\<lambda>q.
          ret (map_option (\<lambda>(sp', us). (sp', sp # us)) q))))"

definition user_stack :: "u32 \<Rightarrow> u32 list \<Rightarrow> u32 list" where
  "user_stack sp addrs = [0xFFFFFFFF, of_nat (length addrs), sp - of_nat ((length addrs + 1) * 4)] @ addrs @ [0]"

definition build_stack :: "u32 \<Rightarrow> u32 \<Rightarrow> u8 list list \<Rightarrow> ('z cons_state_scheme, (u32 \<times> u32) option) kM" where
  "build_stack pgdir sz argv =
     (let sz = PGROUNDUP sz in
      bnd (allocuvm pgdir sz (sz + 2 * PGSIZE)) (\<lambda>sz.
      if sz = 0 then ret None
      else
        seq (clearpteu pgdir (sz - 2 * PGSIZE)) (
        bnd (push_args pgdir argv 0 sz) (\<lambda>q.
        case q of None \<Rightarrow> ret None
        | Some (sp, addrs) \<Rightarrow>
            let ustack = user_stack sp addrs; sp = sp - of_nat (length ustack * 4) in
            bnd (copyout pgdir sp (concat (map bytes32 ustack))) (\<lambda>r.
            ret (if r < 0 then None else Some (sz, sp)))))))"

text \<open>The name of the program: the part of the path behind the last slash.\<close>

definition last_part :: "u8 list \<Rightarrow> u8 list" where
  "last_part path = rev (takeWhile (\<lambda>c. c \<noteq> slash) (rev path))"

definition exec_commit :: "nat \<Rightarrow> u8 list \<Rightarrow> u32 \<Rightarrow> u32 \<Rightarrow> u32 \<Rightarrow> u32 \<Rightarrow> ('z proc_state_scheme, int) kM" where
  "exec_commit cur path pgdir sz sp entry =
     seq (upd_proc cur (\<lambda>x. x\<lparr>p_name := proc_name (cstring (last_part path))\<rparr>)) (
     bnd (get_proc cur) (\<lambda>c.
     let oldpgdir = p_pgdir c in
     seq (upd_proc cur (\<lambda>x. x\<lparr>p_pgdir := pgdir, p_sz := sz, p_level := 0, p_ticket := 100000\<rparr>)) (
     seq (set_tf (p_tf c) Teip entry) (
     seq (set_tf (p_tf c) Tesp sp) (
     bnd (get_proc cur) (\<lambda>c.
     seq (switchuvm (Some c)) (
     seq (freevm oldpgdir) (
     ret 0))))))))"

definition bad_open :: "u32 \<Rightarrow> nat \<Rightarrow> ('z fs_state_scheme, int) kM" where
  "bad_open pgdir ip =
     seq (whenM (pgdir \<noteq> 0) (freevm pgdir)) (
     seq (iunlockput ip) (
     seq end_op (
     ret (- 1))))"

definition exec :: "u8 list \<Rightarrow> u8 list list \<Rightarrow> ('z exec_state_scheme, int) kM" where
  "exec path argv =
     bnd myproc (\<lambda>cp.
     seq begin_op (
     bnd (find_program path) (\<lambda>r.
     case r of
       None \<Rightarrow> seq end_op (seq (call_cprintf (''exec: fail'' @ [CHR 0x0A]) []) (ret (- 1)))
     | Some ip \<Rightarrow>
         seq (ilock (Some ip)) (
         bnd (readi ip 0 52) (\<lambda>(r, bs).
         let elf = load_elfhdr bs in
         if r \<noteq> 52 then bad_open 0 ip
         else if e_magic elf \<noteq> ELF_MAGIC then bad_open 0 ip
         else
           bnd setupkvm (\<lambda>pgdir.
           if pgdir = 0 then bad_open 0 ip
           else
             bnd (load_segments (unat (e_phnum elf)) pgdir ip (e_phoff elf) 0) (\<lambda>q.
             case q of
               None \<Rightarrow> bad_open pgdir ip
             | Some sz \<Rightarrow>
                 seq (iunlockput ip) (
                 seq end_op (
                 bnd (build_stack pgdir sz argv) (\<lambda>q.
                 case q of
                   None \<Rightarrow> seq (freevm pgdir) (ret (- 1))
                 | Some (sz, sp) \<Rightarrow>
                     deref cp (\<lambda>cur. exec_commit cur path pgdir sz sp (e_entry elf))))))))))))"

end
