(* ===== verification/Device.thy ===== *)
theory Device
  imports Mem_String
begin

text \<open>
  The real-time clock (\<^verbatim>\<open>cmostime\<close> of \<^verbatim>\<open>lapic.c\<close>) and the keyboard decoder (\<^verbatim>\<open>kbd.c\<close>, \<^verbatim>\<open>kbd.h\<close>).  What the hardware
  answers is a parameter: \<open>clock k r\<close> is the \<open>k\<close>-th reading of the clock when it is of register \<open>r\<close>.
\<close>

section \<open>The real-time clock\<close>

record rtcdate =
  rt_second :: u32
  rt_minute :: u32
  rt_hour :: u32
  rt_day :: u32
  rt_month :: u32
  rt_year :: u32

type_synonym clock = "nat \<Rightarrow> u8 \<Rightarrow> u8"

definition cmos_read :: "clock \<Rightarrow> nat \<Rightarrow> u8 \<Rightarrow> u32" where
  "cmos_read clock k reg = ucast (clock k reg)"

text \<open>Six readings, from the \<open>k\<close>-th on.\<close>

definition fill_rtcdate :: "clock \<Rightarrow> nat \<Rightarrow> rtcdate" where
  "fill_rtcdate clock k = \<lparr>rt_second = cmos_read clock k 0x00, rt_minute = cmos_read clock (k + 1) 0x02,
     rt_hour = cmos_read clock (k + 2) 0x04, rt_day = cmos_read clock (k + 3) 0x07,
     rt_month = cmos_read clock (k + 4) 0x08, rt_year = cmos_read clock (k + 5) 0x09\<rparr>"

text \<open>The loop runs until two successive snapshots agree and no update was in progress between them.\<close>

partial_function (option) cmos_loop :: "clock \<Rightarrow> nat \<Rightarrow> rtcdate option" where
  "cmos_loop clock k =
     (let t1 = fill_rtcdate clock k in
      if cmos_read clock (k + 6) 0x0A AND 0x80 \<noteq> 0 then cmos_loop clock (k + 7)
      else
        let t2 = fill_rtcdate clock (k + 7) in
        if t1 = t2 then Some t1 else cmos_loop clock (k + 13))"

definition CONV :: "u32 \<Rightarrow> u32" where
  "CONV x = drop_bit 4 x * 10 + (x AND 0xF)"

definition from_bcd :: "rtcdate \<Rightarrow> rtcdate" where
  "from_bcd t = \<lparr>rt_second = CONV (rt_second t), rt_minute = CONV (rt_minute t), rt_hour = CONV (rt_hour t),
     rt_day = CONV (rt_day t), rt_month = CONV (rt_month t), rt_year = CONV (rt_year t)\<rparr>"

definition cmostime :: "clock \<Rightarrow> rtcdate option" where
  "cmostime clock =
     (let bcd = (cmos_read clock 0 0x0B AND 4 = 0) in
      map_option (\<lambda>t1. let r = (if bcd then from_bcd t1 else t1) in r\<lparr>rt_year := rt_year r + 2000\<rparr>)
        (cmos_loop clock 1))"

section \<open>The keyboard\<close>

abbreviation "SHIFT \<equiv> 1 :: u32"
abbreviation "CTL \<equiv> 2 :: u32"
abbreviation "ALT \<equiv> 4 :: u32"
abbreviation "CAPSLOCK \<equiv> 8 :: u32"
abbreviation "NUMLOCK \<equiv> 16 :: u32"
abbreviation "SCROLLLOCK \<equiv> 32 :: u32"
abbreviation "E0ESC \<equiv> 64 :: u32"

text \<open>An array of 256 bytes from its first elements and its designated ones.\<close>

definition table :: "nat list \<Rightarrow> (nat \<times> nat) list \<Rightarrow> nat \<Rightarrow> u32" where
  "table xs des i =
     (case map_of des i of Some v \<Rightarrow> of_nat v
      | None \<Rightarrow> if i < length xs then of_nat (xs ! i) else 0)"

definition shiftcode :: "nat \<Rightarrow> u32" where
  "shiftcode = table [] [(0x1D, 2), (0x2A, 1), (0x36, 1), (0x38, 4), (0x9D, 2), (0xB8, 4)]"

definition togglecode :: "nat \<Rightarrow> u32" where
  "togglecode = table [] [(0x3A, 8), (0x45, 16), (0x46, 32)]"

text \<open>The keys behind the escape code, the same in all three maps: the arrows, \<^verbatim>\<open>HOME\<close>, \<^verbatim>\<open>END\<close> and so on.\<close>

definition keypad :: "(nat \<times> nat) list" where
  "keypad = [(0xC8, 0xE2), (0xD0, 0xE3), (0xC9, 0xE6), (0xD1, 0xE7), (0xCB, 0xE4), (0xCD, 0xE5),
     (0x97, 0xE0), (0xCF, 0xE1), (0xD2, 0xE8), (0xD3, 0xE9)]"

definition normalmap :: "nat \<Rightarrow> u32" where
  "normalmap = table
     [0, 0x1B, 0x31, 0x32, 0x33, 0x34, 0x35, 0x36,
      0x37, 0x38, 0x39, 0x30, 0x2D, 0x3D, 0x08, 0x09,
      0x71, 0x77, 0x65, 0x72, 0x74, 0x79, 0x75, 0x69,
      0x6F, 0x70, 0x5B, 0x5D, 0x0A, 0, 0x61, 0x73,
      0x64, 0x66, 0x67, 0x68, 0x6A, 0x6B, 0x6C, 0x3B,
      0x27, 0x60, 0, 0x5C, 0x7A, 0x78, 0x63, 0x76,
      0x62, 0x6E, 0x6D, 0x2C, 0x2E, 0x2F, 0, 0x2A,
      0, 0x20, 0, 0, 0, 0, 0, 0,
      0, 0, 0, 0, 0, 0, 0, 0x37,
      0x38, 0x39, 0x2D, 0x34, 0x35, 0x36, 0x2B, 0x31,
      0x32, 0x33, 0x30, 0x2E, 0, 0, 0, 0]
     ([(0x9C, 0x0A), (0xB5, 0x2F)] @ keypad)"

definition shiftmap :: "nat \<Rightarrow> u32" where
  "shiftmap = table
     [0, 0x1B, 0x21, 0x40, 0x23, 0x24, 0x25, 0x5E,
      0x26, 0x2A, 0x28, 0x29, 0x5F, 0x2B, 0x08, 0x09,
      0x51, 0x57, 0x45, 0x52, 0x54, 0x59, 0x55, 0x49,
      0x4F, 0x50, 0x7B, 0x7D, 0x0A, 0, 0x41, 0x53,
      0x44, 0x46, 0x47, 0x48, 0x4A, 0x4B, 0x4C, 0x3A,
      0x22, 0x7E, 0, 0x7C, 0x5A, 0x58, 0x43, 0x56,
      0x42, 0x4E, 0x4D, 0x3C, 0x3E, 0x3F, 0, 0x2A,
      0, 0x20, 0, 0, 0, 0, 0, 0,
      0, 0, 0, 0, 0, 0, 0, 0x37,
      0x38, 0x39, 0x2D, 0x34, 0x35, 0x36, 0x2B, 0x31,
      0x32, 0x33, 0x30, 0x2E, 0, 0, 0, 0]
     ([(0x9C, 0x0A), (0xB5, 0x2F)] @ keypad)"

text \<open>\<^verbatim>\<open>C('/')\<close> is negative and stored as the byte \<open>0xEF\<close>.\<close>

definition ctlmap :: "nat \<Rightarrow> u32" where
  "ctlmap = table
     [0, 0, 0, 0, 0, 0, 0, 0,
      0, 0, 0, 0, 0, 0, 0, 0,
      0x11, 0x17, 0x05, 0x12, 0x14, 0x19, 0x15, 0x09,
      0x0F, 0x10, 0, 0, 0x0D, 0, 0x01, 0x13,
      0x04, 0x06, 0x07, 0x08, 0x0A, 0x0B, 0x0C, 0,
      0, 0, 0, 0x1C, 0x1A, 0x18, 0x03, 0x16,
      0x02, 0x0E, 0x0D, 0, 0, 0xEF, 0, 0]
     ([(0x9C, 0x0D), (0xB5, 0xEF)] @ keypad)"

definition charcode :: "u32 \<Rightarrow> nat \<Rightarrow> u32" where
  "charcode k = (if k = 0 then normalmap else if k = 1 then shiftmap else ctlmap)"

text \<open>One call of \<^verbatim>\<open>kbdgetc\<close> that finds the byte \<open>data\<close> in the keyboard's buffer: the new \<^verbatim>\<open>shift\<close> state and the result.\<close>

definition kbd_decode :: "u32 \<Rightarrow> u32 \<Rightarrow> u32 \<times> int" where
  "kbd_decode shift data =
     (if data = 0xE0 then (shift OR E0ESC, 0)
      else if data AND 0x80 \<noteq> 0 then
        let data = (if shift AND E0ESC \<noteq> 0 then data else data AND 0x7F)
        in (shift AND NOT (shiftcode (unat data) OR E0ESC), 0)
      else
        let data' = (if shift AND E0ESC \<noteq> 0 then data OR 0x80 else data);
            shift = (if shift AND E0ESC \<noteq> 0 then shift AND NOT E0ESC else shift);
            shift = shift OR shiftcode (unat data');
            shift = shift XOR togglecode (unat data');
            c = charcode (shift AND (CTL OR SHIFT)) (unat data');
            c = (if shift AND CAPSLOCK \<noteq> 0 then
                   (if 0x61 \<le> c \<and> c \<le> 0x7A then c - 0x20
                    else if 0x41 \<le> c \<and> c \<le> 0x5A then c + 0x20 else c)
                 else c)
        in (shift, sint c))"

text \<open>\<^verbatim>\<open>kbdgetc\<close>: without data in the buffer the result is \<open>-1\<close>.\<close>

definition kbdgetc :: "u32 \<Rightarrow> u8 list \<Rightarrow> u32 \<times> u8 list \<times> int" where
  "kbdgetc shift pending =
     (case pending of [] \<Rightarrow> (shift, [], - 1)
      | d # ds \<Rightarrow> (case kbd_decode shift (ucast d) of (sh, c) \<Rightarrow> (sh, ds, c)))"

text \<open>The characters \<^verbatim>\<open>consoleintr(kbdgetc)\<close> is given for the bytes in the buffer.\<close>

primrec kbd_keys :: "u32 \<Rightarrow> u8 list \<Rightarrow> u32 \<times> int list" where
  "kbd_keys shift [] = (shift, [])"
| "kbd_keys shift (d # ds) =
     (case kbd_decode shift (ucast d) of (sh, c) \<Rightarrow>
        (case kbd_keys sh ds of (sh', cs) \<Rightarrow> (sh', c # cs)))"

section \<open>Reading the clock\<close>

text \<open>The conversion the code applies to a snapshot.\<close>

definition rtc_result :: "clock \<Rightarrow> rtcdate \<Rightarrow> rtcdate" where
  "rtc_result clock t =
     (let r = (if cmos_read clock 0 0x0B AND 4 = 0 then from_bcd t else t) in r\<lparr>rt_year := rt_year r + 2000\<rparr>)"

text \<open>The two readings of the date that start at the \<open>j\<close>-th reading agree, and the clock was not being updated between them.\<close>

definition snapshot :: "clock \<Rightarrow> rtcdate \<Rightarrow> nat \<Rightarrow> bool" where
  "snapshot clock t j \<longleftrightarrow>
     fill_rtcdate clock j = t \<and> fill_rtcdate clock (j + 7) = t \<and> cmos_read clock (j + 6) 0x0A AND 0x80 = 0"

lemma cmos_loop_snapshot: "cmos_loop clock k = Some t \<Longrightarrow> \<exists>j \<ge> k. snapshot clock t j"
proof (rule cmos_loop.raw_induct [of "\<lambda>clock k t. \<exists>j \<ge> k. snapshot clock t j"])
  fix S clock k t
  assume IH: "\<And>clock k t. S clock k = Some t \<Longrightarrow> \<exists>j \<ge> k. snapshot clock t j"
    and eq: "(let t1 = fill_rtcdate clock k in
      if cmos_read clock (k + 6) 0x0A AND 0x80 \<noteq> 0 then S clock (k + 7)
      else let t2 = fill_rtcdate clock (k + 7) in if t1 = t2 then Some t1 else S clock (k + 13)) = Some t"
  consider "S clock (k + 7) = Some t" | "S clock (k + 13) = Some t" | "snapshot clock t k"
    using eq by (auto simp: Let_def snapshot_def split: if_splits)
  then show "\<exists>j \<ge> k. snapshot clock t j"
    using IH [of clock "k + 7" t] IH [of clock "k + 13" t] by cases (auto dest: add_leD1)
qed

text \<open>A stretch of 26 readings in which the clock does not change and is not being updated.\<close>

definition quiet :: "clock \<Rightarrow> nat \<Rightarrow> bool" where
  "quiet clock K \<longleftrightarrow> (\<forall>k < 26. clock (K + k) 0x0A AND 0x80 = 0 \<and> (\<forall>r. clock (K + k) r = clock K r))"

lemma quiet_fill: "quiet clock K \<Longrightarrow> K \<le> k \<Longrightarrow> k + 5 < K + 26 \<Longrightarrow> fill_rtcdate clock k = fill_rtcdate clock K"
proof -
  assume q: "quiet clock K" "K \<le> k" "k + 5 < K + 26"
  obtain d where d: "k = K + d" "d + 5 < 26" using q(2,3) by (metis add.assoc le_Suc_ex nat_add_left_cancel_less)
  have c: "clock (K + j) r = clock K r" if "j < 26" for j r
    using q(1) that unfolding quiet_def by blast
  have k: "clock (k + j) r = clock K r" if "j \<le> 5" for j r
    using c [of "d + j" r] that d by (simp add: add.assoc)
  have "clock k r = clock K r" for r using k [of 0] by simp
  with k [of 1] k [of 2] k [of 3] k [of 4] k [of 5] c [of 1] c [of 2] c [of 3] c [of 4] c [of 5]
  show "fill_rtcdate clock k = fill_rtcdate clock K"
    unfolding fill_rtcdate_def cmos_read_def by simp
qed

lemma ucast_and_80: "(x :: u8) AND 0x80 = 0 \<Longrightarrow> (ucast x :: u32) AND 0x80 = 0"
proof -
  assume "x AND 0x80 = 0"
  moreover have "(unsigned (x AND 0x80) :: u32) = unsigned x AND unsigned (0x80 :: u8)" by (rule unsigned_and_eq)
  ultimately show ?thesis by simp
qed

lemma cmos_loop_ends:
  assumes "quiet clock K"
  shows "k < K + 13 \<Longrightarrow> \<exists>t. cmos_loop clock k = Some t"
proof (induction "K + 13 - k" arbitrary: k rule: less_induct)
  case less
  show ?case
  proof (cases "K \<le> k")
    case True
    have f: "fill_rtcdate clock k = fill_rtcdate clock K" "fill_rtcdate clock (k + 7) = fill_rtcdate clock K"
      by (rule quiet_fill [OF assms]; use True less.prems in simp)+
    obtain j where j: "k + 6 = K + j" "j < 26"
      using True less.prems that [of "k + 6 - K"] by linarith
    have "clock (k + 6) 0x0A AND 0x80 = 0" using assms j(2) unfolding quiet_def j(1) by blast
    then have "cmos_read clock (k + 6) 0x0A AND 0x80 = 0"
      unfolding cmos_read_def by (rule ucast_and_80)
    then have "cmos_loop clock k = Some (fill_rtcdate clock K)" using f by (subst cmos_loop.simps) (simp only: Let_def simp_thms if_False if_True)
    then show ?thesis by blast
  next
    case False
    have "\<exists>t. cmos_loop clock (k + 7) = Some t" "\<exists>t. cmos_loop clock (k + 13) = Some t"
      by (rule less.hyps; use False in simp)+
    then have "\<exists>t. (if b then cmos_loop clock (k + 7) else if c then Some t1 else cmos_loop clock (k + 13)) = Some t" for b c t1 by auto
    then show ?thesis by (subst cmos_loop.simps) (simp only: Let_def)
  qed
qed

lemma cmostime_result: "cmostime clock = map_option (rtc_result clock) (cmos_loop clock 1)"
  by (simp add: cmostime_def rtc_result_def [abs_def] Let_def)

text \<open>C21: \<^verbatim>\<open>cmostime\<close> returns as soon as the clock holds still for 26 readings, whenever that is, and the date it
  returns was read twice in a row with the same result, without an update of the clock in between.\<close>

theorem cmostime_returns_snapshot:
  assumes "quiet clock K"
  shows "\<exists>t j. cmostime clock = Some (rtc_result clock t) \<and> 1 \<le> j \<and> snapshot clock t j"
proof -
  obtain t where t: "cmos_loop clock 1 = Some t" using cmos_loop_ends [OF assms, of 1] by auto
  with cmos_loop_snapshot [OF t] show ?thesis by (auto simp: cmostime_result)
qed

text \<open>A clock that is updated while it is read at first and holds still from its tenth reading on.\<close>

definition witness_clock :: clock where
  "witness_clock k r = (if k < 10 then (if r = 0x0A then 0x80 else of_nat k) else if r = 0x0A then 0 else 0x12)"

theorem cmostime_returns_snapshot_witness:
  "\<exists>t j. cmostime witness_clock = Some (rtc_result witness_clock t) \<and> 1 \<le> j \<and> snapshot witness_clock t j"
  by (rule cmostime_returns_snapshot [of witness_clock 10]) (simp add: quiet_def witness_clock_def)

definition to_bcd :: "nat \<Rightarrow> u32" where
  "to_bcd n = of_nat (n div 10 * 16 + n mod 10)"

text \<open>C22: The conversion of a clock register inverts the binary-coded decimal form of the numbers below 100.\<close>

theorem CONV_to_bcd:
  assumes "n < 100"
  shows "CONV (to_bcd n) = of_nat n"
proof -
  let ?m = "n div 10 * 16 + n mod 10"
  have "n div 10 \<le> 9" "n mod 10 \<le> 9" using assms by auto
  then have m: "?m < 160" "?m div 16 = n div 10" "?m mod 16 = n mod 10" by auto
  have "(x :: u32) AND 0xF = x mod 16" for x
    using take_bit_eq_mask [of 4 x] take_bit_eq_mod [of 4 x] by (simp add: mask_eq_exp_minus_1)
  then have "CONV (to_bcd n) = to_bcd n div 16 * 10 + to_bcd n mod 16"
    by (simp add: CONV_def drop_bit_eq_div)
  moreover have "unat (to_bcd n) = ?m"
    using m(1) by (simp only: to_bcd_def unat_of_nat) simp
  ultimately have "unat (CONV (to_bcd n)) = n div 10 * 10 + n mod 10"
    using m assms by (simp add: unat_word_ariths unat_div unat_mod)
  then have "unat (CONV (to_bcd n)) = n" by simp
  then have "of_nat (unat (CONV (to_bcd n))) = (of_nat n :: u32)" by simp
  then show ?thesis by (simp add: of_nat_unat)
qed

theorem CONV_to_bcd_witness: "CONV (to_bcd 59) = 59"
  using CONV_to_bcd [of 59] by simp

section \<open>Decoding keys\<close>

lemma table_bound:
  "list_all (\<lambda>x. x < 256) xs \<Longrightarrow> list_all (\<lambda>(i, x). x < 256) des \<Longrightarrow> table xs des i < 256"
proof -
  assume *: "list_all (\<lambda>x. x < 256) xs" "list_all (\<lambda>(i, x). x < 256) des"
  have nat: "x < 256 \<Longrightarrow> (of_nat x :: u32) < 256" for x
    by (simp add: word_less_nat_alt unat_of_nat)
  have "map_of des i = Some v \<Longrightarrow> v < 256" for v
    using *(2) by (auto simp: list_all_iff dest: map_of_SomeD)
  then show ?thesis using *(1) nat by (auto simp: table_def list_all_length split: option.split)
qed

lemma keymap_bound: "charcode k i < 256"
proof -
  have "normalmap i < 256" unfolding normalmap_def by (rule table_bound) (simp_all add: keypad_def)
  moreover have "shiftmap i < 256" unfolding shiftmap_def by (rule table_bound) (simp_all add: keypad_def)
  moreover have "ctlmap i < 256" unfolding ctlmap_def by (rule table_bound) (simp_all add: keypad_def)
  ultimately show ?thesis by (simp add: charcode_def)
qed

lemma caps_bound:
  assumes "(c :: u32) < 256"
  shows "(if b then (if 0x61 \<le> c \<and> c \<le> 0x7A then c - 0x20 else if 0x41 \<le> c \<and> c \<le> 0x5A then c + 0x20 else c) else c) < 256"
  using assms by (auto simp: word_less_nat_alt word_le_nat_alt unat_word_ariths unat_sub)

text \<open>What the decoder stands for: which modifier keys are down, which locks are on, and whether the last byte was the escape.\<close>

record keyboard =
  k_shift :: bool
  k_ctl :: bool
  k_alt :: bool
  k_caps :: bool
  k_num :: bool
  k_scroll :: bool
  k_esc :: bool

definition kbd_of :: "u32 \<Rightarrow> keyboard" where
  "kbd_of s = \<lparr>k_shift = bit s 0, k_ctl = bit s 1, k_alt = bit s 2, k_caps = bit s 3, k_num = bit s 4, k_scroll = bit s 5, k_esc = bit s 6\<rparr>"

text \<open>The two keys of each modifier; pressing holds it, releasing lets it go, pressing a lock key turns the lock over.\<close>

definition key_press :: "nat \<Rightarrow> keyboard \<Rightarrow> keyboard" where
  "key_press key k = k\<lparr>k_shift := k_shift k \<or> key \<in> {0x2A, 0x36}, k_ctl := k_ctl k \<or> key \<in> {0x1D, 0x9D}, k_alt := k_alt k \<or> key \<in> {0x38, 0xB8},
     k_caps := (k_caps k \<noteq> (key = 0x3A)), k_num := (k_num k \<noteq> (key = 0x45)), k_scroll := (k_scroll k \<noteq> (key = 0x46)), k_esc := False\<rparr>"

definition key_release :: "nat \<Rightarrow> keyboard \<Rightarrow> keyboard" where
  "key_release key k = k\<lparr>k_shift := k_shift k \<and> key \<notin> {0x2A, 0x36}, k_ctl := k_ctl k \<and> key \<notin> {0x1D, 0x9D}, k_alt := k_alt k \<and> key \<notin> {0x38, 0xB8},
     k_esc := False\<rparr>"

definition key_char :: "nat \<Rightarrow> keyboard \<Rightarrow> nat" where
  "key_char key k =
     (let c = unat ((if k_ctl k then ctlmap else if k_shift k then shiftmap else normalmap) key) in
      if k_caps k \<and> c \<in> {97..122} then c - 32 else if k_caps k \<and> c \<in> {65..90} then c + 32 else c)"

text \<open>The codes of released keys are those of the keys plus 128; the keys sent after an escape are numbered from 128 on.\<close>

definition kbd_spec :: "nat \<Rightarrow> keyboard \<Rightarrow> keyboard \<times> nat" where
  "kbd_spec b k =
     (if b = 0xE0 then (k\<lparr>k_esc := True\<rparr>, 0)
      else let key = b mod 128 + (if k_esc k then 128 else 0) in
        if 128 \<le> b then (key_release key k, 0)
        else (key_press key k, key_char key (key_press key k)))"

lemma bit_power_u32: "bit (2 ^ k :: u32) n \<longleftrightarrow> n = k \<and> k < 32"
  by (auto simp: bit_exp_iff)

lemma bit_modifiers:
  "bit SHIFT n \<longleftrightarrow> n = 0" "bit CTL n \<longleftrightarrow> n = 1" "bit ALT n \<longleftrightarrow> n = 2" "bit CAPSLOCK n \<longleftrightarrow> n = 3"
  "bit NUMLOCK n \<longleftrightarrow> n = 4" "bit SCROLLLOCK n \<longleftrightarrow> n = 5" "bit E0ESC n \<longleftrightarrow> n = 6"
  using bit_power_u32 [of 0 n] bit_power_u32 [of 1 n] bit_power_u32 [of 2 n] bit_power_u32 [of 3 n] bit_power_u32 [of 4 n]
    bit_power_u32 [of 5 n] bit_power_u32 [of 6 n] by simp_all

lemma and_flags: "(s :: u32) AND E0ESC \<noteq> 0 \<longleftrightarrow> bit s 6" "s AND CAPSLOCK \<noteq> 0 \<longleftrightarrow> bit s 3"
  using and_exp_eq_0_iff_not_bit [of s 6] and_exp_eq_0_iff_not_bit [of s 3] by simp_all

lemma code_values:
  "shiftcode i = (if i = 0x1D \<or> i = 0x9D then CTL else if i = 0x2A \<or> i = 0x36 then SHIFT else if i = 0x38 \<or> i = 0xB8 then ALT else 0)"
  "togglecode i = (if i = 0x3A then CAPSLOCK else if i = 0x45 then NUMLOCK else if i = 0x46 then SCROLLLOCK else 0)"
  by (simp_all add: shiftcode_def togglecode_def table_def)

lemma bit_codes:
  "bit (shiftcode i) n \<longleftrightarrow> n = 0 \<and> i \<in> {0x2A, 0x36} \<or> n = 1 \<and> i \<in> {0x1D, 0x9D} \<or> n = 2 \<and> i \<in> {0x38, 0xB8}"
  "bit (togglecode i) n \<longleftrightarrow> n = 3 \<and> i = 0x3A \<or> n = 4 \<and> i = 0x45 \<or> n = 5 \<and> i = 0x46"
  unfolding code_values if_distrib [of "\<lambda>x. bit x n"] bit_modifiers by auto

text \<open>The scan codes as numbers.\<close>

lemma scan_codes:
  fixes d :: u8
  shows "unat (ucast d :: u32) = unat d" "(ucast d :: u32) = 0xE0 \<longleftrightarrow> unat d = 0xE0"
    "(ucast d :: u32) AND 0x80 \<noteq> 0 \<longleftrightarrow> 128 \<le> unat d" "unat (ucast d AND 0x7F :: u32) = unat d mod 128"
    "unat d < 128 \<Longrightarrow> unat (ucast d OR 0x80 :: u32) = unat d + 128"
proof -
  have lt: "unat d < 256" using unsigned_less [of d, where 'a = nat] by simp
  show u: "unat (ucast d :: u32) = unat d" by (simp add: unsigned_ucast_eq take_bit_nat_eq_self lt less_trans [OF lt])
  then show "(ucast d :: u32) = 0xE0 \<longleftrightarrow> unat d = 0xE0" by (simp add: word_unat_eq_iff)
  have "odd (m div 128) \<longleftrightarrow> 128 \<le> m" if "m < 256" for m :: nat using that by presburger
  then have "bit (unat d) 7 \<longleftrightarrow> 128 \<le> unat d" using lt by (simp add: bit_iff_odd)
  then have b: "bit (ucast d :: u32) 7 \<longleftrightarrow> 128 \<le> unat d"
    by (simp add: bit_unsigned_iff)
  then show "(ucast d :: u32) AND 0x80 \<noteq> 0 \<longleftrightarrow> 128 \<le> unat d"
    using and_exp_eq_0_iff_not_bit [of "ucast d :: u32" 7] by simp
  have "(ucast d AND 0x7F :: u32) = take_bit 7 (ucast d)" by (simp add: take_bit_eq_mask mask_eq_exp_minus_1)
  then show "unat (ucast d AND 0x7F :: u32) = unat d mod 128"
    using u by (simp add: take_bit_eq_mod unat_mod)
  assume d: "unat d < 128"
  have "(ucast d AND 0x80 :: u32) = 0" using b d and_exp_eq_0_iff_not_bit [of "ucast d :: u32" 7] by simp
  then have "(ucast d OR 0x80 :: u32) = ucast d + 0x80" by (simp add: disjunctive_add_eq_or)
  then show "unat (ucast d OR 0x80 :: u32) = unat d + 128" using u d by (simp add: unat_word_ariths)
qed

lemma kbd_of_simps:
  "kbd_of (s OR E0ESC) = (kbd_of s)\<lparr>k_esc := True\<rparr>"
  "kbd_of (s AND NOT (shiftcode i OR E0ESC)) = key_release i (kbd_of s)"
  "kbd_of (((if s AND E0ESC \<noteq> 0 then s AND NOT E0ESC else s) OR shiftcode i) XOR togglecode i) = key_press i (kbd_of s)"
  unfolding kbd_of_def key_press_def key_release_def and_flags
  by (auto simp: bit_or_iff bit_and_iff bit_xor_iff bit_not_iff bit_codes)

lemma charcode_layout:
  "charcode (s AND (CTL OR SHIFT)) = (if bit s 1 then ctlmap else if bit s 0 then shiftmap else normalmap)"
proof -
  have "s AND (CTL OR SHIFT) = (if bit s 1 then CTL else 0) OR (if bit s 0 then SHIFT else 0)"
    by (rule bit_eqI) (auto simp only: bit_and_iff bit_or_iff bit_modifiers bit_0_eq bot_fun_def bot_bool_def split: if_splits)
  then show ?thesis by (simp add: charcode_def)
qed

lemma caps_char:
  assumes "(c :: u32) < 256"
  shows "sint (if b then (if 0x61 \<le> c \<and> c \<le> 0x7A then c - 0x20 else if 0x41 \<le> c \<and> c \<le> 0x5A then c + 0x20 else c) else c) =
    int (if b \<and> unat c \<in> {97..122} then unat c - 32 else if b \<and> unat c \<in> {65..90} then unat c + 32 else unat c)"
proof -
  have c: "unat c < 256" using assms by (simp add: word_less_nat_alt)
  have "unat (c - 0x20) = unat c - 32" if "0x61 \<le> c" using that by (simp add: unat_sub word_le_nat_alt)
  moreover have "unat (c + 0x20) = unat c + 32" using c by (simp add: unat_word_ariths)
  ultimately have "unat (if b then (if 0x61 \<le> c \<and> c \<le> 0x7A then c - 0x20 else if 0x41 \<le> c \<and> c \<le> 0x5A then c + 0x20 else c) else c) =
    (if b \<and> unat c \<in> {97..122} then unat c - 32 else if b \<and> unat c \<in> {65..90} then unat c + 32 else unat c)" (is "unat ?l = ?r")
    by (auto simp: word_le_nat_alt)
  moreover have "unat ?l < 256" using caps_bound [OF assms, of b] by (simp only: word_less_nat_alt) simp
  ultimately show ?thesis using sint_small [of ?l] by simp
qed

text \<open>The three kinds of bytes.\<close>

definition scan_key :: "u32 \<Rightarrow> u8 \<Rightarrow> nat" where
  "scan_key shift d = unat d mod 128 + (if shift AND E0ESC \<noteq> 0 then 128 else 0)"

lemma kbd_decode_escape: "unat d = 0xE0 \<Longrightarrow> kbd_decode shift (ucast (d :: u8)) = (shift OR E0ESC, 0)"
  using scan_codes(2) [of d] by (simp only: kbd_decode_def simp_thms if_True)

lemma kbd_decode_release:
  assumes "unat d \<noteq> 0xE0" "128 \<le> unat d"
  shows "kbd_decode shift (ucast (d :: u8)) = (shift AND NOT (shiftcode (scan_key shift d) OR E0ESC), 0)"
proof -
  have key: "unat (if shift AND E0ESC \<noteq> 0 then ucast d else ucast d AND 0x7F :: u32) = scan_key shift d"
    using assms(2) unsigned_less [of d, where ?'a = nat] scan_codes(1,4) [of d] by (simp add: scan_key_def le_mod_geq split: if_split)
  show ?thesis using assms scan_codes(2,3) [of d] by (simp only: kbd_decode_def Let_def key simp_thms if_True if_False)
qed

lemma kbd_decode_press:
  fixes d :: u8 and shift
  assumes "unat d < 128"
  defines "sh \<equiv> ((if shift AND E0ESC \<noteq> 0 then shift AND NOT E0ESC else shift) OR shiftcode (scan_key shift d)) XOR togglecode (scan_key shift d)"
  shows "kbd_decode shift (ucast d) = (sh, int (key_char (scan_key shift d) (kbd_of sh)))"
proof -
  let ?c = "charcode (sh AND (CTL OR SHIFT)) (scan_key shift d)"
  have key: "unat (if shift AND E0ESC \<noteq> 0 then ucast d OR 0x80 else ucast d :: u32) = scan_key shift d"
    using assms(1) scan_codes(1,5) [of d] by (simp add: scan_key_def split: if_split)
  have d: "(ucast d :: u32) \<noteq> 0xE0" "\<not> (ucast d :: u32) AND 0x80 \<noteq> 0" using assms(1) scan_codes(2,3) [of d] by simp_all
  have k: "k_caps (kbd_of sh) \<longleftrightarrow> sh AND CAPSLOCK \<noteq> 0" "k_ctl (kbd_of sh) = bit sh 1" "k_shift (kbd_of sh) = bit sh 0"
    unfolding and_flags by (simp_all add: kbd_of_def)
  have "kbd_decode shift (ucast d) = (sh, sint (if sh AND CAPSLOCK \<noteq> 0 then
      (if 0x61 \<le> ?c \<and> ?c \<le> 0x7A then ?c - 0x20 else if 0x41 \<le> ?c \<and> ?c \<le> 0x5A then ?c + 0x20 else ?c) else ?c))"
    using d by (simp only: kbd_decode_def Let_def key simp_thms if_False sh_def)
  also have "\<dots> = (sh, int (key_char (scan_key shift d) (kbd_of sh)))"
    by (subst caps_char [OF keymap_bound]) (simp only: key_char_def Let_def k charcode_layout)
  finally show ?thesis .
qed

text \<open>C23: The decoder of the keyboard implements the model of a keyboard with its modifiers: for every byte, the new \<^verbatim>\<open>shift\<close> word stands for
  the state the model goes to (a modifier held while one of its keys is down, a lock turned over when its key is pressed, the escape good for one byte), and the result is
  the character of the key pressed, in the layout the modifiers select and with the case of letters turned over under caps lock, or 0 for a
  release and an escape.\<close>

theorem kbd_decode_refines:
  "map_prod kbd_of nat (kbd_decode shift (ucast (d :: u8))) = kbd_spec (unat d) (kbd_of shift) \<and> 0 \<le> snd (kbd_decode shift (ucast d))"
proof -
  have "k_esc (kbd_of shift) \<longleftrightarrow> shift AND E0ESC \<noteq> 0" unfolding and_flags by (simp add: kbd_of_def)
  then have key: "unat d mod 128 + (if k_esc (kbd_of shift) then 128 else 0) = scan_key shift d" by (simp add: scan_key_def)
  consider "unat d = 0xE0" | "unat d \<noteq> 0xE0" "128 \<le> unat d" | "unat d < 128" by linarith
  then show ?thesis
  proof cases
    case 1
    then show ?thesis by (simp add: kbd_decode_escape kbd_spec_def kbd_of_simps(1))
  next
    case 2
    then show ?thesis unfolding kbd_decode_release [OF 2] kbd_spec_def Let_def key map_prod_simp kbd_of_simps(2) by simp
  next
    case 3
    then show ?thesis unfolding kbd_decode_press [OF 3] kbd_spec_def Let_def key by (simp add: kbd_of_simps(3))
  qed
qed

end
