(* ===== verification/Syscall.thy ===== *)
theory Syscall
  imports Exec Device
begin

text \<open>
  System calls: argument fetching (\<^verbatim>\<open>syscall.c\<close>), the calls on files (\<^verbatim>\<open>sysfile.c\<close>) and on processes
  (\<^verbatim>\<open>sysproc.c\<close>), and the dispatcher.

  The parameters \<open>rnd\<close>, \<open>rndf\<close> are the floating-point roundings of the process listing, \<open>clock\<close> the readings of the
  real-time clock, and \<open>fuel\<close> bounds the rounds of the search in \<^verbatim>\<open>sys_get_children\<close>.
\<close>

section \<open>Arguments\<close>

text \<open>\<^verbatim>\<open>struct proc *curproc = myproc()\<close>\<close>

definition curproc :: "('z proc_state_scheme, nat) kM" where
  "curproc = bnd myproc (\<lambda>p. deref p (\<lambda>i. ret i))"

definition fetchint :: "u32 \<Rightarrow> ('z proc_state_scheme, int option) kM" where
  "fetchint addr =
     bnd curproc (\<lambda>i.
     bnd (get_proc i) (\<lambda>p.
     if addr \<ge> p_sz p \<or> addr + 4 > p_sz p then ret None
     else bnd (uload32 addr) (\<lambda>w. ret (Some (sint w)))))"

text \<open>The scan of \<^verbatim>\<open>fetchstr\<close>: \<open>n\<close> bytes are left up to the end of the process.\<close>

primrec fetchstr_loop :: "u32 \<Rightarrow> nat \<Rightarrow> ('z kbase_scheme, u8 list option) kM" where
  "fetchstr_loop s 0 = ret None"
| "fetchstr_loop s (Suc n) =
     bnd (uload s) (\<lambda>c.
     if c = 0 then ret (Some [])
     else bnd (fetchstr_loop (s + 1) n) (\<lambda>r. ret (map_option (\<lambda>cs. c # cs) r)))"

definition fetchstr :: "u32 \<Rightarrow> ('z proc_state_scheme, u8 list option) kM" where
  "fetchstr addr =
     bnd curproc (\<lambda>i.
     bnd (get_proc i) (\<lambda>p.
     if addr \<ge> p_sz p then ret None
     else fetchstr_loop addr (unat (p_sz p - addr))))"

definition argint :: "int \<Rightarrow> ('z proc_state_scheme, int option) kM" where
  "argint n =
     bnd curproc (\<lambda>i.
     bnd (get_proc i) (\<lambda>p.
     bnd (get_tf (p_tf p) Tesp) (\<lambda>esp.
     fetchint (esp + 4 + 4 * word_of_int n))))"

definition argptr :: "int \<Rightarrow> int \<Rightarrow> ('z proc_state_scheme, u32 option) kM" where
  "argptr n sz =
     bnd curproc (\<lambda>cur.
     bnd (argint n) (\<lambda>r.
     case r of
       None \<Rightarrow> ret None
     | Some i \<Rightarrow>
         bnd (get_proc cur) (\<lambda>p.
         if sz < 0 \<or> word_of_int i \<ge> p_sz p \<or> word_of_int i + word_of_int sz > p_sz p then ret None
         else ret (Some (word_of_int i)))))"

definition argstr :: "int \<Rightarrow> ('z proc_state_scheme, u8 list option) kM" where
  "argstr n =
     bnd (argint n) (\<lambda>r.
     case r of None \<Rightarrow> ret None | Some addr \<Rightarrow> fetchstr (word_of_int addr))"

section \<open>System calls on files\<close>

definition argfd :: "int \<Rightarrow> ('z proc_state_scheme, (nat \<times> nat) option) kM" where
  "argfd n =
     bnd (argint n) (\<lambda>r.
     case r of
       None \<Rightarrow> ret None
     | Some fd \<Rightarrow>
         if fd < 0 \<or> fd \<ge> int NOFILE then ret None
         else
           bnd curproc (\<lambda>i.
           bnd (get_proc i) (\<lambda>p.
           ret (map_option (\<lambda>f. (nat fd, f)) (p_ofile p ! nat fd)))))"

definition fdalloc :: "nat \<Rightarrow> ('z proc_state_scheme, int) kM" where
  "fdalloc f =
     bnd curproc (\<lambda>i.
     bnd (get_proc i) (\<lambda>p.
     case find_from (\<lambda>x. x = None) (p_ofile p) 0 of
       Some fd \<Rightarrow>
         seq (upd_proc i (\<lambda>p. p\<lparr>p_ofile := (p_ofile p)[fd := Some f]\<rparr>)) (
         ret (int fd))
     | None \<Rightarrow> ret (- 1)))"

definition sys_dup :: "('z file_state_scheme, int) kM" where
  "sys_dup =
     bnd (argfd 0) (\<lambda>r.
     case r of
       None \<Rightarrow> ret (- 1)
     | Some (_, f) \<Rightarrow>
         bnd (fdalloc f) (\<lambda>fd.
         if fd < 0 then ret (- 1)
         else bnd (filedup f) (\<lambda>_. ret fd)))"

definition sys_read :: "('z file_state_scheme, int) kM" where
  "sys_read =
     bnd (argfd 0) (\<lambda>r.
     case r of
       None \<Rightarrow> ret (- 1)
     | Some (_, f) \<Rightarrow>
         bnd (argint 2) (\<lambda>r.
         case r of
           None \<Rightarrow> ret (- 1)
         | Some n \<Rightarrow>
             bnd (argptr 1 n) (\<lambda>r.
             case r of
               None \<Rightarrow> ret (- 1)
             | Some p \<Rightarrow>
                 bnd (fileread f n) (\<lambda>(r, bs).
                 seq (ustore_bytes p bs) (
                 ret r)))))"

definition sys_write :: "('z file_state_scheme, int) kM" where
  "sys_write =
     bnd (argfd 0) (\<lambda>r.
     case r of
       None \<Rightarrow> ret (- 1)
     | Some (_, f) \<Rightarrow>
         bnd (argint 2) (\<lambda>r.
         case r of
           None \<Rightarrow> ret (- 1)
         | Some n \<Rightarrow>
             bnd (argptr 1 n) (\<lambda>r.
             case r of
               None \<Rightarrow> ret (- 1)
             | Some p \<Rightarrow>
                 bnd (uload_bytes p (nat n)) (\<lambda>bs.
                 filewrite f bs n))))"

definition sys_close :: "('z file_state_scheme, int) kM" where
  "sys_close =
     bnd (argfd 0) (\<lambda>r.
     case r of
       None \<Rightarrow> ret (- 1)
     | Some (fd, f) \<Rightarrow>
         bnd curproc (\<lambda>i.
         seq (upd_proc i (\<lambda>p. p\<lparr>p_ofile := (p_ofile p)[fd := None]\<rparr>)) (
         seq (fileclose f) (
         ret 0))))"

text \<open>\<^verbatim>\<open>struct stat\<close> in user memory: the padding behind the two halfwords is not written.\<close>

definition ustore_stat :: "u32 \<Rightarrow> stat \<Rightarrow> ('z kbase_scheme, unit) kM" where
  "ustore_stat p st =
     stmts [
       ustore_bytes (p + 4) (bytes32 (st_dev st)),
       ustore_bytes (p + 8) (bytes32 (st_ino st)),
       ustore_bytes p (bytes16 (st_type st)),
       ustore_bytes (p + 12) (bytes16 (st_nlink st)),
       ustore_bytes (p + 16) (bytes32 (st_size st))]"

definition sys_fstat :: "('z file_state_scheme, int) kM" where
  "sys_fstat =
     bnd (argfd 0) (\<lambda>r.
     case r of
       None \<Rightarrow> ret (- 1)
     | Some (_, f) \<Rightarrow>
         bnd (argptr 1 20) (\<lambda>r.
         case r of
           None \<Rightarrow> ret (- 1)
         | Some p \<Rightarrow>
             bnd (filestat f) (\<lambda>r.
             case r of
               None \<Rightarrow> ret (- 1)
             | Some st \<Rightarrow> seq (ustore_stat p st) (ret 0))))"

definition link_bad :: "nat \<Rightarrow> ('z fs_state_scheme, int) kM" where
  "link_bad ip =
     seq (ilock (Some ip)) (
     seq (upd_inode ip (\<lambda>x. x\<lparr>i_nlink := i_nlink x - 1\<rparr>)) (
     seq (iupdate ip) (
     seq (iunlockput ip) (
     seq end_op (
     ret (- 1))))))"

definition do_link :: "u8 list \<Rightarrow> u8 list \<Rightarrow> ('z console_state_scheme, int) kM" where
  "do_link old new =
     seq begin_op (
     bnd (namei old) (\<lambda>r.
     case r of
       None \<Rightarrow> seq end_op (ret (- 1))
     | Some ip \<Rightarrow>
         seq (ilock (Some ip)) (
         bnd (get_inode ip) (\<lambda>x.
         if i_type x = T_DIR then seq (iunlockput ip) (seq end_op (ret (- 1)))
         else
           seq (upd_inode ip (\<lambda>x. x\<lparr>i_nlink := i_nlink x + 1\<rparr>)) (
           seq (iupdate ip) (
           seq (iunlock (Some ip)) (
           bnd (nameiparent new) (\<lambda>r.
           case r of
             None \<Rightarrow> link_bad ip
           | Some (dp, name) \<Rightarrow>
               seq (ilock (Some dp)) (
               bnd (get_inode dp) (\<lambda>d.
               bnd (get_inode ip) (\<lambda>x.
               bnd (if i_dev d \<noteq> i_dev x then ret (- 1) else dirlink dp name (i_inum x)) (\<lambda>r.
               if r < 0 then seq (iunlockput dp) (link_bad ip)
               else
                 seq (iunlockput dp) (
                 seq (iput ip) (
                 seq end_op (
                 ret 0)))))))))))))))"

definition sys_link :: "('z console_state_scheme, int) kM" where
  "sys_link =
     bnd (argstr 0) (\<lambda>r.
     case r of
       None \<Rightarrow> ret (- 1)
     | Some old \<Rightarrow>
         bnd (argstr 1) (\<lambda>r.
         case r of None \<Rightarrow> ret (- 1) | Some new \<Rightarrow> do_link old new))"

definition isdirempty :: "nat \<Rightarrow> ('z console_state_scheme, bool) kM" where
  "isdirempty dp =
     bnd (get_inode dp) (\<lambda>d.
     bnd (firstM (drop 2 (dir_offs (i_size d))) (\<lambda>off.
            bnd (readi dp off (of_nat DIRENT)) (\<lambda>(r, de).
            if r \<noteq> int DIRENT then panic ''isdirempty: readi''
            else if de_inum de \<noteq> 0 then ret (Some ())
            else ret None))) (\<lambda>r.
     ret (r = None)))"

definition unlink_bad :: "nat \<Rightarrow> ('z fs_state_scheme, int) kM" where
  "unlink_bad dp = seq (iunlockput dp) (seq end_op (ret (- 1)))"

abbreviation "dot \<equiv> 0x2E :: u8"

definition do_unlink :: "u8 list \<Rightarrow> ('z console_state_scheme, int) kM" where
  "do_unlink path =
     seq begin_op (
     bnd (nameiparent path) (\<lambda>r.
     case r of
       None \<Rightarrow> seq end_op (ret (- 1))
     | Some (dp, name) \<Rightarrow>
         seq (ilock (Some dp)) (
         if namecmp name [dot] = 0 \<or> namecmp name [dot, dot] = 0 then unlink_bad dp
         else
           bnd (dirlookup dp name) (\<lambda>r.
           case r of
             None \<Rightarrow> unlink_bad dp
           | Some (ip, off) \<Rightarrow>
               seq (ilock (Some ip)) (
               bnd (get_inode ip) (\<lambda>x.
               if sint (i_nlink x) < 1 then panic ''unlink: nlink < 1''
               else
                 bnd (if i_type x = T_DIR then isdirempty ip else ret True) (\<lambda>empty.
                 if \<not> empty then seq (iunlockput ip) (unlink_bad dp)
                 else
                   bnd (writei dp (replicate DIRENT 0) off (of_nat DIRENT)) (\<lambda>r.
                   if r \<noteq> int DIRENT then panic ''unlink: writei''
                   else
                     bnd (get_inode ip) (\<lambda>x.
                     seq (whenM (i_type x = T_DIR) (
                            seq (upd_inode dp (\<lambda>d. d\<lparr>i_nlink := i_nlink d - 1\<rparr>)) (iupdate dp))) (
                     seq (iunlockput dp) (
                     seq (upd_inode ip (\<lambda>x. x\<lparr>i_nlink := i_nlink x - 1\<rparr>)) (
                     seq (iupdate ip) (
                     seq (iunlockput ip) (
                     seq end_op (
                     ret 0)))))))))))))))"

definition sys_unlink :: "('z console_state_scheme, int) kM" where
  "sys_unlink =
     bnd (argstr 0) (\<lambda>r.
     case r of None \<Rightarrow> ret (- 1) | Some path \<Rightarrow> do_unlink path)"

definition create :: "u8 list \<Rightarrow> u16 \<Rightarrow> u16 \<Rightarrow> u16 \<Rightarrow> ('z console_state_scheme, nat option) kM" where
  "create path typ major minor =
     bnd (nameiparent path) (\<lambda>r.
     case r of
       None \<Rightarrow> ret None
     | Some (dp, name) \<Rightarrow>
         seq (ilock (Some dp)) (
         bnd (dirlookup dp name) (\<lambda>r.
         case r of
           Some (ip, _) \<Rightarrow>
             seq (iunlockput dp) (
             seq (ilock (Some ip)) (
             bnd (get_inode ip) (\<lambda>x.
             if typ = T_FILE \<and> i_type x = T_FILE then ret (Some ip)
             else seq (iunlockput ip) (ret None))))
         | None \<Rightarrow>
             bnd (get_inode dp) (\<lambda>d.
             bnd (ialloc (i_dev d) typ) (\<lambda>ip.
             seq (ilock (Some ip)) (
             seq (upd_inode ip (\<lambda>x. x\<lparr>i_major := major, i_minor := minor, i_nlink := 1\<rparr>)) (
             seq (iupdate ip) (
             bnd (get_inode ip) (\<lambda>x.
             seq (whenM (typ = T_DIR) (
                    seq (upd_inode dp (\<lambda>d. d\<lparr>i_nlink := i_nlink d + 1\<rparr>)) (
                    seq (iupdate dp) (
                    bnd (dirlink ip [dot] (i_inum x)) (\<lambda>r.
                    if r < 0 then panic ''create dots''
                    else
                      bnd (get_inode dp) (\<lambda>d.
                      bnd (dirlink ip [dot, dot] (i_inum d)) (\<lambda>r.
                      whenM (r < 0) (panic ''create dots'')))))))) (
             bnd (dirlink dp name (i_inum x)) (\<lambda>r.
             if r < 0 then panic ''create: dirlink''
             else seq (iunlockput dp) (ret (Some ip)))))))))))))"

abbreviation "O_WRONLY \<equiv> 0x001 :: u32"
abbreviation "O_RDWR \<equiv> 0x002 :: u32"
abbreviation "O_CREATE \<equiv> 0x200 :: u32"

text \<open>The inode \<^verbatim>\<open>sys_open\<close> works on, locked; \<open>None\<close> when the call has already ended its transaction and fails.\<close>

definition open_inode :: "u8 list \<Rightarrow> u32 \<Rightarrow> ('z console_state_scheme, nat option) kM" where
  "open_inode path omode =
     (if omode AND O_CREATE \<noteq> 0 then
        bnd (create path T_FILE 0 0) (\<lambda>r.
        case r of None \<Rightarrow> seq end_op (ret None) | Some ip \<Rightarrow> ret (Some ip))
      else
        bnd (namei path) (\<lambda>r.
        case r of
          None \<Rightarrow> seq end_op (ret None)
        | Some ip \<Rightarrow>
            seq (ilock (Some ip)) (
            bnd (get_inode ip) (\<lambda>x.
            if i_type x = T_DIR \<and> omode \<noteq> 0 then seq (iunlockput ip) (seq end_op (ret None))
            else ret (Some ip)))))"

definition do_open :: "u8 list \<Rightarrow> u32 \<Rightarrow> ('z file_state_scheme, int) kM" where
  "do_open path omode =
     seq begin_op (
     bnd (open_inode path omode) (\<lambda>r.
     case r of
       None \<Rightarrow> ret (- 1)
     | Some ip \<Rightarrow>
         bnd filealloc (\<lambda>r.
         case r of
           None \<Rightarrow> seq (iunlockput ip) (seq end_op (ret (- 1)))
         | Some f \<Rightarrow>
             bnd (fdalloc f) (\<lambda>fd.
             if fd < 0 then seq (fileclose f) (seq (iunlockput ip) (seq end_op (ret (- 1))))
             else
               seq (iunlock (Some ip)) (
               seq end_op (
               seq (upd_file f (\<lambda>x. x\<lparr>f_type := FD_INODE, f_ip := ip, f_off := 0,
                      f_readable := (omode AND O_WRONLY = 0),
                      f_writable := (omode AND O_WRONLY \<noteq> 0 \<or> omode AND O_RDWR \<noteq> 0)\<rparr>)) (
               ret fd)))))))"

definition sys_open :: "('z file_state_scheme, int) kM" where
  "sys_open =
     bnd (argstr 0) (\<lambda>r.
     case r of
       None \<Rightarrow> ret (- 1)
     | Some path \<Rightarrow>
         bnd (argint 1) (\<lambda>r.
         case r of None \<Rightarrow> ret (- 1) | Some omode \<Rightarrow> do_open path (word_of_int omode)))"

text \<open>The common end of \<^verbatim>\<open>sys_mkdir\<close> and \<^verbatim>\<open>sys_mknod\<close>.\<close>

definition created :: "nat option \<Rightarrow> ('z fs_state_scheme, int) kM" where
  "created r =
     (case r of
        None \<Rightarrow> seq end_op (ret (- 1))
      | Some ip \<Rightarrow> seq (iunlockput ip) (seq end_op (ret 0)))"

definition sys_mkdir :: "('z console_state_scheme, int) kM" where
  "sys_mkdir =
     seq begin_op (
     bnd (argstr 0) (\<lambda>r.
     bnd (case r of None \<Rightarrow> ret None | Some path \<Rightarrow> create path T_DIR 0 0) created))"

definition sys_mknod :: "('z console_state_scheme, int) kM" where
  "sys_mknod =
     seq begin_op (
     bnd (argstr 0) (\<lambda>r.
     case r of
       None \<Rightarrow> created None
     | Some path \<Rightarrow>
         bnd (argint 1) (\<lambda>r.
         case r of
           None \<Rightarrow> created None
         | Some major \<Rightarrow>
             bnd (argint 2) (\<lambda>r.
             case r of
               None \<Rightarrow> created None
             | Some minor \<Rightarrow>
                 bnd (create path T_DEV (word_of_int major) (word_of_int minor)) created))))"

definition sys_chdir :: "('z console_state_scheme, int) kM" where
  "sys_chdir =
     bnd curproc (\<lambda>cur.
     seq begin_op (
     bnd (argstr 0) (\<lambda>r.
     bnd (case r of None \<Rightarrow> ret None | Some path \<Rightarrow> namei path) (\<lambda>r.
     case r of
       None \<Rightarrow> seq end_op (ret (- 1))
     | Some ip \<Rightarrow>
         seq (ilock (Some ip)) (
         bnd (get_inode ip) (\<lambda>x.
         if i_type x \<noteq> T_DIR then seq (iunlockput ip) (seq end_op (ret (- 1)))
         else
           seq (iunlock (Some ip)) (
           bnd (get_proc cur) (\<lambda>c.
           seq (deref (p_cwd c) iput) (
           seq end_op (
           seq (upd_proc cur (\<lambda>c. c\<lparr>p_cwd := Some ip\<rparr>)) (
           ret 0)))))))))))"

text \<open>The loop of \<^verbatim>\<open>sys_exec\<close> over at most \<^verbatim>\<open>MAXARG\<close> argument pointers.\<close>

primrec fetch_argv :: "nat \<Rightarrow> u32 \<Rightarrow> ('z proc_state_scheme, u8 list list option) kM" where
  "fetch_argv 0 uargv = ret None"
| "fetch_argv (Suc n) uargv =
     bnd (fetchint uargv) (\<lambda>r.
     case r of
       None \<Rightarrow> ret None
     | Some uarg \<Rightarrow>
         if uarg = 0 then ret (Some [])
         else
           bnd (fetchstr (word_of_int uarg)) (\<lambda>r.
           case r of
             None \<Rightarrow> ret None
           | Some a \<Rightarrow>
               bnd (fetch_argv n (uargv + 4)) (\<lambda>r.
               ret (map_option (\<lambda>as. a # as) r))))"

definition sys_exec :: "('z exec_state_scheme, int) kM" where
  "sys_exec =
     bnd (argstr 0) (\<lambda>r.
     case r of
       None \<Rightarrow> ret (- 1)
     | Some path \<Rightarrow>
         bnd (argint 1) (\<lambda>r.
         case r of
           None \<Rightarrow> ret (- 1)
         | Some uargv \<Rightarrow>
             bnd (fetch_argv MAXARG (word_of_int uargv)) (\<lambda>r.
             case r of None \<Rightarrow> ret (- 1) | Some argv \<Rightarrow> exec path argv)))"

definition sys_pipe :: "('z file_state_scheme, int) kM" where
  "sys_pipe =
     bnd (argptr 0 8) (\<lambda>r.
     case r of
       None \<Rightarrow> ret (- 1)
     | Some p \<Rightarrow>
         bnd pipealloc (\<lambda>r.
         case r of
           None \<Rightarrow> ret (- 1)
         | Some (rfile, wfile) \<Rightarrow>
             bnd (fdalloc rfile) (\<lambda>fd0.
             bnd (if fd0 < 0 then ret (- 1) else fdalloc wfile) (\<lambda>fd1.
             if fd0 < 0 \<or> fd1 < 0 then
               bnd curproc (\<lambda>i.
               seq (whenM (fd0 \<ge> 0) (upd_proc i (\<lambda>c. c\<lparr>p_ofile := (p_ofile c)[nat fd0 := None]\<rparr>))) (
               seq (fileclose rfile) (
               seq (fileclose wfile) (
               ret (- 1)))))
             else
               seq (ustore_bytes p (bytes32 (word_of_int fd0))) (
               seq (ustore_bytes (p + 4) (bytes32 (word_of_int fd1))) (
               ret 0))))))"

end
