(* ===== verification/Trap.thy ===== *)
theory Trap
  imports Syscall
begin

text \<open>
  The system calls on processes (\<^verbatim>\<open>sysproc.c\<close>), the dispatcher (\<^verbatim>\<open>syscall.c\<close>) and the trap handler (\<^verbatim>\<open>trap.c\<close>) with the
  device interrupts.
\<close>

section \<open>State\<close>

text \<open>\<open>kbd_shift\<close> is the static variable of \<^verbatim>\<open>kbdgetc\<close>, \<open>lapic\<close> the registers of the local APIC when there is one, \<open>cr2\<close> the
  address of the last page fault, \<open>idt\<close> the interrupt descriptor table.\<close>

record gatedesc =
  g_off_15_0 :: u16
  g_cs :: u16
  g_args :: "5 word"
  g_rsv1 :: "3 word"
  g_type :: "4 word"
  g_s :: "1 word"
  g_dpl :: "2 word"
  g_p :: "1 word"
  g_off_31_16 :: u16

record trap_state = exec_state +
  kbd_shift :: u32
  lapic :: "(nat \<Rightarrow> u32) option"
  cr2 :: u32
  idt :: "gatedesc list"
  idtr :: bool

section \<open>System calls on processes\<close>

definition sys_fork :: "('z file_state_scheme, int) kM" where
  "sys_fork = fork"

definition sys_exit :: "('z file_state_scheme, int) kM" where
  "sys_exit = seq (exit :: ('z file_state_scheme, unit) kM) (ret 0)"

definition sys_wait :: "('z proc_state_scheme, int) kM" where
  "sys_wait = wait"

definition sys_kill :: "('z proc_state_scheme, int) kM" where
  "sys_kill =
     bnd (argint 0) (\<lambda>r.
     case r of None \<Rightarrow> ret (- 1) | Some pid \<Rightarrow> kill pid)"

definition sys_getpid :: "('z proc_state_scheme, int) kM" where
  "sys_getpid = mypid"

definition sys_sbrk :: "('z proc_state_scheme, int) kM" where
  "sys_sbrk =
     bnd (argint 0) (\<lambda>r.
     case r of
       None \<Rightarrow> ret (- 1)
     | Some n \<Rightarrow>
         bnd curproc (\<lambda>i.
         bnd (get_proc i) (\<lambda>p.
         bnd (growproc n) (\<lambda>r.
         ret (if r < 0 then - 1 else sint (p_sz p))))))"

text \<open>The loop of \<^verbatim>\<open>sys_sleep\<close>; it yields whether the process was killed.\<close>

definition wait_ticks :: "u32 \<Rightarrow> u32 \<Rightarrow> ('z proc_state_scheme, bool) kM" where
  "wait_ticks ticks0 n =
     forever (
       bnd (get ticks) (\<lambda>t.
       if \<not> t - ticks0 < n then ret (Some False)
       else
         bnd mykilled (\<lambda>k.
         if k then ret (Some True)
         else seq (sleep (Some ChTicks) (Some TicksLock)) (ret None))))"

definition sys_sleep :: "('z proc_state_scheme, int) kM" where
  "sys_sleep =
     bnd (argint 0) (\<lambda>r.
     case r of
       None \<Rightarrow> ret (- 1)
     | Some n \<Rightarrow>
         seq (acquire TicksLock) (
         bnd (get ticks) (\<lambda>ticks0.
         bnd (wait_ticks ticks0 (word_of_int n)) (\<lambda>killed.
         seq (release TicksLock) (
         ret (if killed then - 1 else 0))))))"

definition sys_uptime :: "('z proc_state_scheme, int) kM" where
  "sys_uptime =
     seq (acquire TicksLock) (
     bnd (get ticks) (\<lambda>xticks.
     seq (release TicksLock) (
     ret (sint xticks))))"

function count_digits :: "int \<Rightarrow> int" where
  "count_digits number = (if number = 0 then 0 else 1 + count_digits (number sdiv 10))"
  by pat_completeness auto
termination
  by (relation "measure (\<lambda>x. nat (abs x))") (auto simp: signed_divide_int_def abs_mult sgn_mult)

definition sys_count_num_of_digits :: "('z proc_state_scheme, int) kM" where
  "sys_count_num_of_digits =
     bnd curproc (\<lambda>i.
     bnd (get_proc i) (\<lambda>p.
     bnd (get_tf (p_tf p) Tebx) (\<lambda>ebx.
     seq (call_cprintf (''From Kernel: #digits of %d is %d'' @ [CHR 0x0A]) [cint (sint ebx), cint (count_digits (sint ebx))]) (
     ret 0))))"

definition sys_get_parent_id :: "('z proc_state_scheme, int) kM" where
  "sys_get_parent_id =
     bnd curproc (\<lambda>i.
     bnd (get_proc i) (\<lambda>p.
     case p_parent p of
       None \<Rightarrow> bnd (null_read 16) (\<lambda>w. ret (sint w))
     | Some j \<Rightarrow> bnd (get_proc j) (\<lambda>q. ret (p_pid q))))"

primrec pow2_loop :: "nat \<Rightarrow> int \<Rightarrow> int \<Rightarrow> int" where
  "pow2_loop 0 p a = p"
| "pow2_loop (Suc k) p a = pow2_loop k (wrap32 (p * a)) a"

definition pow2 :: "int \<Rightarrow> int \<Rightarrow> int" where
  "pow2 a n = (if n = 0 then 1 else pow2_loop (nat (n - 1)) a a)"

text \<open>The inner loop of \<^verbatim>\<open>sys_get_children\<close> over the digits of the number \<^verbatim>\<open>get_children_of\<close> returns.\<close>

function add_children :: "int \<Rightarrow> int \<times> int \<times> int \<Rightarrow> int \<times> int \<times> int" where
  "add_children temp_children acc =
     (if temp_children > 0 then
        (case acc of (grandchildren, grand_counter, exploring_queue) \<Rightarrow>
          let new_child_id = temp_children smod 10 in
          add_children (temp_children sdiv 10)
            (wrap32 (grandchildren + wrap32 (new_child_id * pow2 10 grand_counter)), grand_counter + 1,
             wrap32 (wrap32 (exploring_queue * 10) + new_child_id)))
      else acc)"
  by pat_completeness auto
termination
  by (relation "measure (\<lambda>(x, acc). nat x)") (auto simp: signed_divide_int_def)

primrec children_search :: "nat \<Rightarrow> int \<Rightarrow> int \<times> int \<times> int \<Rightarrow> ('z proc_state_scheme, int) kM" where
  "children_search 0 pid acc = spin"
| "children_search (Suc fuel) pid acc =
     (case acc of (grandchildren, grand_counter, exploring_queue) \<Rightarrow>
      if exploring_queue > 0 \<or> pid = 0 then
        bnd (get_children_of (exploring_queue smod 10)) (\<lambda>children.
        children_search fuel (if pid = 0 then - 1 else pid)
          (add_children children (grandchildren, grand_counter, exploring_queue sdiv 10)))
      else ret grandchildren)"

definition sys_get_children :: "nat \<Rightarrow> ('z proc_state_scheme, int) kM" where
  "sys_get_children fuel =
     bnd (argint 0) (\<lambda>r.
     case r of
       None \<Rightarrow> ret (- 1)
     | Some pid \<Rightarrow>
         bnd (children_search fuel pid (0, 0, pid)) (\<lambda>grandchildren.
         ret (if grandchildren = 0 then - 1 else grandchildren)))"

definition sys_set_path :: "('z exec_state_scheme, int) kM" where
  "sys_set_path =
     bnd (argstr 0) (\<lambda>r.
     case r of None \<Rightarrow> ret (- 1) | Some arg \<Rightarrow> seq (add_path arg) (ret 0))"

text \<open>\<^verbatim>\<open>sys_set_sleep\<close> polls the tick counter; between \<^verbatim>\<open>sti\<close> and the next \<^verbatim>\<open>acquire\<close> interrupts are taken, which the next
  entry of the schedule stands for.\<close>

definition sys_set_sleep :: "('z proc_state_scheme, int) kM" where
  "sys_set_sleep =
     bnd (argint 0) (\<lambda>r.
     case r of
       None \<Rightarrow> ret (- 1)
     | Some n \<Rightarrow>
         seq (acquire TicksLock) (
         bnd (get ticks) (\<lambda>ticks0.
         seq (while_sleep (\<lambda>s. ticks s - ticks0 < word_of_int (n * 90))
                (seq (release TicksLock) (seq sti (seq handover (acquire TicksLock))))) (
         seq (release TicksLock) (
         ret 0)))))"

definition rtc_bytes :: "rtcdate \<Rightarrow> u8 list" where
  "rtc_bytes t = concat (map bytes32 [rt_second t, rt_minute t, rt_hour t, rt_day t, rt_month t, rt_year t])"

text \<open>The size checked is that of a pointer, the structure written has 24 bytes.\<close>

definition sys_get_time :: "clock \<Rightarrow> ('z proc_state_scheme, int) kM" where
  "sys_get_time clock =
     bnd (argptr 0 4) (\<lambda>r.
     case r of
       None \<Rightarrow> ret (- 1)
     | Some t \<Rightarrow>
         (case cmostime clock of
            None \<Rightarrow> spin
          | Some d \<Rightarrow>
              seq (ustore_bytes t (rtc_bytes d)) (
              ret (sint (rt_second d + rt_minute d * 60 + rt_hour d * 3600)))))"

text \<open>Two integer arguments, and a call with them.\<close>

definition with_args :: "(int \<Rightarrow> int \<Rightarrow> ('z proc_state_scheme, unit) kM) \<Rightarrow> ('z proc_state_scheme, int) kM" where
  "with_args f =
     bnd (argint 0) (\<lambda>r.
     case r of
       None \<Rightarrow> ret (- 1)
     | Some pid \<Rightarrow>
         bnd (argint 1) (\<lambda>r.
         case r of
           None \<Rightarrow> ret (- 1)
         | Some v \<Rightarrow> seq (f pid v) (ret 0)))"

definition sys_change_process_level :: "('z proc_state_scheme, int) kM" where
  "sys_change_process_level = with_args change_process_level"

definition sys_set_process_ticket :: "('z proc_state_scheme, int) kM" where
  "sys_set_process_ticket = with_args set_process_ticket"

definition sys_set_process_remaining_priority :: "('z proc_state_scheme, int) kM" where
  "sys_set_process_remaining_priority = with_args set_process_remaining_priority"

definition sys_print_processes_info :: "(rat \<Rightarrow> rat) \<Rightarrow> (rat \<Rightarrow> rat) \<Rightarrow> ('z proc_state_scheme, int) kM" where
  "sys_print_processes_info rnd rndf = seq (print_processes_info rnd rndf) (ret 0)"

definition sys_barrier_init :: "('z proc_state_scheme, int) kM" where
  "sys_barrier_init =
     bnd (argint 0) (\<lambda>r.
     case r of None \<Rightarrow> ret (- 1) | Some n \<Rightarrow> seq (barrier_init n) (ret 0))"

definition sys_barrier_wait :: "('z proc_state_scheme, int) kM" where
  "sys_barrier_wait = seq barrier_wait (ret 0)"

definition sys_reentrant_spinlock_test :: "('z proc_state_scheme, int) kM" where
  "sys_reentrant_spinlock_test = seq reentrant_spinlock_test (ret 0)"

section \<open>The dispatcher\<close>

definition syscalls :: "(rat \<Rightarrow> rat) \<Rightarrow> (rat \<Rightarrow> rat) \<Rightarrow> clock \<Rightarrow> nat \<Rightarrow> ('z exec_state_scheme, int) kM list" where
  "syscalls rnd rndf clock fuel =
     [sys_fork, sys_exit, sys_wait, sys_pipe, sys_read, sys_kill, sys_exec, sys_fstat, sys_chdir, sys_dup,
      sys_getpid, sys_sbrk, sys_sleep, sys_uptime, sys_open, sys_write, sys_mknod, sys_unlink, sys_link,
      sys_mkdir, sys_close, sys_count_num_of_digits, sys_get_parent_id, sys_get_children fuel, sys_set_path,
      sys_set_sleep, sys_get_time clock, sys_change_process_level, sys_set_process_ticket,
      sys_set_process_remaining_priority, sys_print_processes_info rnd rndf, sys_barrier_init,
      sys_barrier_wait, sys_reentrant_spinlock_test]"

text \<open>The call numbers start at one.\<close>

definition syscall :: "(rat \<Rightarrow> rat) \<Rightarrow> (rat \<Rightarrow> rat) \<Rightarrow> clock \<Rightarrow> nat \<Rightarrow> ('z exec_state_scheme, unit) kM" where
  "syscall rnd rndf clock fuel =
     bnd curproc (\<lambda>i.
     bnd (get_proc i) (\<lambda>p.
     bnd (get_tf (p_tf p) Teax) (\<lambda>eax.
     let num = sint eax; calls = syscalls rnd rndf clock fuel in
     if num > 0 \<and> num < int (length calls) + 1 then
       bnd (calls ! nat (num - 1)) (\<lambda>r.
       bnd (get_proc i) (\<lambda>p.
       set_tf (p_tf p) Teax (word_of_int r)))
     else
       seq (call_cprintf (''%d %s: unknown sys call %d'' @ [CHR 0x0A]) [cint (p_pid p), str_arg (p_name p), cint num]) (
       set_tf (p_tf p) Teax (- 1)))))"

section \<open>Traps\<close>

abbreviation "STS_IG32 \<equiv> 0xE :: 4 word"
abbreviation "STS_TG32 \<equiv> 0xF :: 4 word"

definition SETGATE :: "bool \<Rightarrow> u16 \<Rightarrow> u32 \<Rightarrow> 2 word \<Rightarrow> gatedesc" where
  "SETGATE istrap sel off d = \<lparr>g_off_15_0 = ucast (off AND 0xFFFF), g_cs = sel, g_args = 0, g_rsv1 = 0,
     g_type = (if istrap then STS_TG32 else STS_IG32), g_s = 0, g_dpl = d, g_p = 1, g_off_31_16 = ucast (drop_bit 16 off)\<rparr>"

text \<open>\<open>vectors\<close> are the entry points of \<^verbatim>\<open>vectors.S\<close>.\<close>

definition tvinit :: "u32 list \<Rightarrow> ('z trap_state_scheme, unit) kM" where
  "tvinit vectors =
     seq (forM [0..<256] (\<lambda>i. upd (\<lambda>s. s\<lparr>idt := (idt s)[i := SETGATE False (of_nat SEG_KCODE * 8) (vectors ! i) 0]\<rparr>))) (
     seq (upd (\<lambda>s. s\<lparr>idt := (idt s)[64 := SETGATE True (of_nat SEG_KCODE * 8) (vectors ! 64) 3]\<rparr>)) (
     initlock TicksLock ''time''))"

definition idtinit :: "('z trap_state_scheme, unit) kM" where
  "idtinit = upd (\<lambda>s. s\<lparr>idtr := True\<rparr>)"

definition lapiceoi :: "('z trap_state_scheme, unit) kM" where
  "lapiceoi = upd (\<lambda>s. s\<lparr>lapic := map_option (\<lambda>r. r(0xB0 div 4 := 0)) (lapic s)\<rparr>)"

definition kbdintr :: "(rat \<Rightarrow> rat) \<Rightarrow> (rat \<Rightarrow> rat) \<Rightarrow> u8 list \<Rightarrow> ('z trap_state_scheme, unit) kM" where
  "kbdintr rnd rndf pending =
     bnd (get (\<lambda>s. kbd_keys (kbd_shift s) pending)) (\<lambda>(sh, keys).
     seq (upd (\<lambda>s. s\<lparr>kbd_shift := sh\<rparr>)) (
     consoleintr rnd rndf keys))"

definition uartintr :: "(rat \<Rightarrow> rat) \<Rightarrow> (rat \<Rightarrow> rat) \<Rightarrow> u8 list \<Rightarrow> ('z trap_state_scheme, unit) kM" where
  "uartintr rnd rndf received =
     bnd (get uart) (\<lambda>u.
     consoleintr rnd rndf (if u then map uint received else []))"

text \<open>What the hardware contributes to an interrupt: the bytes in the buffers of keyboard and serial port, the clock.\<close>

record inputs =
  in_kbd :: "u8 list"
  in_uart :: "u8 list"
  in_clock :: clock

definition timer_tick :: "('z proc_state_scheme, unit) kM" where
  "timer_tick =
     bnd cpuid (\<lambda>c.
     whenM (c = 0) (
       seq (acquire TicksLock) (
       seq (upd (\<lambda>s. s\<lparr>ticks := ticks s + 1\<rparr>)) (
       seq (wakeup (Some ChTicks)) (
       release TicksLock)))))"

text \<open>The trap frame fields the handler looks at.\<close>

definition get_tf16 :: "u32 \<Rightarrow> trapframe \<Rightarrow> ('z kbase_scheme, u16) kM" where
  "get_tf16 tf r = get (\<lambda>s. load16 (mem s) (tf + tf_off r))"

definition unexpected :: "u32 \<Rightarrow> u32 \<Rightarrow> u16 \<Rightarrow> ('z trap_state_scheme, unit) kM" where
  "unexpected tf trapno cs =
     bnd myproc (\<lambda>p.
     bnd (get_tf tf Teip) (\<lambda>eip.
     bnd (get_tf tf Terr) (\<lambda>err.
     bnd cpuid (\<lambda>c.
     bnd (get cr2) (\<lambda>addr.
     case p of
       None \<Rightarrow>
         seq (call_cprintf (''unexpected trap %d from cpu %d eip %x (cr2=0x%x)'' @ [CHR 0x0A])
                [cint (sint trapno), cint (int c), cint (sint eip), cint (sint addr)]) (
         panic ''trap'')
     | Some i \<Rightarrow>
         if cs AND 3 = 0 then
           seq (call_cprintf (''unexpected trap %d from cpu %d eip %x (cr2=0x%x)'' @ [CHR 0x0A])
                  [cint (sint trapno), cint (int c), cint (sint eip), cint (sint addr)]) (
           panic ''trap'')
         else
           bnd (get_proc i) (\<lambda>pr.
           seq (call_cprintf (''pid %d %s: trap %d err %d on cpu %d eip 0x%x addr 0x%x--kill proc'' @ [CHR 0x0A])
                  [cint (p_pid pr), str_arg (p_name pr), cint (sint trapno), cint (sint err), cint (int c), cint (sint eip), cint (sint addr)]) (
           upd_proc i (\<lambda>x. x\<lparr>p_killed := True\<rparr>))))))))"

definition irq :: "(rat \<Rightarrow> rat) \<Rightarrow> (rat \<Rightarrow> rat) \<Rightarrow> inputs \<Rightarrow> u32 \<Rightarrow> u32 \<Rightarrow> u16 \<Rightarrow> ('z trap_state_scheme, unit) kM" where
  "irq rnd rndf inp tf trapno cs =
     (if trapno = 32 then seq timer_tick lapiceoi
      else if trapno = 46 then lapiceoi
      else if trapno = 47 then ret ()
      else if trapno = 33 then seq (kbdintr rnd rndf (in_kbd inp)) lapiceoi
      else if trapno = 36 then seq (uartintr rnd rndf (in_uart inp)) lapiceoi
      else if trapno = 39 \<or> trapno = 63 then
        bnd cpuid (\<lambda>c.
        bnd (get_tf tf Teip) (\<lambda>eip.
        seq (call_cprintf (''cpu%d: spurious interrupt at %x:%x'' @ [CHR 0x0A]) [cint (int c), cint (uint cs), cint (sint eip)]) (
        lapiceoi)))
      else unexpected tf trapno cs)"

text \<open>\<^verbatim>\<open>if(myproc() && myproc()->killed && (tf->cs&3) == DPL_USER) exit();\<close>\<close>

definition exit_if_killed :: "u16 \<Rightarrow> ('z file_state_scheme, unit) kM" where
  "exit_if_killed cs =
     bnd myproc (\<lambda>p.
     case p of
       None \<Rightarrow> ret ()
     | Some i \<Rightarrow>
         bnd (get_proc i) (\<lambda>pr.
         whenM (p_killed pr \<and> cs AND 3 = 3) exit))"

definition trap :: "(rat \<Rightarrow> rat) \<Rightarrow> (rat \<Rightarrow> rat) \<Rightarrow> inputs \<Rightarrow> nat \<Rightarrow> u32 \<Rightarrow> ('z trap_state_scheme, unit) kM" where
  "trap rnd rndf inp fuel tf =
     bnd (get_tf tf Ttrapno) (\<lambda>trapno.
     bnd (get_tf16 tf Tcs) (\<lambda>cs.
     if trapno = 64 then
       bnd mykilled (\<lambda>k.
       seq (whenM k exit) (
       bnd curproc (\<lambda>i.
       seq (upd_proc i (\<lambda>p. p\<lparr>p_tf := tf\<rparr>)) (
       seq (syscall rnd rndf (in_clock inp) fuel) (
       bnd mykilled (\<lambda>k.
       whenM k exit))))))
     else
       seq (irq rnd rndf inp tf trapno cs) (
       seq (exit_if_killed cs) (
       seq (bnd myproc (\<lambda>p.
            case p of
              None \<Rightarrow> ret ()
            | Some i \<Rightarrow>
                bnd (get_proc i) (\<lambda>pr.
                whenM (p_state pr = RUNNING \<and> trapno = 32) yield))) (
       exit_if_killed cs)))))"

end
