(* ===== verification/User_Lib.thy ===== *)
theory User_Lib
  imports Console_Out
begin

text \<open>
  The library of the user programs: \<^verbatim>\<open>ulib.c\<close> and \<^verbatim>\<open>printf.c\<close>.  A pointer to a string that is only read is the
  list of the characters up to the terminating zero, and advancing the pointer drops characters from it; the
  routines that write (\<^verbatim>\<open>strcpy\<close>, \<^verbatim>\<open>memset\<close>, \<^verbatim>\<open>memmove\<close>) work on the byte-addressed memory of \<^theory_text>\<open>Mem_String\<close>.
  Where a name is taken by the kernel's version of the routine, the user's carries the suffix \<open>_u\<close>.  The system
  calls \<^verbatim>\<open>stat\<close> makes are its arguments, and \<^verbatim>\<open>printf\<close> returns the characters it writes, in order.
\<close>

abbreviation NUL :: char where
  "NUL \<equiv> CHR 0x00"

text \<open>The character a pointer points to.\<close>

definition ch :: "string \<Rightarrow> char" where
  "ch s = (case s of [] \<Rightarrow> NUL | c # _ \<Rightarrow> c)"

section \<open>ulib.c\<close>

partial_function (option) strcpy :: "mem \<Rightarrow> u32 \<Rightarrow> u32 \<Rightarrow> mem option" where
  "strcpy m s t = (if m t = 0 then Some (m(s := m t)) else strcpy (m(s := m t)) (s + 1) (t + 1))"

fun strcmp :: "string \<Rightarrow> string \<Rightarrow> int" where
  "strcmp p q =
     (if p \<noteq> [] \<and> ch p = ch q then strcmp (tl p) (tl q)
      else int (of_char (ch p)) - int (of_char (ch q)))"

primrec strlen_loop_u :: "string \<Rightarrow> int \<Rightarrow> int" where
  "strlen_loop_u [] n = n"
| "strlen_loop_u (c # s) n = strlen_loop_u s (n + 1)"

definition strlen_u :: "string \<Rightarrow> u32" where
  "strlen_u s = word_of_int (strlen_loop_u s 0)"

definition memset_u :: "mem \<Rightarrow> u32 \<Rightarrow> u32 \<Rightarrow> u32 \<Rightarrow> mem" where
  "memset_u m dst c n = stosb m dst (ucast c) (unat n)"

primrec strchr :: "string \<Rightarrow> char \<Rightarrow> string option" where
  "strchr [] c = None"
| "strchr (d # s) c = (if d = c then Some (d # s) else strchr s c)"

text \<open>\<^verbatim>\<open>gets\<close>: the input is what successive reads of one byte return until the end of the file; \<open>k\<close> bytes fit.
  The result is the string in \<^verbatim>\<open>buf\<close> and the input left.\<close>

primrec gets_loop :: "nat \<Rightarrow> string \<Rightarrow> string \<times> string" where
  "gets_loop 0 inp = ([], inp)"
| "gets_loop (Suc k) inp =
     (case inp of
        [] \<Rightarrow> ([], [])
      | c # inp' \<Rightarrow>
          if c = CHR 0x0A \<or> c = CHR 0x0D then ([c], inp')
          else case gets_loop k inp' of (b, r) \<Rightarrow> (c # b, r))"

definition gets :: "int \<Rightarrow> string \<Rightarrow> string \<times> string" where
  "gets n inp = gets_loop (nat (n - 1)) inp"

definition stat_u ::
  "(string \<Rightarrow> int \<Rightarrow> 's \<Rightarrow> int \<times> 's) \<Rightarrow> (int \<Rightarrow> 's \<Rightarrow> int \<times> 's) \<Rightarrow> (int \<Rightarrow> 's \<Rightarrow> 's) \<Rightarrow> string \<Rightarrow> 's \<Rightarrow> int \<times> 's" where
  "stat_u open fstat close n s =
     (case open n 0 s of (fd, s) \<Rightarrow>
        if fd < 0 then (-1, s)
        else case fstat fd s of (r, s) \<Rightarrow> (r, close fd s))"

text \<open>The sum is a 32-bit \<^verbatim>\<open>int\<close>; it wraps where the number does not fit.\<close>

primrec atoi_loop :: "string \<Rightarrow> u32 \<Rightarrow> u32" where
  "atoi_loop [] n = n"
| "atoi_loop (c # s) n =
     (if 48 \<le> (of_char c :: nat) \<and> (of_char c :: nat) \<le> 57
      then atoi_loop s (n * 10 + of_char c - 48) else n)"

definition atoi :: "string \<Rightarrow> int" where
  "atoi s = sint (atoi_loop s 0)"

definition memmove_u :: "mem \<Rightarrow> u32 \<Rightarrow> u32 \<Rightarrow> int \<Rightarrow> mem" where
  "memmove_u m dst src n = copy_up m dst src (nat n)"

section \<open>printf.c\<close>

definition digit_char_u :: "nat \<Rightarrow> char" where
  "digit_char_u d = ''0123456789ABCDEF'' ! d"

function digit_loop_u :: "nat \<Rightarrow> nat \<Rightarrow> string" where
  "digit_loop_u base x =
     digit_char_u (x mod base) # (if base < 2 \<or> x div base = 0 then [] else digit_loop_u base (x div base))"
  by pat_completeness auto
termination
  by (relation "measure snd") (auto simp: div_greater_zero_iff)

declare digit_loop_u.simps [simp del]

definition printint_u :: "int \<Rightarrow> nat \<Rightarrow> bool \<Rightarrow> string" where
  "printint_u xx base sign =
     (let neg = (sign \<and> xx < 0);
          x = unat (word_of_int (if neg then - xx else xx) :: u32);
          buf = digit_loop_u base x;
          buf = (if neg then buf @ ''-'' else buf)
      in rev buf)"

text \<open>The format is read character by character; \<open>state\<close> tells that the last one was a percent sign.\<close>

fun printf_loop :: "bool \<Rightarrow> string \<Rightarrow> cparg list \<Rightarrow> string" where
  "printf_loop state [] ap = []"
| "printf_loop state (c # fmt) ap =
     (if \<not> state then
        (if c = CHR ''%'' then printf_loop True fmt ap else c # printf_loop False fmt ap)
      else if c = CHR ''d'' then printint_u (arg_int (hd ap)) 10 True @ printf_loop False fmt (tl ap)
      else if c = CHR ''x'' \<or> c = CHR ''p'' then printint_u (arg_int (hd ap)) 16 False @ printf_loop False fmt (tl ap)
      else if c = CHR ''s'' then arg_str (hd ap) @ printf_loop False fmt (tl ap)
      else if c = CHR ''c'' then char_of (unat (arg_word (hd ap))) # printf_loop False fmt (tl ap)
      else if c = CHR ''%'' then c # printf_loop False fmt ap
      else CHR ''%'' # c # printf_loop False fmt ap)"

definition printf :: "string \<Rightarrow> cparg list \<Rightarrow> string" where
  "printf fmt args = printf_loop False fmt args"

section \<open>Properties\<close>

lemma digit_char_u_code: "d < 10 \<Longrightarrow> (of_char (digit_char_u d) :: 'a :: comm_semiring_1) = of_nat (48 + d)"
proof -
  have "\<forall>d \<in> set [0..<10]. (of_char (digit_char_u d) :: nat) = 48 + d" by code_simp
  then have "d < 10 \<Longrightarrow> (of_char (digit_char_u d) :: nat) = 48 + d" by simp
  then show "d < 10 \<Longrightarrow> (of_char (digit_char_u d) :: 'a) = of_nat (48 + d)" by (metis of_nat_of_char)
qed

lemma atoi_digits: "atoi_loop (rev (digit_loop_u 10 x) @ rest) 0 = atoi_loop rest (of_nat x)"
proof (induction x arbitrary: rest rule: less_induct)
  case (less x)
  let ?d = "digit_char_u (x mod 10)"
  have d: "48 \<le> (of_char ?d :: nat)" "(of_char ?d :: nat) \<le> 57" "(of_char ?d :: u32) = 48 + of_nat (x mod 10)"
    using digit_char_u_code [of "x mod 10", where 'a = nat] digit_char_u_code [of "x mod 10", where 'a = u32] by simp_all
  have x: "of_nat (x div 10) * 10 + of_nat (x mod 10) = (of_nat x :: u32)"
    by (metis (mono_tags) div_mult_mod_eq of_nat_add of_nat_mult of_nat_numeral)
  show ?case
  proof (cases "x div 10 = 0")
    case True
    then have "x mod 10 = x" by simp
    then show ?thesis using d True by (subst digit_loop_u.simps) simp
  next
    case False
    then have "atoi_loop (rev (digit_loop_u 10 (x div 10)) @ ?d # rest) 0 = atoi_loop (?d # rest) (of_nat (x div 10))"
      by (intro less.IH) simp
    also have "\<dots> = atoi_loop rest (of_nat x)" using d x by (simp add: add.assoc [symmetric])
    finally show ?thesis using False by (subst digit_loop_u.simps) simp
  qed
qed

text \<open>C40: Reading back a printed number: what \<^verbatim>\<open>printf\<close> writes for a non-negative \<^verbatim>\<open>int\<close> with \<^verbatim>\<open>%d\<close>, followed by any text that
  does not start with a digit, \<^verbatim>\<open>atoi\<close> reads as that number.\<close>

theorem atoi_printf:
  assumes "0 \<le> x" "x < 2 ^ 31" "rest = [] \<or> \<not> (48 \<le> (of_char (hd rest) :: nat) \<and> (of_char (hd rest) :: nat) \<le> 57)"
  shows "atoi (printf ''%d'' [cint x] @ rest) = x"
proof -
  have s: "sint (word_of_int x :: u32) = x" using assms(1,2) by (rule sint_word_of_int)
  have u: "unat (word_of_int x :: u32) = nat x" using assms(1,2) by (simp add: unat_eq_nat_uint uint_word_of_int_eq take_bit_int_eq_self)
  have stop: "atoi_loop rest n = n" for n using assms(3) by (cases rest) auto
  have "printf ''%d'' [cint x] = rev (digit_loop_u 10 (nat x))"
    using assms(1) s u by (simp add: printf_def printint_u_def arg_int_def cint_def)
  then show ?thesis
    using s stop assms(1) by (simp add: atoi_def atoi_digits)
qed

theorem atoi_printf_witness: "atoi (printf ''%d'' [cint 1024] @ '' files'') = 1024"
  by (rule atoi_printf) (simp_all add: of_char_def)

end
