(* ===== verification/Shell.thy ===== *)
theory Shell
  imports User_Lib
begin

text \<open>
  The shell, \<^verbatim>\<open>sh.c\<close>.  The line the user typed is a string; a pointer into it is an index, and the end \<^verbatim>\<open>es\<close> is its
  length, where the terminating zero stands.  A parsed command is a tree (the nodes the parser allocates are never
  shared, apart from the \<^verbatim>\<open>execcmd\<close> below its redirections, see \<open>add_arg\<close>); an argument is the pair of pointers
  \<^verbatim>\<open>argv[i]\<close> and \<^verbatim>\<open>eargv[i]\<close>.  \<^verbatim>\<open>panic\<close> ends the parsing process, so the parser returns a result that may be an error.

  The four functions of the grammar call each other; \<open>n\<close> bounds the depth of the calls, and four levels for each
  character left and four more always suffice.  What a process that runs a command does is a tree of the system calls it makes, with
  a branch for each outcome the code distinguishes.
\<close>

datatype cmd =
    EXEC "(nat \<times> nat) list"
  | REDIR cmd nat nat int int
  | PIPE cmd cmd
  | LIST cmd cmd
  | BACK cmd

abbreviation MAXARGS :: nat where
  "MAXARGS \<equiv> 10"

abbreviation O_RDONLY :: int where
  "O_RDONLY \<equiv> 0"

abbreviation O_RDWR :: int where
  "O_RDWR \<equiv> 2"

abbreviation O_WRONLY_CREATE :: int where
  "O_WRONLY_CREATE \<equiv> 0x201"

datatype 'a res = Ok 'a | Panicked string | No_Fuel

primrec res_bind :: "'a res \<Rightarrow> ('a \<Rightarrow> 'b res) \<Rightarrow> 'b res" where
  "res_bind (Ok a) f = f a"
| "res_bind (Panicked m) f = Panicked m"
| "res_bind No_Fuel f = No_Fuel"

section \<open>The parser\<close>

text \<open>The constructors allocate a node and fill it.\<close>

abbreviation execcmd :: cmd where
  "execcmd \<equiv> EXEC []"

abbreviation redircmd :: "cmd \<Rightarrow> nat \<Rightarrow> nat \<Rightarrow> int \<Rightarrow> int \<Rightarrow> cmd" where
  "redircmd subcmd file efile mode fd \<equiv> REDIR subcmd file efile mode fd"

abbreviation pipecmd :: "cmd \<Rightarrow> cmd \<Rightarrow> cmd" where
  "pipecmd left right \<equiv> PIPE left right"

abbreviation listcmd :: "cmd \<Rightarrow> cmd \<Rightarrow> cmd" where
  "listcmd left right \<equiv> LIST left right"

abbreviation backcmd :: "cmd \<Rightarrow> cmd" where
  "backcmd subcmd \<equiv> BACK subcmd"

subsection \<open>Tokens\<close>

definition at :: "string \<Rightarrow> nat \<Rightarrow> char" where
  "at b s = (if s < length b then b ! s else NUL)"

definition whitespace :: string where
  "whitespace = [CHR '' '', CHR 0x09, CHR 0x0D, CHR 0x0A, CHR 0x0B]"

definition symbols :: string where
  "symbols = ''<|>&;()''"

abbreviation is_ws :: "char \<Rightarrow> bool" where
  "is_ws c \<equiv> strchr whitespace c \<noteq> None"

abbreviation is_sym :: "char \<Rightarrow> bool" where
  "is_sym c \<equiv> strchr symbols c \<noteq> None"

function skip_ws :: "string \<Rightarrow> nat \<Rightarrow> nat" where
  "skip_ws b s = (if s < length b \<and> is_ws (at b s) then skip_ws b (s + 1) else s)"
  by pat_completeness auto
termination
  by (relation "measure (\<lambda>(b, s). length b - s)") auto

function skip_word :: "string \<Rightarrow> nat \<Rightarrow> nat" where
  "skip_word b s = (if s < length b \<and> \<not> is_ws (at b s) \<and> \<not> is_sym (at b s) then skip_word b (s + 1) else s)"
  by pat_completeness auto
termination
  by (relation "measure (\<lambda>(b, s). length b - s)") auto

declare skip_ws.simps [simp del] skip_word.simps [simp del]

definition gettoken :: "string \<Rightarrow> nat \<Rightarrow> char \<times> nat \<times> nat \<times> nat" where
  "gettoken b s =
     (let q = skip_ws b s;
          c = at b q;
          (tok, eq) =
            (if c = NUL then (c, q)
             else if c = CHR ''|'' \<or> c = CHR ''('' \<or> c = CHR '')'' \<or> c = CHR '';'' \<or> c = CHR ''&'' \<or> c = CHR ''<'' then (c, q + 1)
             else if c = CHR ''>'' then (if at b (q + 1) = CHR ''>'' then (CHR ''+'', q + 2) else (c, q + 1))
             else (CHR ''a'', skip_word b q))
      in (tok, q, eq, skip_ws b eq))"

definition peek :: "string \<Rightarrow> nat \<Rightarrow> string \<Rightarrow> bool \<times> nat" where
  "peek b s toks =
     (let s = skip_ws b s in (at b s \<noteq> NUL \<and> strchr toks (at b s) \<noteq> None, s))"

text \<open>The index after the next token.\<close>

abbreviation after_token :: "string \<Rightarrow> nat \<Rightarrow> nat" where
  "after_token b s \<equiv> snd (snd (snd (gettoken b s)))"

lemma skip_ws_steps:
  "s < length b \<Longrightarrow> is_ws (at b s) \<Longrightarrow> skip_ws b s = skip_ws b (s + 1)" "\<not> (s < length b \<and> is_ws (at b s)) \<Longrightarrow> skip_ws b s = s"
  by (subst skip_ws.simps, simp)+

lemma skip_word_steps:
  "s < length b \<Longrightarrow> \<not> is_ws (at b s) \<Longrightarrow> \<not> is_sym (at b s) \<Longrightarrow> skip_word b s = skip_word b (s + 1)"
  "\<not> (s < length b \<and> \<not> is_ws (at b s) \<and> \<not> is_sym (at b s)) \<Longrightarrow> skip_word b s = s"
  by (subst skip_word.simps, simp only: if_True if_False simp_thms)+

lemma skip_ws_facts:
  "s \<le> skip_ws b s \<and> (s \<le> length b \<longrightarrow> skip_ws b s \<le> length b) \<and> \<not> (skip_ws b s < length b \<and> is_ws (at b (skip_ws b s)))"
proof (induction b s rule: skip_ws.induct)
  case (1 b s)
  show ?case
  proof (cases "s < length b \<and> is_ws (at b s)")
    case True
    then have "skip_ws b s = skip_ws b (s + 1)" by (intro skip_ws_steps) simp_all
    then show ?thesis using 1 True by simp
  next
    case False
    then show ?thesis using skip_ws_steps(2) [OF False] by simp
  qed
qed

lemma skip_word_facts: "s \<le> skip_word b s \<and> (s \<le> length b \<longrightarrow> skip_word b s \<le> length b)"
proof (induction b s rule: skip_word.induct)
  case (1 b s)
  show ?case
  proof (cases "s < length b \<and> \<not> is_ws (at b s) \<and> \<not> is_sym (at b s)")
    case True
    then have "skip_word b s = skip_word b (s + 1)" by (intro skip_word_steps) simp_all
    then show ?thesis using 1 True by simp
  next
    case False
    then show ?thesis using skip_word_steps(2) [OF False] by simp
  qed
qed

lemmas skip_ws_mono = skip_ws_facts [THEN conjunct1]
lemmas skip_word_mono = skip_word_facts [THEN conjunct1]

lemma skip_ws_le: "s \<le> length b \<Longrightarrow> skip_ws b s \<le> length b" and skip_word_le: "s \<le> length b \<Longrightarrow> skip_word b s \<le> length b"
  using skip_ws_facts skip_word_facts by blast+

lemma skip_ws_idem [simp]: "skip_ws b (skip_ws b s) = skip_ws b s"
  using skip_ws_facts skip_ws_steps(2) by blast

text \<open>The end of a token, as \<^verbatim>\<open>gettoken\<close> finds it: after at least one character, unless the line has ended.\<close>

definition token_end :: "string \<Rightarrow> nat \<Rightarrow> nat" where
  "token_end b s = fst (snd (snd (gettoken b s)))"

lemma token_end_gt:
  assumes "skip_ws b s = s" "at b s \<noteq> NUL"
  shows "s < token_end b s"
proof -
  have l: "s < length b" using assms(2) by (auto simp: at_def split: if_splits)
  then have w: "\<not> is_ws (at b s)" using assms(1) skip_ws_facts [of s b] by auto
  have "s < skip_word b s" if "\<not> is_sym (at b s)"
    using skip_word_steps(1) [OF l w that] skip_word_mono [of "s + 1" b] by simp
  then show ?thesis using assms by (auto simp: token_end_def gettoken_def Let_def symbols_def)
qed

lemma after_token_eq: "after_token b s = skip_ws b (token_end b s)"
  by (simp add: token_end_def gettoken_def Let_def split: prod.splits)

lemma peek_True:
  assumes "peek b s toks = (True, s')"
  shows "s \<le> s'" "s' < length b" "skip_ws b s' = s'" "at b s' \<noteq> NUL" "s' < after_token b s'"
proof -
  have p: "s' = skip_ws b s" "at b s' \<noteq> NUL" using assms by (auto simp: peek_def Let_def)
  show "s \<le> s'" "skip_ws b s' = s'" "at b s' \<noteq> NUL" using p skip_ws_mono by simp_all
  show "s' < length b" using p(2) by (auto simp: at_def split: if_splits)
  show "s' < after_token b s'"
    using token_end_gt [of b s'] p skip_ws_mono [of "token_end b s'" b] unfolding after_token_eq by simp
qed

subsection \<open>The grammar\<close>

definition redir :: "char \<Rightarrow> cmd \<Rightarrow> nat \<Rightarrow> nat \<Rightarrow> cmd" where
  "redir tok cmd q eq =
     (if tok = CHR ''<'' then redircmd cmd q eq O_RDONLY 0
      else if tok = CHR ''>'' then redircmd cmd q eq O_WRONLY_CREATE 1
      else if tok = CHR ''+'' then redircmd cmd q eq O_WRONLY_CREATE 1
      else cmd)"

lemma gettoken_mono: "s \<le> after_token b s"
proof -
  let ?s = "skip_ws b s"
  have e: "gettoken b s = gettoken b ?s" by (simp add: gettoken_def Let_def)
  have "?s \<le> token_end b ?s" using token_end_gt [of b ?s] by (cases "at b ?s = NUL") (auto simp: token_end_def gettoken_def Let_def)
  then show ?thesis using skip_ws_mono [of s b] skip_ws_mono [of "token_end b ?s" b] unfolding e after_token_eq by simp
qed

lemma redirs_step:
  assumes "peek b s toks = (True, s1)" "gettoken b s1 = (tok, q1, e1, s2)" "gettoken b s2 = (tok', q, eq, s3)"
  shows "length b - s3 < length b - s"
  using peek_True [OF assms(1)] gettoken_mono [of s2 b] assms(2,3) by simp

function parseredirs :: "string \<Rightarrow> cmd \<Rightarrow> nat \<Rightarrow> (cmd \<times> nat) res" where
  "parseredirs b cmd s =
     (let (more, s) = peek b s ''<>''
      in if \<not> more then Ok (cmd, s)
         else
           let (tok, _, _, s) = gettoken b s;
               (tok', q, eq, s) = gettoken b s
           in if tok' \<noteq> CHR ''a'' then Panicked ''missing file for redirection''
              else parseredirs b (redir tok cmd q eq) s)"
  by pat_completeness auto
termination
  by (relation "measure (\<lambda>(b, cmd, s). length b - s)") (auto simp del: One_nat_def dest: redirs_step [OF sym sym sym])

declare parseredirs.simps [simp del]

text \<open>\<^verbatim>\<open>parseexec\<close> keeps a pointer to the \<^verbatim>\<open>execcmd\<close> it has allocated and adds the arguments there, below the redirections
  wrapped around it meanwhile.\<close>

primrec add_arg :: "nat \<Rightarrow> nat \<Rightarrow> cmd \<Rightarrow> cmd" where
  "add_arg q eq (EXEC args) = EXEC (args @ [(q, eq)])"
| "add_arg q eq (REDIR c f ef mode fd) = REDIR (add_arg q eq c) f ef mode fd"
| "add_arg q eq (PIPE l r) = PIPE l r"
| "add_arg q eq (LIST l r) = LIST l r"
| "add_arg q eq (BACK c) = BACK c"

lemma res_bind_cong [fundef_cong]:
  "m = m' \<Longrightarrow> (\<And>a. m' = Ok a \<Longrightarrow> f a = f' a) \<Longrightarrow> res_bind m f = res_bind m' f'"
  by (cases m') simp_all

function parseargs :: "string \<Rightarrow> nat \<Rightarrow> cmd \<Rightarrow> nat \<Rightarrow> (cmd \<times> nat) res" where
  "parseargs b argc cmd s =
     (let (stop, s) = peek b s ''|)&;''
      in if stop then Ok (cmd, s)
         else
           let (tok, q, eq, s) = gettoken b s
           in if tok = NUL then Ok (cmd, s)
              else if tok \<noteq> CHR ''a'' then Panicked ''syntax''
              else
                let cmd = add_arg q eq cmd; argc = argc + 1
                in if argc \<ge> MAXARGS then Panicked ''too many args''
                   else res_bind (parseredirs b cmd s) (\<lambda>(cmd, s). parseargs b argc cmd s))"
  by pat_completeness auto
termination
  by (relation "measure (\<lambda>(b, argc, cmd, s). MAXARGS - argc)") auto

declare parseargs.simps [simp del]

lemma backs_step:
  assumes "peek b s toks = (True, s1)" "gettoken b s1 = (tok, q1, e1, s2)"
  shows "length b - s2 < length b - s"
  using peek_True [OF assms(1)] assms(2) by simp

function parsebacks :: "string \<Rightarrow> cmd \<Rightarrow> nat \<Rightarrow> cmd \<times> nat" where
  "parsebacks b cmd s =
     (let (more, s) = peek b s ''&''
      in if more then let (_, _, _, s) = gettoken b s in parsebacks b (backcmd cmd) s
         else (cmd, s))"
  by pat_completeness auto
termination
  by (relation "measure (\<lambda>(b, cmd, s). length b - s)") (auto dest: backs_step [OF sym sym])

declare parsebacks.simps [simp del]

fun parseline :: "nat \<Rightarrow> string \<Rightarrow> nat \<Rightarrow> (cmd \<times> nat) res"
  and parsepipe :: "nat \<Rightarrow> string \<Rightarrow> nat \<Rightarrow> (cmd \<times> nat) res"
  and parseexec :: "nat \<Rightarrow> string \<Rightarrow> nat \<Rightarrow> (cmd \<times> nat) res"
  and parseblock :: "nat \<Rightarrow> string \<Rightarrow> nat \<Rightarrow> (cmd \<times> nat) res" where
  "parseline 0 b s = No_Fuel"
| "parseline (Suc n) b s =
     res_bind (parsepipe n b s) (\<lambda>(cmd, s).
     let (cmd, s) = parsebacks b cmd s;
         (semi, s) = peek b s '';''
     in if semi then res_bind (parseline n b (after_token b s)) (\<lambda>(r, s). Ok (listcmd cmd r, s))
        else Ok (cmd, s))"
| "parsepipe 0 b s = No_Fuel"
| "parsepipe (Suc n) b s =
     res_bind (parseexec n b s) (\<lambda>(cmd, s).
     let (bar, s) = peek b s ''|''
     in if bar then res_bind (parsepipe n b (after_token b s)) (\<lambda>(r, s). Ok (pipecmd cmd r, s))
        else Ok (cmd, s))"
| "parseexec 0 b s = No_Fuel"
| "parseexec (Suc n) b s =
     (let (block, s) = peek b s ''(''
      in if block then parseblock n b s
         else res_bind (parseredirs b execcmd s) (\<lambda>(cmd, s). parseargs b 0 cmd s))"
| "parseblock 0 b s = No_Fuel"
| "parseblock (Suc n) b s =
     (let (open, s) = peek b s ''(''
      in if \<not> open then Panicked ''parseblock''
         else
           res_bind (parseline n b (after_token b s)) (\<lambda>(cmd, s).
           let (close, s) = peek b s '')''
           in if \<not> close then Panicked ''syntax - missing )''
              else parseredirs b cmd (after_token b s)))"

primrec nulterminate :: "cmd \<Rightarrow> string \<Rightarrow> string" where
  "nulterminate (EXEC args) b = foldl (\<lambda>b (_, eq). b[eq := NUL]) b args"
| "nulterminate (REDIR c f ef mode fd) b = (nulterminate c b)[ef := NUL]"
| "nulterminate (PIPE l r) b = nulterminate r (nulterminate l b)"
| "nulterminate (LIST l r) b = nulterminate r (nulterminate l b)"
| "nulterminate (BACK c) b = nulterminate c b"

text \<open>\<^verbatim>\<open>parsecmd\<close> returns the command and the buffer, in which the strings have been terminated.\<close>

definition parsecmd :: "string \<Rightarrow> (cmd \<times> string) res" where
  "parsecmd b =
     res_bind (parseline (4 * length b + 4) b 0) (\<lambda>(cmd, s).
     let (_, s) = peek b s []
     in if s \<noteq> length b then Panicked (printf ''leftovers: %s\<newline>'' [cstr 1 (drop s b)] @ ''syntax'')
        else Ok (cmd, nulterminate cmd (b @ [NUL])))"

section \<open>Running a command\<close>

text \<open>A running process as the tree of its system calls.  \<^verbatim>\<open>exec\<close> returns only when it fails; \<^verbatim>\<open>fork1\<close> branches into the
  child, the parent and the failure.\<close>

datatype prog =
    Exit
  | Exec string "string list" prog
  | Open string int "int \<Rightarrow> prog"
  | Close int prog
  | Dup int prog
  | Mkpipe "(int \<times> int) option \<Rightarrow> prog"
  | Fork prog prog prog
  | Wait prog
  | Chdir string "int \<Rightarrow> prog"
  | Print string prog

definition sh_panic :: "string \<Rightarrow> prog" where
  "sh_panic m = Print (printf ''%s\<newline>'' [cstr 1 m]) Exit"

definition fork1 :: "prog \<Rightarrow> prog \<Rightarrow> prog" where
  "fork1 child parent = Fork child parent (sh_panic ''fork'')"

text \<open>The string a pointer into the buffer points to.\<close>

definition text_at :: "string \<Rightarrow> nat \<Rightarrow> string" where
  "text_at b q = takeWhile (\<lambda>c. c \<noteq> NUL) (drop q b)"

primrec runcmd :: "string \<Rightarrow> cmd \<Rightarrow> prog" where
  "runcmd b (EXEC args) =
     (case args of
        [] \<Rightarrow> Exit
      | (q, _) # _ \<Rightarrow>
          Exec (text_at b q) (map (\<lambda>(q, _). text_at b q) args)
            (Print (printf ''exec %s failed\<newline>'' [cstr 1 (text_at b q)]) Exit))"
| "runcmd b (REDIR c f ef mode fd) =
     Close fd (Open (text_at b f) mode (\<lambda>r.
       if r < 0 then Print (printf ''open %s failed\<newline>'' [cstr 1 (text_at b f)]) Exit
       else runcmd b c))"
| "runcmd b (LIST l r) = fork1 (runcmd b l) (Wait (runcmd b r))"
| "runcmd b (PIPE l r) =
     Mkpipe (\<lambda>p. case p of
       None \<Rightarrow> sh_panic ''pipe''
     | Some (p0, p1) \<Rightarrow>
         fork1 (Close 1 (Dup p1 (Close p0 (Close p1 (runcmd b l)))))
           (fork1 (Close 0 (Dup p0 (Close p0 (Close p1 (runcmd b r)))))
             (Close p0 (Close p1 (Wait (Wait Exit))))))"
| "runcmd b (BACK c) = fork1 (runcmd b c) Exit"

section \<open>The command loop\<close>

definition run_line :: "string \<Rightarrow> prog" where
  "run_line b =
     (case parsecmd b of
        Ok (cmd, b') \<Rightarrow> runcmd b' cmd
      | Panicked m \<Rightarrow> sh_panic m
      | No_Fuel \<Rightarrow> Exit)"

definition getcmd :: "string \<Rightarrow> int" where
  "getcmd buf = (if at buf 0 = NUL then -1 else 0)"

text \<open>The loop of \<^verbatim>\<open>main\<close>, on the strings that successive calls of \<^verbatim>\<open>gets\<close> leave in the buffer; after the last of them the
  input has ended.\<close>

primrec sh_loop :: "string list \<Rightarrow> prog" where
  "sh_loop [] = Print ''$ '' Exit"
| "sh_loop (buf # reads) =
     Print ''$ '' (
       if getcmd buf < 0 then Exit
       else if at buf 0 = CHR ''c'' \<and> at buf 1 = CHR ''d'' \<and> at buf 2 = CHR '' '' then
         Chdir (drop 3 (butlast buf)) (\<lambda>r.
           if r < 0 then Print (printf ''cannot cd %s\<newline>'' [cstr 1 (drop 3 (butlast buf))]) (sh_loop reads)
           else sh_loop reads)
       else fork1 (run_line buf) (Wait (sh_loop reads)))"

text \<open>The first loop of \<^verbatim>\<open>main\<close> opens the console until the descriptors 0, 1 and 2 are taken.  The kernel returns the lowest free
  descriptor, so four rounds are enough (\<open>open_console_starts\<close> below).\<close>

primrec open_console :: "nat \<Rightarrow> prog \<Rightarrow> prog" where
  "open_console 0 k = Exit"
| "open_console (Suc n) k =
     Open ''console'' O_RDWR (\<lambda>fd.
       if fd < 0 then k
       else if fd \<ge> 3 then Close fd k
       else open_console n k)"

definition sh_main :: "string list \<Rightarrow> prog" where
  "sh_main reads = open_console 4 (sh_loop reads)"

section \<open>The parser returns\<close>

lemma peek_mono: "peek b s toks = (p, s') \<Longrightarrow> s \<le> s'"
  using skip_ws_mono by (auto simp: peek_def Let_def)

lemma gettoken_after: "gettoken b s = (tok, q, eq, s') \<Longrightarrow> s \<le> s'"
  using gettoken_mono [of s b] by simp

lemma parseredirs_stop: "peek b s ''<>'' = (False, s1) \<Longrightarrow> parseredirs b cmd s = Ok (cmd, s1)"
  by (subst parseredirs.simps) simp

lemma parseredirs_more:
  "peek b s ''<>'' = (True, s1) \<Longrightarrow> gettoken b s1 = (tok, q1, e1, s2) \<Longrightarrow> gettoken b s2 = (tok', q, eq, s3) \<Longrightarrow>
     parseredirs b cmd s = (if tok' \<noteq> CHR ''a'' then Panicked ''missing file for redirection'' else parseredirs b (redir tok cmd q eq) s3)"
  by (subst parseredirs.simps) simp

lemma parseredirs_returns:
  "parseredirs b cmd s \<noteq> No_Fuel \<and> (\<forall>cmd' s'. parseredirs b cmd s = Ok (cmd', s') \<longrightarrow> s \<le> s')"
proof (induction "length b - s" arbitrary: cmd s rule: less_induct)
  case less
  obtain more s1 where p: "peek b s ''<>'' = (more, s1)" by fastforce
  show ?case
  proof (cases more)
    case True
    obtain tok q1 e1 s2 where g: "gettoken b s1 = (tok, q1, e1, s2)" by (metis prod_cases4)
    obtain tok' q eq s3 where g': "gettoken b s2 = (tok', q, eq, s3)" by (metis prod_cases4)
    note m = peek_mono [OF p] gettoken_after [OF g] gettoken_after [OF g']
    have p': "peek b s ''<>'' = (True, s1)" using p True by simp
    note e = parseredirs_more [OF p' g g', of cmd]
    have "parseredirs b c s3 \<noteq> No_Fuel \<and> (\<forall>cmd' s'. parseredirs b c s3 = Ok (cmd', s') \<longrightarrow> s3 \<le> s')" for c
      by (rule less) (rule redirs_step, use p True g g' in auto)
    then show ?thesis using e m by (cases "tok' = CHR ''a''") (simp_all, meson le_trans)
  next
    case False
    then show ?thesis using parseredirs_stop [of b s s1 cmd] p peek_mono [OF p] by simp
  qed
qed

lemma parseargs_returns:
  "parseargs b argc cmd s \<noteq> No_Fuel \<and> (\<forall>cmd' s'. parseargs b argc cmd s = Ok (cmd', s') \<longrightarrow> s \<le> s')"
proof (induction b argc cmd s rule: parseargs.induct)
  case (1 b argc cmd s)
  obtain stop s1 where p: "peek b s ''|)&;'' = (stop, s1)" by fastforce
  obtain tok q eq s2 where g: "gettoken b s1 = (tok, q, eq, s2)" by (metis prod_cases4)
  have m: "s \<le> s1" "s1 \<le> s2" using peek_mono [OF p] gettoken_after [OF g] .
  have r: "parseredirs b c s2 \<noteq> No_Fuel" "parseredirs b c s2 = Ok (c', s3) \<Longrightarrow> s2 \<le> s3" for c c' s3
    using parseredirs_returns [of b c s2] by auto
  show ?case
  proof (cases "stop \<or> tok = NUL \<or> tok \<noteq> CHR ''a'' \<or> MAXARGS \<le> argc + 1")
    case True
    then show ?thesis using m by (subst (1 2) parseargs.simps) (auto simp: p g Let_def)
  next
    case False
    let ?c = "add_arg q eq cmd"
    have e: "parseargs b argc cmd s = res_bind (parseredirs b ?c s2) (\<lambda>(cmd, s). parseargs b (argc + 1) cmd s)"
      using False by (subst parseargs.simps) (simp add: p g Let_def)
    show ?thesis
    proof (cases "parseredirs b ?c s2")
      case (Ok x)
      obtain c s3 where x: "x = (c, s3)" by fastforce
      have "parseargs b (argc + 1) c s3 \<noteq> No_Fuel \<and> (\<forall>cmd' s'. parseargs b (argc + 1) c s3 = Ok (cmd', s') \<longrightarrow> s3 \<le> s')"
        using 1 [OF p [symmetric] refl] False g Ok x by (simp add: Let_def)
      moreover have "s \<le> s3" using m r(2) [of ?c c s3] Ok x by simp
      ultimately show ?thesis using e Ok x by (simp, meson le_trans)
    qed (use e r in auto)
  qed
qed

lemma parsebacks_stop: "peek b s ''&'' = (False, s1) \<Longrightarrow> parsebacks b cmd s = (cmd, s1)"
  by (subst parsebacks.simps) simp

lemma parsebacks_more:
  "peek b s ''&'' = (True, s1) \<Longrightarrow> parsebacks b cmd s = parsebacks b (BACK cmd) (after_token b s1)"
  by (subst parsebacks.simps) (simp split: prod.split)

lemma parsebacks_mono: "parsebacks b cmd s = (cmd', s') \<Longrightarrow> s \<le> s'"
proof (induction "length b - s" arbitrary: cmd s rule: less_induct)
  case less
  obtain more s1 where p: "peek b s ''&'' = (more, s1)" by fastforce
  show ?case
  proof (cases more)
    case True
    have p': "peek b s ''&'' = (True, s1)" using p True by simp
    have "length b - after_token b s1 < length b - s" using peek_True [OF p'] by simp
    then have "after_token b s1 \<le> s'" using less parsebacks_more [OF p', of cmd] by simp
    then show ?thesis using peek_True [OF p'] by simp
  next
    case False
    then show ?thesis using parsebacks_stop [of b s s1 cmd] p peek_mono [OF p] less.prems by simp
  qed
qed

text \<open>The functions of the grammar, with enough fuel for the characters left, return, and never before the point
  where they started.\<close>

definition returns_from :: "nat \<Rightarrow> (cmd \<times> nat) res \<Rightarrow> bool" where
  "returns_from s r \<longleftrightarrow> r \<noteq> No_Fuel \<and> (\<forall>cmd s'. r = Ok (cmd, s') \<longrightarrow> s \<le> s')"

lemma returns_from_bind:
  "returns_from s m \<Longrightarrow> (\<And>cmd s'. m = Ok (cmd, s') \<Longrightarrow> s \<le> s' \<Longrightarrow> returns_from s (f (cmd, s'))) \<Longrightarrow> returns_from s (res_bind m f)"
  by (cases m) (auto simp: returns_from_def)

lemma returns_from_mono: "returns_from s' r \<Longrightarrow> s \<le> s' \<Longrightarrow> returns_from s r"
  by (cases r) (auto simp: returns_from_def)

lemma returns_from_Ok [simp]: "returns_from s (Ok (cmd, s')) \<longleftrightarrow> s \<le> s'" "returns_from s (Panicked m)"
  by (simp_all add: returns_from_def)

lemma grammar_returns:
  "(4 * (length b - s) + 4 \<le> n \<longrightarrow> returns_from s (parseline n b s)) \<and> (4 * (length b - s) + 3 \<le> n \<longrightarrow> returns_from s (parsepipe n b s)) \<and>
   (4 * (length b - s) + 2 \<le> n \<longrightarrow> returns_from s (parseexec n b s)) \<and> (4 * (length b - s) + 1 \<le> n \<longrightarrow> returns_from s (parseblock n b s))"
proof (induction n arbitrary: s)
  case (Suc n)
  have later: "returns_from s (res_bind (P n b (after_token b s2)) (\<lambda>(r, s). Ok (F r, s)))"
    if "peek b s1 toks = (True, s2)" "s \<le> s1" and P: "4 * (length b - after_token b s2) + 4 \<le> n \<longrightarrow> returns_from (after_token b s2) (P n b (after_token b s2))"
      "4 * (length b - s) \<le> n" for P F s1 s2 toks
  proof -
    note p = peek_True [OF that(1)]
    have "4 * (length b - after_token b s2) + 4 \<le> n" using p that(2,4) by simp
    then have "returns_from s (P n b (after_token b s2))" using P(1) p that(2) by (auto intro: returns_from_mono)
    then show ?thesis by (rule returns_from_bind) simp
  qed
  have "returns_from s (parseline (Suc n) b s)" if f: "4 * (length b - s) + 4 \<le> Suc n"
    unfolding parseline.simps
  proof (rule returns_from_bind)
    show "returns_from s (parsepipe n b s)" using Suc.IH [of s] f by simp
    fix cmd s' assume s': "s \<le> s'"
    obtain c s1 where c: "parsebacks b cmd s' = (c, s1)" by fastforce
    obtain semi s2 where p: "peek b s1 '';'' = (semi, s2)" by fastforce
    have s1: "s \<le> s1" using parsebacks_mono [OF c] s' by simp
    show "returns_from s (case (cmd, s') of (cmd, s) \<Rightarrow> let (cmd, s) = parsebacks b cmd s; (semi, s) = peek b s '';''
       in if semi then res_bind (parseline n b (after_token b s)) (\<lambda>(r, s). Ok (LIST cmd r, s)) else Ok (cmd, s))"
      using later [of s1 "'';''" s2 parseline "LIST c"] p s1 peek_mono [OF p] Suc.IH [of "after_token b s2"] f by (auto simp: c Let_def)
  qed
  moreover have "returns_from s (parsepipe (Suc n) b s)" if f: "4 * (length b - s) + 3 \<le> Suc n"
    unfolding parsepipe.simps
  proof (rule returns_from_bind)
    show "returns_from s (parseexec n b s)" using Suc.IH [of s] f by simp
    fix cmd s1 assume s1: "s \<le> s1"
    obtain bar s2 where p: "peek b s1 ''|'' = (bar, s2)" by fastforce
    show "returns_from s (case (cmd, s1) of (cmd, s) \<Rightarrow> let (bar, s) = peek b s ''|''
       in if bar then res_bind (parsepipe n b (after_token b s)) (\<lambda>(r, s). Ok (PIPE cmd r, s)) else Ok (cmd, s))"
      using later [of s1 "''|''" s2 parsepipe "PIPE cmd"] p s1 peek_mono [OF p] Suc.IH [of "after_token b s2"] f by (auto simp: Let_def)
  qed
  moreover have "returns_from s (parseexec (Suc n) b s)" if f: "4 * (length b - s) + 2 \<le> Suc n"
  proof -
    obtain block s1 where p: "peek b s ''('' = (block, s1)" by fastforce
    have r: "returns_from s1 (parseredirs b c s1)" "returns_from s2 (parseargs b 0 c s2)" for c s2
      using parseredirs_returns [of b c s1] parseargs_returns [of b 0 c s2] by (simp_all add: returns_from_def)
    have "returns_from s1 (res_bind (parseredirs b (EXEC []) s1) (\<lambda>(cmd, s). parseargs b 0 cmd s))"
      by (rule returns_from_bind [OF r(1)]) (auto intro: returns_from_mono [OF r(2)])
    then show ?thesis
      using p peek_mono [OF p] Suc.IH [of s1] f by (auto simp: Let_def intro: returns_from_mono)
  qed
  moreover have "returns_from s (parseblock (Suc n) b s)" if f: "4 * (length b - s) + 1 \<le> Suc n"
  proof -
    obtain opn s1 where p: "peek b s ''('' = (opn, s1)" by fastforce
    show ?thesis
    proof (cases opn)
      case True
      then have p': "peek b s ''('' = (True, s1)" using p by simp
      note q = peek_True [OF p']
      have "returns_from s (res_bind (parseline n b (after_token b s1)) (\<lambda>(cmd, s). let (close, s) = peek b s '')''
           in if \<not> close then Panicked ''syntax - missing )'' else parseredirs b cmd (after_token b s)))"
      proof (rule returns_from_bind)
        show "returns_from s (parseline n b (after_token b s1))" using Suc.IH [of "after_token b s1"] f q by (auto intro: returns_from_mono)
        fix cmd s2 assume s2: "s \<le> s2"
        obtain cl s3 where p3: "peek b s2 '')'' = (cl, s3)" by fastforce
        have "s \<le> after_token b s3" using s2 peek_mono [OF p3] gettoken_mono [of s3 b] by simp
        then have "returns_from s (parseredirs b cmd (after_token b s3))"
          using parseredirs_returns [of b cmd "after_token b s3"] by (auto simp: returns_from_def)
        then show "returns_from s (case (cmd, s2) of (cmd, s) \<Rightarrow> let (close, s) = peek b s '')''
           in if \<not> close then Panicked ''syntax - missing )'' else parseredirs b cmd (after_token b s))" by (simp add: p3)
      qed
      then show ?thesis using p' by simp
    qed (use p in simp)
  qed
  ultimately show ?case by blast
qed simp

section \<open>What the parser returns\<close>

text \<open>The word that a token delimits: it is not empty, its characters are neither white space nor symbols, and it ends at
  such a character or at the end of the line.\<close>

definition word_char :: "char \<Rightarrow> bool" where
  "word_char c \<longleftrightarrow> c \<noteq> NUL \<and> \<not> is_ws c \<and> \<not> is_sym c"

definition is_token :: "string \<Rightarrow> nat \<times> nat \<Rightarrow> bool" where
  "is_token b = (\<lambda>(q, e). q < e \<and> e \<le> length b \<and> (\<forall>k. q \<le> k \<and> k < e \<longrightarrow> word_char (b ! k)) \<and> (e < length b \<longrightarrow> \<not> word_char (b ! e)))"

primrec well_formed :: "string \<Rightarrow> cmd \<Rightarrow> bool" where
  "well_formed b (EXEC args) \<longleftrightarrow> length args < MAXARGS \<and> (\<forall>a \<in> set args. is_token b a)"
| "well_formed b (REDIR c f ef mode fd) \<longleftrightarrow> well_formed b c \<and> is_token b (f, ef) \<and> ((mode, fd) = (O_RDONLY, 0) \<or> (mode, fd) = (O_WRONLY_CREATE, 1))"
| "well_formed b (PIPE l r) \<longleftrightarrow> well_formed b l \<and> well_formed b r"
| "well_formed b (LIST l r) \<longleftrightarrow> well_formed b l \<and> well_formed b r"
| "well_formed b (BACK c) \<longleftrightarrow> well_formed b c"

lemma skip_word_word:
  assumes "NUL \<notin> set b"
  shows "(\<forall>k. s \<le> k \<and> k < skip_word b s \<longrightarrow> word_char (b ! k)) \<and> (skip_word b s < length b \<longrightarrow> \<not> word_char (b ! skip_word b s))"
  using assms
proof (induction b s rule: skip_word.induct)
  case (1 b s)
  show ?case
  proof (cases "s < length b \<and> \<not> is_ws (at b s) \<and> \<not> is_sym (at b s)")
    case True
    then have e: "skip_word b s = skip_word b (s + 1)" by (intro skip_word_steps) simp_all
    have "b ! s \<noteq> NUL" using True 1(2) by (metis nth_mem)
    then have "word_char (b ! s)" using True by (auto simp: word_char_def at_def)
    then show ?thesis using 1(1) [OF True 1(2)] unfolding e by (metis Suc_eq_plus1 le_antisym not_less_eq_eq)
  next
    case False
    then have "skip_word b s = s" by (rule skip_word_steps)
    then show ?thesis using False by (auto simp: word_char_def at_def)
  qed
qed

lemma gettoken_word:
  assumes "NUL \<notin> set b" "gettoken b s = (CHR ''a'', q, eq, s')" "s \<le> length b"
  shows "is_token b (q, eq)"
proof -
  have q: "q = skip_ws b s" using assms(2) by (auto simp: gettoken_def Let_def split: if_splits)
  have n: "at b q \<noteq> NUL" "eq = skip_word b q" "\<not> is_sym (at b q)"
    using assms(2) by (auto simp: gettoken_def Let_def q symbols_def split: if_splits)
  have "q < eq"
    using token_end_gt [of b q] n(1) assms(2) q by (simp add: token_end_def gettoken_def Let_def split: if_splits)
  then show ?thesis
    using skip_word_word [OF assms(1), of q] skip_word_le [of q b] skip_ws_le [OF assms(3)] n(2) q by (simp add: is_token_def)
qed

lemma redir_token: "peek b s ''<>'' = (True, s1) \<Longrightarrow> gettoken b s1 = (tok, q1, e1, s2) \<Longrightarrow> tok = CHR ''<'' \<or> tok = CHR ''>'' \<or> tok = CHR ''+''"
  by (auto simp: peek_def gettoken_def Let_def split: if_splits)

lemma gettoken_le: "s \<le> length b \<Longrightarrow> gettoken b s = (tok, q, eq, s') \<Longrightarrow> s' \<le> length b"
proof -
  assume s: "s \<le> length b" and g: "gettoken b s = (tok, q, eq, s')"
  have q: "q = skip_ws b s" "q \<le> length b" using g skip_ws_le [OF s] by (auto simp: gettoken_def Let_def split: if_splits)
  have l: "q < length b" if "at b q \<noteq> NUL" using that q(2) by (auto simp: at_def split: if_splits)
  have "q + 1 < length b" if "at b (q + 1) \<noteq> NUL" using that by (auto simp: at_def split: if_splits)
  then have "eq \<le> length b" using g q l skip_word_le [of q b] by (auto simp: gettoken_def Let_def split: if_splits)
  moreover have "s' = skip_ws b eq" using g by (auto simp: gettoken_def Let_def split: if_splits)
  ultimately show ?thesis using skip_ws_le by simp
qed

lemma peek_le: "s \<le> length b \<Longrightarrow> peek b s toks = (p, s') \<Longrightarrow> s' \<le> length b"
  using skip_ws_le by (auto simp: peek_def Let_def)

text \<open>The results that are well formed, and where the rest of the line starts.\<close>

definition good_res :: "string \<Rightarrow> (cmd \<times> nat) res \<Rightarrow> bool" where
  "good_res b r \<longleftrightarrow> (\<forall>cmd s. r = Ok (cmd, s) \<longrightarrow> well_formed b cmd \<and> s \<le> length b)"

lemma good_res_bind: "good_res b m \<Longrightarrow> (\<And>cmd s. well_formed b cmd \<Longrightarrow> s \<le> length b \<Longrightarrow> good_res b (f (cmd, s))) \<Longrightarrow> good_res b (res_bind m f)"
proof (cases m)
  case (Ok x)
  then show "good_res b m \<Longrightarrow> (\<And>cmd s. well_formed b cmd \<Longrightarrow> s \<le> length b \<Longrightarrow> good_res b (f (cmd, s))) \<Longrightarrow> good_res b (res_bind m f)"
    unfolding good_res_def by (cases x) auto
qed (simp_all add: good_res_def)

lemma good_res_simps [simp]: "good_res b (Ok (cmd, s)) \<longleftrightarrow> well_formed b cmd \<and> s \<le> length b" "good_res b (Panicked m)" "good_res b No_Fuel"
  by (auto simp: good_res_def)

text \<open>Redirections around a command; the number of arguments below them.\<close>

primrec arg_count :: "cmd \<Rightarrow> nat" where
  "arg_count (EXEC args) = length args"
| "arg_count (REDIR c f ef mode fd) = arg_count c"
| "arg_count (PIPE l r) = 0"
| "arg_count (LIST l r) = 0"
| "arg_count (BACK c) = 0"

lemma redir_arg_count [simp]: "arg_count (redir tok cmd q eq) = arg_count cmd"
  by (simp add: redir_def)

lemma add_arg_good:
  "well_formed b cmd \<Longrightarrow> is_token b (q, eq) \<Longrightarrow> arg_count cmd + 1 < MAXARGS \<Longrightarrow> well_formed b (add_arg q eq cmd) \<and> arg_count (add_arg q eq cmd) \<le> arg_count cmd + 1"
  by (induction cmd) auto

lemma parseredirs_good:
  assumes "NUL \<notin> set b"
  shows "well_formed b cmd \<Longrightarrow> s \<le> length b \<Longrightarrow> good_res b (parseredirs b cmd s) \<and> (\<forall>c s'. parseredirs b cmd s = Ok (c, s') \<longrightarrow> arg_count c = arg_count cmd)"
proof (induction "length b - s" arbitrary: cmd s rule: less_induct)
  case less
  obtain more s1 where p: "peek b s ''<>'' = (more, s1)" by fastforce
  show ?case
  proof (cases more)
    case True
    then have p': "peek b s ''<>'' = (True, s1)" using p by simp
    obtain tok q1 e1 s2 where g: "gettoken b s1 = (tok, q1, e1, s2)" by (metis prod_cases4)
    obtain tok' q eq s3 where g': "gettoken b s2 = (tok', q, eq, s3)" by (metis prod_cases4)
    have l: "s1 \<le> length b" "s2 \<le> length b" "s3 \<le> length b"
      using peek_le [OF less.prems(2) p] gettoken_le [OF _ g] gettoken_le [OF _ g'] by blast+
    show ?thesis
    proof (cases "tok' = CHR ''a''")
      case True
      have "well_formed b (redir tok cmd q eq)"
        using redir_token [OF p' g] less.prems(1) gettoken_word [OF assms] g' l(2) True by (auto simp: redir_def)
      from less.hyps [OF redirs_step [OF p' g g'] this l(3)] show ?thesis
        using parseredirs_more [OF p' g g', of cmd] True by simp
    qed (use parseredirs_more [OF p' g g', of cmd] in simp)
  next
    case False
    then show ?thesis using parseredirs_stop [of b s s1 cmd] p peek_le [OF less.prems(2) p] less.prems(1) by simp
  qed
qed

lemma parseargs_good:
  assumes "NUL \<notin> set b"
  shows "well_formed b cmd \<Longrightarrow> arg_count cmd \<le> argc \<Longrightarrow> s \<le> length b \<Longrightarrow> good_res b (parseargs b argc cmd s)"
proof (induction "MAXARGS - argc" arbitrary: argc cmd s rule: less_induct)
  case less
  obtain stop s1 where p: "peek b s ''|)&;'' = (stop, s1)" by fastforce
  obtain tok q eq s2 where g: "gettoken b s1 = (tok, q, eq, s2)" by (metis prod_cases4)
  have l: "s1 \<le> length b" "s2 \<le> length b" using peek_le [OF less.prems(3) p] gettoken_le [OF _ g] by blast+
  show ?case
  proof (cases "stop \<or> tok = NUL \<or> tok \<noteq> CHR ''a'' \<or> MAXARGS \<le> argc + 1")
    case True
    then show ?thesis using l less.prems by (subst parseargs.simps) (auto simp: p g Let_def)
  next
    case False
    have "is_token b (q, eq)" using gettoken_word [OF assms _ l(1)] g False by auto
    then have c: "well_formed b (add_arg q eq cmd)" "arg_count (add_arg q eq cmd) \<le> argc + 1"
      using add_arg_good [OF less.prems(1)] less.prems(2) False by fastforce+
    have "good_res b (res_bind (parseredirs b (add_arg q eq cmd) s2) (\<lambda>(cmd, s). parseargs b (argc + 1) cmd s))"
    proof (cases "parseredirs b (add_arg q eq cmd) s2")
      case (Ok x)
      obtain c' s3 where x: "x = (c', s3)" by fastforce
      have "well_formed b c'" "arg_count c' \<le> argc + 1" "s3 \<le> length b" using parseredirs_good [OF assms c(1) l(2)] Ok x c(2) by auto
      then have "good_res b (parseargs b (argc + 1) c' s3)" by (intro less.hyps) (use False in auto)
      then show ?thesis using Ok x by simp
    qed simp_all
    then show ?thesis using False by (subst parseargs.simps) (simp add: p g Let_def)
  qed
qed

lemma parsebacks_good:
  "well_formed b cmd \<Longrightarrow> s \<le> length b \<Longrightarrow> parsebacks b cmd s = (cmd', s') \<Longrightarrow> well_formed b cmd' \<and> s' \<le> length b"
proof (induction "length b - s" arbitrary: cmd s rule: less_induct)
  case less
  obtain more s1 where p: "peek b s ''&'' = (more, s1)" by fastforce
  show ?case
  proof (cases more)
    case True
    then have p': "peek b s ''&'' = (True, s1)" using p by simp
    obtain tok q e s2 where g: "gettoken b s1 = (tok, q, e, s2)" by (metis prod_cases4)
    have "s2 \<le> length b" using gettoken_le [OF peek_le [OF less.prems(2) p] g] .
    moreover have "length b - s2 < length b - s" using backs_step [OF p' g] .
    ultimately show ?thesis using less.hyps [of s2 "BACK cmd"] less.prems parsebacks_more [OF p', of cmd] g by simp
  next
    case False
    then show ?thesis using parsebacks_stop [of b s s1 cmd] p peek_le [OF less.prems(2) p] less.prems by simp
  qed
qed

lemma grammar_good:
  assumes b: "NUL \<notin> set b"
  shows "s \<le> length b \<longrightarrow> good_res b (parseline n b s) \<and> good_res b (parsepipe n b s) \<and> good_res b (parseexec n b s) \<and> good_res b (parseblock n b s)"
proof (induction n arbitrary: s)
  case (Suc n)
  have after: "after_token b s' \<le> length b" if "s' \<le> length b" for s' using gettoken_le [OF that] by (metis prod.collapse)
  have line: "good_res b (parseline (Suc n) b s)" if s: "s \<le> length b"
    unfolding parseline.simps
  proof (rule good_res_bind)
    show "good_res b (parsepipe n b s)" using Suc.IH s by blast
    fix cmd s' assume c: "well_formed b cmd" "s' \<le> length b"
    obtain c1 s1 where c1: "parsebacks b cmd s' = (c1, s1)" by fastforce
    obtain semi s2 where p: "peek b s1 '';'' = (semi, s2)" by fastforce
    have g: "well_formed b c1" "s1 \<le> length b" "s2 \<le> length b" using parsebacks_good [OF c c1] peek_le [OF _ p] by blast+
    have "good_res b (res_bind (parseline n b (after_token b s2)) (\<lambda>(r, s). Ok (LIST c1 r, s)))"
      by (rule good_res_bind) (use Suc.IH after [OF g(3)] g(1) in auto)
    then show "good_res b (case (cmd, s') of (cmd, s) \<Rightarrow> let (cmd, s) = parsebacks b cmd s; (semi, s) = peek b s '';''
       in if semi then res_bind (parseline n b (after_token b s)) (\<lambda>(r, s). Ok (LIST cmd r, s)) else Ok (cmd, s))"
      using g by (simp add: c1 p)
  qed
  have pipe: "good_res b (parsepipe (Suc n) b s)" if s: "s \<le> length b"
    unfolding parsepipe.simps
  proof (rule good_res_bind)
    show "good_res b (parseexec n b s)" using Suc.IH s by blast
    fix cmd s1 assume c: "well_formed b cmd" "s1 \<le> length b"
    obtain bar s2 where p: "peek b s1 ''|'' = (bar, s2)" by fastforce
    have g: "s2 \<le> length b" by (rule peek_le [OF c(2) p])
    have "good_res b (res_bind (parsepipe n b (after_token b s2)) (\<lambda>(r, s). Ok (PIPE cmd r, s)))"
      by (rule good_res_bind) (use Suc.IH after [OF g] c in auto)
    then show "good_res b (case (cmd, s1) of (cmd, s) \<Rightarrow> let (bar, s) = peek b s ''|''
       in if bar then res_bind (parsepipe n b (after_token b s)) (\<lambda>(r, s). Ok (PIPE cmd r, s)) else Ok (cmd, s))"
      using g c by (simp add: p)
  qed
  have exec: "good_res b (parseexec (Suc n) b s)" if s: "s \<le> length b"
  proof -
    obtain block s1 where p: "peek b s ''('' = (block, s1)" by fastforce
    have s1: "s1 \<le> length b" by (rule peek_le [OF s p])
    have "good_res b (res_bind (parseredirs b (EXEC []) s1) (\<lambda>(cmd, s). parseargs b 0 cmd s))"
    proof (cases "parseredirs b (EXEC []) s1")
      case (Ok x)
      obtain c s2 where x: "x = (c, s2)" by fastforce
      have "well_formed b c" "arg_count c \<le> 0" "s2 \<le> length b" using parseredirs_good [OF b, of "EXEC []" s1] s1 Ok x by auto
      then show ?thesis using parseargs_good [OF b] Ok x by simp
    qed simp_all
    then show ?thesis using Suc.IH [of s1] s1 p by simp
  qed
  have "good_res b (parseblock (Suc n) b s)" if s: "s \<le> length b"
  proof -
    obtain opn s1 where p: "peek b s ''('' = (opn, s1)" by fastforce
    have s1: "s1 \<le> length b" by (rule peek_le [OF s p])
    have "good_res b (res_bind (parseline n b (after_token b s1)) (\<lambda>(cmd, s). let (close, s) = peek b s '')''
           in if \<not> close then Panicked ''syntax - missing )'' else parseredirs b cmd (after_token b s)))"
    proof (rule good_res_bind)
      show "good_res b (parseline n b (after_token b s1))" using Suc.IH after [OF s1] by blast
      fix cmd s2 assume c: "well_formed b cmd" "s2 \<le> length b"
      obtain cl s3 where p3: "peek b s2 '')'' = (cl, s3)" by fastforce
      show "good_res b (case (cmd, s2) of (cmd, s) \<Rightarrow> let (close, s) = peek b s '')''
           in if \<not> close then Panicked ''syntax - missing )'' else parseredirs b cmd (after_token b s))"
        using parseredirs_good [OF b c(1) after [OF peek_le [OF c(2) p3]]] by (simp add: p3)
    qed
    then show ?thesis using p by simp
  qed
  with line pipe exec show ?case by blast
qed simp

text \<open>Terminating the strings: after \<^verbatim>\<open>nulterminate\<close> a pointer to the first character of a token points to the whole token
  and no more.\<close>

primrec tokens :: "cmd \<Rightarrow> (nat \<times> nat) list" where
  "tokens (EXEC args) = args"
| "tokens (REDIR c f ef mode fd) = tokens c @ [(f, ef)]"
| "tokens (PIPE l r) = tokens l @ tokens r"
| "tokens (LIST l r) = tokens l @ tokens r"
| "tokens (BACK c) = tokens c"

lemma well_formed_tokens: "well_formed b c \<Longrightarrow> a \<in> set (tokens c) \<Longrightarrow> is_token b a"
  by (induction c) auto

lemma nulterminate_foldl: "nulterminate c b = foldl (\<lambda>b (_, eq). b[eq := NUL]) b (tokens c)"
  by (induction c arbitrary: b) simp_all

lemma foldl_nul:
  "length (foldl (\<lambda>b (_, eq). b[eq := NUL]) b ts) = length b"
  "k < length b \<Longrightarrow> foldl (\<lambda>b (_, eq). b[eq := NUL]) b ts ! k = (if \<exists>q. (q, k) \<in> set ts then NUL else b ! k)"
proof -
  show "length (foldl (\<lambda>b (_, eq). b[eq := NUL]) b ts) = length b" by (induction ts arbitrary: b) auto
  show "k < length b \<Longrightarrow> foldl (\<lambda>b (_, eq). b[eq := NUL]) b ts ! k = (if \<exists>q. (q, k) \<in> set ts then NUL else b ! k)"
  proof (induction ts arbitrary: b)
    case (Cons t ts)
    obtain q e where t: "t = (q, e)" by fastforce
    have "foldl (\<lambda>b (_, eq). b[eq := NUL]) (b[e := NUL]) ts ! k = (if \<exists>q. (q, k) \<in> set ts then NUL else b[e := NUL] ! k)"
      using Cons by simp
    then show ?case using Cons.prems t by (cases "e = k") auto
  qed simp
qed

lemma nulterminate_text:
  assumes w: "\<forall>a \<in> set (tokens c). is_token b a" and t: "(q, e) \<in> set (tokens c)"
  shows "text_at (nulterminate c (b @ [NUL])) q = take (e - q) (drop q b)"
proof -
  let ?b = "nulterminate c (b @ [NUL])"
  have qe: "q < e" "e \<le> length b" "\<And>k. q \<le> k \<Longrightarrow> k < e \<Longrightarrow> word_char (b ! k)" using w t by (auto simp: is_token_def)
  have len: "length ?b = Suc (length b)" by (simp add: nulterminate_foldl foldl_nul)
  have nth: "?b ! k = (if \<exists>q. (q, k) \<in> set (tokens c) then NUL else (b @ [NUL]) ! k)" if "k < Suc (length b)" for k
    using that foldl_nul(2) [of k "b @ [NUL]" "tokens c"] by (simp add: nulterminate_foldl)
  have in_word: "?b ! k = b ! k" "b ! k \<noteq> NUL" if k: "q \<le> k" "k < e" for k
  proof -
    have "\<not> (\<exists>q'. (q', k) \<in> set (tokens c))" using w qe(3) [OF k] qe(2) k by (fastforce simp: is_token_def)
    then show "?b ! k = b ! k" using nth [of k] k qe(2) by (simp add: nth_append)
    show "b ! k \<noteq> NUL" using qe(3) [OF k] by (simp add: word_char_def)
  qed
  have "?b ! e = NUL" using nth [of e] qe(2) t by auto
  moreover have "take (e - q) (drop q ?b) = take (e - q) (drop q b)"
    by (rule nth_equalityI) (use qe(1,2) len in_word in auto)
  moreover have "drop (e - q) (drop q ?b) = ?b ! e # drop (Suc e) ?b"
    using qe(1,2) len by (simp add: Cons_nth_drop_Suc)
  ultimately have "drop q ?b = take (e - q) (drop q b) @ NUL # drop (Suc e) ?b" by (metis append_take_drop_id)
  moreover have "\<forall>c \<in> set (take (e - q) (drop q b)). c \<noteq> NUL"
    using in_word(2) qe(1,2) by (auto simp: in_set_conv_nth)
  ultimately show ?thesis unfolding text_at_def by (simp add: takeWhile_append2)
qed

section \<open>Printing and parsing\<close>

text \<open>Commands with their words, as the child that runs one sees them in the buffer, and how such a command is written.  The
  number is the context: a line (0), what stands before a semicolon (1), a pipeline (2), or a part of a pipeline (3); in a context that
  does not allow it a command is put in parentheses.\<close>

datatype shcmd =
    Run "string list"
  | Redirect shcmd string int int
  | Pipeline shcmd shcmd
  | Sequence shcmd shcmd
  | Background shcmd

primrec seen :: "string \<Rightarrow> cmd \<Rightarrow> shcmd" where
  "seen b (EXEC args) = Run (map (\<lambda>(q, _). text_at b q) args)"
| "seen b (REDIR c f ef mode fd) = Redirect (seen b c) (text_at b f) mode fd"
| "seen b (PIPE l r) = Pipeline (seen b l) (seen b r)"
| "seen b (LIST l r) = Sequence (seen b l) (seen b r)"
| "seen b (BACK c) = Background (seen b c)"

primrec sliced :: "string \<Rightarrow> cmd \<Rightarrow> shcmd" where
  "sliced b (EXEC args) = Run (map (\<lambda>(q, e). take (e - q) (drop q b)) args)"
| "sliced b (REDIR c f ef mode fd) = Redirect (sliced b c) (take (ef - f) (drop f b)) mode fd"
| "sliced b (PIPE l r) = Pipeline (sliced b l) (sliced b r)"
| "sliced b (LIST l r) = Sequence (sliced b l) (sliced b r)"
| "sliced b (BACK c) = Background (sliced b c)"

definition show_words :: "string list \<Rightarrow> string" where
  "show_words ws = concat (map (\<lambda>w. w @ '' '') ws)"

definition show_redir :: "string \<times> int \<times> int \<Rightarrow> string" where
  "show_redir = (\<lambda>(f, mode, fd). (if fd = 0 then ''< '' else ''> '') @ f @ '' '')"

definition in_parens :: "bool \<Rightarrow> string \<Rightarrow> string" where
  "in_parens p x = (if p then ''( '' @ x @ '') '' else x)"

primrec show_cmd :: "nat \<Rightarrow> shcmd \<Rightarrow> string" where
  "show_cmd l (Run ws) = show_words ws"
| "show_cmd l (Redirect c f mode fd) = show_cmd 3 c @ show_redir (f, mode, fd)"
| "show_cmd l (Pipeline x y) = in_parens (2 < l) (show_cmd 3 x @ ''| '' @ show_cmd 2 y)"
| "show_cmd l (Background c) = in_parens (1 < l) (show_cmd 1 c @ ''& '')"
| "show_cmd l (Sequence x y) = in_parens (0 < l) (show_cmd 1 x @ ''; '' @ show_cmd 0 y)"

definition is_word :: "string \<Rightarrow> bool" where
  "is_word w \<longleftrightarrow> w \<noteq> [] \<and> list_all word_char w"

definition is_redir :: "string \<times> int \<times> int \<Rightarrow> bool" where
  "is_redir = (\<lambda>(f, mode, fd). is_word f \<and> ((mode, fd) = (O_RDONLY, 0) \<or> (mode, fd) = (O_WRONLY_CREATE, 1)))"

primrec printable :: "shcmd \<Rightarrow> bool" where
  "printable (Run ws) \<longleftrightarrow> length ws < MAXARGS \<and> list_all is_word ws"
| "printable (Redirect c f mode fd) \<longleftrightarrow> printable c \<and> is_redir (f, mode, fd)"
| "printable (Pipeline x y) \<longleftrightarrow> printable x \<and> printable y"
| "printable (Sequence x y) \<longleftrightarrow> printable x \<and> printable y"
| "printable (Background c) \<longleftrightarrow> printable c"

text \<open>The parser stands before \<open>r\<close>, which is empty or starts with a token.\<close>

definition before :: "string \<Rightarrow> nat \<Rightarrow> string \<Rightarrow> bool" where
  "before b s r \<longleftrightarrow> s \<le> length b \<and> drop s b = r \<and> NUL \<notin> set r \<and> (r \<noteq> [] \<longrightarrow> \<not> is_ws (hd r))"

lemma before_at: "drop s b = r \<Longrightarrow> at b s = (case r of [] \<Rightarrow> NUL | c # _ \<Rightarrow> c)"
  by (cases "s < length b") (auto simp: at_def hd_drop_conv_nth [symmetric] split: list.split)

lemma before_skip: "before b s r \<Longrightarrow> skip_ws b s = s"
  by (rule skip_ws_steps(2)) (auto simp: before_def hd_drop_conv_nth [symmetric] at_def)

lemma before_length: "before b s r \<Longrightarrow> length b = s + length r"
  by (auto simp: before_def)

lemma peek_before: "before b s r \<Longrightarrow> peek b s toks = (r \<noteq> [] \<and> strchr toks (hd r) \<noteq> None, s)"
  using before_skip [of b s r] before_at [of s b r] by (auto simp: peek_def before_def split: list.splits)

lemma drop_Cons_next: "drop s b = c # r \<Longrightarrow> drop (s + 1) b = r"
  by (metis Suc_eq_plus1 drop_Suc list.sel(3) tl_drop)

text \<open>Tokens are followed by one space.\<close>

lemma skip_space:
  assumes "drop s b = CHR '' '' # r" "r \<noteq> [] \<longrightarrow> \<not> is_ws (hd r)" "NUL \<notin> set r"
  shows "skip_ws b s = s + 1" "before b (s + 1) r"
proof -
  have l: "s < length b" using assms(1) by (metis drop_all list.distinct(1) not_le)
  have at: "at b s = CHR '' ''" using before_at [OF assms(1)] by simp
  have d: "drop (s + 1) b = r" by (rule drop_Cons_next [OF assms(1)])
  then show b: "before b (s + 1) r" using assms(2,3) l by (auto simp: before_def)
  show "skip_ws b s = s + 1" using skip_ws_steps(1) [OF l] before_skip [OF b] at by (simp add: whitespace_def)
qed

lemma gettoken_symbol:
  assumes "before b s (c # CHR '' '' # r)" "r \<noteq> [] \<longrightarrow> \<not> is_ws (hd r)" "c \<in> set symbols"
  shows "gettoken b s = (c, s, s + 1, s + 2)" "before b (s + 2) r"
proof -
  have d: "drop (s + 1) b = CHR '' '' # r" "NUL \<notin> set r" "at b s = c"
    using assms(1) before_at [of s b] drop_Cons_next [of s b c] by (auto simp: before_def)
  note sk = skip_space [OF d(1) assms(2) d(2)]
  have "at b (s + 1) = CHR '' ''" using before_at [OF d(1)] by simp
  then show "gettoken b s = (c, s, s + 1, s + 2)"
    using assms(3) d(3) before_skip [OF assms(1)] sk(1) by (auto simp: gettoken_def Let_def symbols_def)
  show "before b (s + 2) r" using sk(2) by (simp add: numeral_2_eq_2)
qed

lemma skip_word_append:
  "drop s b = w @ CHR '' '' # r \<Longrightarrow> list_all word_char w \<Longrightarrow> skip_word b s = s + length w"
proof (induction w arbitrary: s)
  case Nil
  then have "at b s = CHR '' ''" using before_at [of s b] by simp
  then show ?case by (simp add: skip_word_steps(2) whitespace_def)
next
  case (Cons c w)
  have l: "s < length b" using Cons.prems(1) by (metis append_Cons drop_all list.distinct(1) not_le)
  have "drop (s + 1) b = w @ CHR '' '' # r" using drop_Cons_next [of s b c] Cons.prems(1) by simp
  moreover have "at b s = c" using before_at [OF Cons.prems(1)] by simp
  ultimately show ?case using Cons l skip_word_steps(1) [OF l] by (simp add: word_char_def)
qed

lemma gettoken_shown_word:
  assumes "before b s (w @ CHR '' '' # r)" "is_word w" "r \<noteq> [] \<longrightarrow> \<not> is_ws (hd r)"
  shows "gettoken b s = (CHR ''a'', s, s + length w, s + length w + 1)" "before b (s + length w + 1) r"
    "take (s + length w - s) (drop s b) = w"
proof -
  have d: "drop s b = w @ CHR '' '' # r" "NUL \<notin> set r" using assms(1) by (auto simp: before_def)
  have d': "drop (s + length w) b = CHR '' '' # r" using d(1) by (metis add.commute append_eq_conv_conj drop_drop)
  note sk = skip_space [OF d' assms(3) d(2)]
  obtain c w' where w: "w = c # w'" "word_char c" using assms(2) by (cases w) (auto simp: is_word_def)
  have "at b s = c" using before_at [OF d(1)] w by simp
  then show "gettoken b s = (CHR ''a'', s, s + length w, s + length w + 1)"
    using w(2) before_skip [OF assms(1)] skip_word_append [OF d(1)] assms(2) sk(1)
    by (auto simp: gettoken_def Let_def word_char_def symbols_def is_word_def)
  show "before b (s + length w + 1) r" by (rule sk(2))
  show "take (s + length w - s) (drop s b) = w" using d(1) by simp
qed

text \<open>What may follow: nothing, or one of the given symbols.\<close>

definition follows :: "string \<Rightarrow> string \<Rightarrow> bool" where
  "follows syms r \<longleftrightarrow> r = [] \<or> hd r \<in> set syms"

lemma follows_Cons [simp]: "follows syms (c # r) \<longleftrightarrow> c \<in> set syms"
  by (simp add: follows_def)

lemma follows_mono: "follows syms r \<Longrightarrow> set syms \<subseteq> set syms' \<Longrightarrow> follows syms' r"
  by (auto simp: follows_def)

lemma follows_ws: "follows syms r \<Longrightarrow> set syms \<subseteq> set symbols \<Longrightarrow> r \<noteq> [] \<longrightarrow> \<not> is_ws (hd r)"
proof -
  have "\<forall>c \<in> set symbols. \<not> is_ws c" by code_simp
  then show "follows syms r \<Longrightarrow> set syms \<subseteq> set symbols \<Longrightarrow> r \<noteq> [] \<longrightarrow> \<not> is_ws (hd r)" by (auto simp: follows_def)
qed

lemma strchr_None: "strchr s c = None \<longleftrightarrow> c \<notin> set s"
  by (induction s) auto

lemma peek_follows:
  "before b s r \<Longrightarrow> follows syms r \<Longrightarrow> set syms \<inter> set toks = {} \<Longrightarrow> peek b s toks = (False, s)"
  using peek_before [of b s r toks] by (auto simp: follows_def strchr_None)

text \<open>What is shown starts with a symbol or a word.\<close>

lemma starts_ok:
  "is_word w \<Longrightarrow> \<not> is_ws (hd (w @ x))" "is_word w \<Longrightarrow> w @ x \<noteq> []"
  by (cases w; auto simp: is_word_def word_char_def)+

lemma hd_show_redirs:
  "follows ''|)&;'' r \<Longrightarrow> follows ''<>|)&;'' (concat (map show_redir rs) @ r)"
  by (cases rs) (auto simp: show_redir_def follows_def split: if_splits prod.splits)

abbreviation redirects :: "shcmd \<Rightarrow> (string \<times> int \<times> int) list \<Rightarrow> shcmd" where
  "redirects d rs \<equiv> foldl (\<lambda>d (f, mode, fd). Redirect d f mode fd) d rs"

lemma parse_shown_redirs:
  assumes "list_all is_redir rs" "follows ''|)&;'' r" "before b s (concat (map show_redir rs) @ r)"
  shows "\<exists>c' s'. parseredirs b c s = Ok (c', s') \<and> before b s' r \<and> sliced b c' = redirects (sliced b c) rs"
  using assms
proof (induction rs arbitrary: c s)
  case Nil
  then have "peek b s ''<>'' = (False, s)" using peek_follows [of b s r "''|)&;''" "''<>''"] by simp
  from parseredirs_stop [OF this] show ?case using Nil by simp
next
  case (Cons x rs)
  obtain f mode fd where x: "x = (f, mode, fd)" by (cases x)
  let ?t = "if fd = 0 then CHR ''<'' else CHR ''>''" and ?r = "concat (map show_redir rs) @ r"
  have w: "is_word f" and m: "(mode, fd) = (O_RDONLY, 0) \<or> (mode, fd) = (O_WRONLY_CREATE, 1)" using Cons.prems(1) x by (auto simp: is_redir_def)
  have r: "?r \<noteq> [] \<longrightarrow> \<not> is_ws (hd ?r)" by (rule follows_ws [OF hd_show_redirs [OF Cons.prems(2)]]) (auto simp: symbols_def)
  have b0: "before b s (?t # CHR '' '' # f @ CHR '' '' # ?r)" using Cons.prems(3) x by (cases "fd = 0") (simp_all add: show_redir_def)
  have g: "gettoken b s = (?t, s, s + 1, s + 2)" "before b (s + 2) (f @ CHR '' '' # ?r)"
    by (rule gettoken_symbol [OF b0]; use starts_ok [OF w] in \<open>simp add: symbols_def\<close>)+
  note g' = gettoken_shown_word [OF g(2) w r]
  have p: "peek b s ''<>'' = (True, s)" using peek_before [OF b0] by simp
  have "parseredirs b c s = parseredirs b (redir ?t c (s + 2) (s + 2 + length f)) (s + 2 + length f + 1)"
    using parseredirs_more [OF p g(1) g'(1)] by simp
  moreover have "sliced b (redir ?t c (s + 2) (s + 2 + length f)) = Redirect (sliced b c) f mode fd"
    using m g'(3) by (auto simp: redir_def)
  ultimately show ?case
    using Cons.IH [OF _ Cons.prems(2) g'(2), of "redir ?t c (s + 2) (s + 2 + length f)"] Cons.prems(1) x by simp
qed

lemma parse_shown_words:
  assumes "list_all is_word ws" "list_all is_redir rs" "follows ''|)&;'' r" "argc + length ws < MAXARGS"
    and "before b s (show_words ws @ concat (map show_redir rs) @ r)"
  shows "\<exists>c' s'. res_bind (parseredirs b (EXEC as) s) (\<lambda>(cmd, s). parseargs b argc cmd s) = Ok (c', s') \<and> before b s' r \<and>
     sliced b c' = redirects (case sliced b (EXEC as) of Run us \<Rightarrow> Run (us @ ws)) rs"
  using assms
proof (induction ws arbitrary: as argc s)
  case Nil
  then obtain c' s' where c: "parseredirs b (EXEC as) s = Ok (c', s')" "before b s' r" "sliced b c' = redirects (sliced b (EXEC as)) rs"
    using parse_shown_redirs [of rs r b s "EXEC as"] by (auto simp: show_words_def)
  have "parseargs b argc c' s' = Ok (c', s')"
  proof (cases "r = []")
    case True
    then have "gettoken b s' = (NUL, s', s', s')" "peek b s' ''|)&;'' = (False, s')"
      using c(2) before_skip [OF c(2)] before_at [of s' b r] peek_before [OF c(2)] by (auto simp: gettoken_def before_def)
    then show ?thesis by (subst parseargs.simps) simp
  next
    case False
    then have "peek b s' ''|)&;'' = (True, s')" using c(2) Nil.prems(3) peek_before [OF c(2)] by (auto simp: follows_def)
    then show ?thesis by (subst parseargs.simps) simp
  qed
  then show ?case using c by simp
next
  case (Cons w ws)
  let ?r = "show_words ws @ concat (map show_redir rs) @ r"
  have w: "is_word w" using Cons.prems(1) by simp
  have b: "before b s (w @ CHR '' '' # ?r)" using Cons.prems(5) by (simp add: show_words_def)
  have r: "?r \<noteq> [] \<longrightarrow> \<not> is_ws (hd ?r)"
  proof (cases ws)
    case Nil
    then show ?thesis using follows_ws [OF hd_show_redirs [OF Cons.prems(3)], of rs] by (simp add: show_words_def symbols_def)
  next
    case (Cons v vs)
    then show ?thesis using Cons.prems(1) starts_ok(1) [of v] by (simp add: show_words_def)
  qed
  note g = gettoken_shown_word [OF b w r]
  obtain c0 w' where w0: "w = c0 # w'" "word_char c0" using w by (cases w) (auto simp: is_word_def)
  have pk: "peek b s ''<>'' = (False, s)" "peek b s ''|)&;'' = (False, s)"
    using peek_before [OF b] w0 by (auto simp: word_char_def symbols_def)
  have "parseargs b argc (EXEC as) s =
      res_bind (parseredirs b (EXEC (as @ [(s, s + length w)])) (s + length w + 1)) (\<lambda>(cmd, s). parseargs b (argc + 1) cmd s)"
    using Cons.prems(4) by (subst parseargs.simps) (simp add: pk g(1) Let_def)
  then show ?case
    using Cons.IH [of "argc + 1" "s + length w + 1" "as @ [(s, s + length w)]"] Cons.prems g parseredirs_stop [OF pk(1)] by simp
qed

text \<open>What the functions of the grammar make of a shown command.  Before the ampersands have been read, \<^verbatim>\<open>parseline\<close> has the
  pipeline only.\<close>

definition execs :: "shcmd \<Rightarrow> bool" where
  "execs t \<longleftrightarrow> (\<forall>b s r rs n. before b s (show_cmd 3 t @ concat (map show_redir rs) @ r) \<longrightarrow> list_all is_redir rs \<longrightarrow> follows ''|)&;'' r \<longrightarrow>
     4 * (length b - s) + 2 \<le> n \<longrightarrow> (\<exists>c s'. parseexec n b s = Ok (c, s') \<and> before b s' r \<and> sliced b c = redirects t rs))"

definition pipes :: "shcmd \<Rightarrow> bool" where
  "pipes t \<longleftrightarrow> (\<forall>b s r n. before b s (show_cmd 2 t @ r) \<longrightarrow> follows '')&;'' r \<longrightarrow>
     4 * (length b - s) + 3 \<le> n \<longrightarrow> (\<exists>c s'. parsepipe n b s = Ok (c, s') \<and> before b s' r \<and> sliced b c = t))"

definition backs :: "shcmd \<Rightarrow> bool" where
  "backs t \<longleftrightarrow> (\<forall>b s r n. before b s (show_cmd 1 t @ r) \<longrightarrow> follows '')&;'' r \<longrightarrow>
     4 * (length b - s) + 3 \<le> n \<longrightarrow> (\<exists>c s' c2 s2. parsepipe n b s = Ok (c, s') \<and> parsebacks b c s' = parsebacks b c2 s2 \<and> before b s2 r \<and> sliced b c2 = t))"

definition lines :: "shcmd \<Rightarrow> bool" where
  "lines t \<longleftrightarrow> (\<forall>b s r n. before b s (show_cmd 0 t @ r) \<longrightarrow> follows '')'' r \<longrightarrow>
     4 * (length b - s) + 4 \<le> n \<longrightarrow> (\<exists>c s'. parseline n b s = Ok (c, s') \<and> before b s' r \<and> sliced b c = t))"

lemma not_ws_paren: "strchr whitespace (CHR ''('') = None"
  by (simp add: whitespace_def)

lemma show_starts: "printable t \<Longrightarrow> follows syms r \<Longrightarrow> set syms \<subseteq> set symbols \<Longrightarrow> show_cmd l t @ r \<noteq> [] \<longrightarrow> \<not> is_ws (hd (show_cmd l t @ r))"
proof (induction t arbitrary: l r syms)
  case (Run ws)
  show ?case
  proof (cases ws)
    case Nil
    then show ?thesis using follows_ws [OF Run.prems(2,3)] by (simp add: show_words_def)
  next
    case (Cons w vs)
    then show ?thesis using Run.prems(1) starts_ok(1) [of w] by (simp add: show_words_def)
  qed
next
  case (Redirect c f mode fd)
  have "follows ''<>'' (show_redir (f, mode, fd) @ r)" by (simp add: show_redir_def)
  then show ?case using Redirect.IH [of "''<>''" _ 3] Redirect.prems(1) by (simp add: symbols_def)
next
  case (Pipeline x y)
  have "show_cmd 3 x @ ''| '' @ show_cmd 2 y @ r \<noteq> [] \<longrightarrow> \<not> is_ws (hd (show_cmd 3 x @ ''| '' @ show_cmd 2 y @ r))"
    by (rule Pipeline.IH(1) [of symbols]) (use Pipeline.prems in \<open>auto simp: symbols_def\<close>)
  then show ?case by (cases "2 < l") (simp_all add: in_parens_def not_ws_paren)
next
  case (Sequence x y)
  have "show_cmd 1 x @ ''; '' @ show_cmd 0 y @ r \<noteq> [] \<longrightarrow> \<not> is_ws (hd (show_cmd 1 x @ ''; '' @ show_cmd 0 y @ r))"
    by (rule Sequence.IH(1) [of symbols]) (use Sequence.prems in \<open>auto simp: symbols_def\<close>)
  then show ?case by (cases "0 < l") (simp_all add: in_parens_def not_ws_paren)
next
  case (Background c)
  have "show_cmd 1 c @ ''& '' @ r \<noteq> [] \<longrightarrow> \<not> is_ws (hd (show_cmd 1 c @ ''& '' @ r))"
    by (rule Background.IH [of symbols]) (use Background.prems in \<open>auto simp: symbols_def\<close>)
  then show ?case by (cases "1 < l") (simp_all add: in_parens_def not_ws_paren)
qed

lemma execs_pipes: "execs t \<Longrightarrow> show_cmd 2 t = show_cmd 3 t \<Longrightarrow> pipes t"
proof (unfold pipes_def, intro allI impI)
  fix b s r n
  assume e: "execs t" "show_cmd 2 t = show_cmd 3 t" and a: "before b s (show_cmd 2 t @ r)" "follows '')&;'' r" "4 * (length b - s) + 3 \<le> n"
  obtain m where n: "n = Suc m" using a(3) by (cases n) auto
  obtain c s' where c: "parseexec m b s = Ok (c, s')" "before b s' r" "sliced b c = t"
    using e(1) [unfolded execs_def, rule_format, of b s "[]" r m] a e(2) n follows_mono [OF a(2), of "''|)&;''"] by auto
  have "peek b s' ''|'' = (False, s')" by (rule peek_follows [OF c(2) a(2)]) simp
  then show "\<exists>c s'. parsepipe n b s = Ok (c, s') \<and> before b s' r \<and> sliced b c = t" using c n by simp
qed

lemma pipes_backs: "pipes t \<Longrightarrow> show_cmd 1 t = show_cmd 2 t \<Longrightarrow> backs t"
  unfolding pipes_def backs_def by metis

lemma backs_lines: "backs t \<Longrightarrow> show_cmd 0 t = show_cmd 1 t \<Longrightarrow> lines t"
proof (unfold lines_def, intro allI impI)
  fix b s r n
  assume e: "backs t" "show_cmd 0 t = show_cmd 1 t" and a: "before b s (show_cmd 0 t @ r)" "follows '')'' r" "4 * (length b - s) + 4 \<le> n"
  obtain m where n: "n = Suc m" using a(3) by (cases n) auto
  obtain c s' c2 s2 where c: "parsepipe m b s = Ok (c, s')" "parsebacks b c s' = parsebacks b c2 s2" "before b s2 r" "sliced b c2 = t"
    using e(1) [unfolded backs_def, rule_format, of b s r m] a e(2) n follows_mono [OF a(2), of "'')&;''"] by auto
  have p: "peek b s2 ''&'' = (False, s2)" "peek b s2 '';'' = (False, s2)" using peek_follows [OF c(3) a(2)] by simp_all
  then show "\<exists>c s'. parseline n b s = Ok (c, s') \<and> before b s' r \<and> sliced b c = t"
    using c n parsebacks_stop [OF p(1), of c2] by simp
qed

lemma lines_execs: "lines t \<Longrightarrow> show_cmd 3 t = ''( '' @ show_cmd 0 t @ '') '' \<Longrightarrow> printable t \<Longrightarrow> execs t"
proof (unfold execs_def, intro allI impI)
  fix b s r rs n
  assume e: "lines t" "show_cmd 3 t = ''( '' @ show_cmd 0 t @ '') ''" "printable t"
    and a: "before b s (show_cmd 3 t @ concat (map show_redir rs) @ r)" "list_all is_redir rs" "follows ''|)&;'' r" "4 * (length b - s) + 2 \<le> n"
  let ?r = "CHR '')'' # CHR '' '' # concat (map show_redir rs) @ r"
  have b0: "before b s (CHR ''('' # CHR '' '' # show_cmd 0 t @ ?r)" using a(1) e(2) by simp
  obtain m where n: "n = Suc (Suc m)" using a(4) before_length [OF b0] by (cases n; cases "n - 1") auto
  have g: "gettoken b s = (CHR ''('', s, s + 1, s + 2)" "before b (s + 2) (show_cmd 0 t @ ?r)"
    using gettoken_symbol [OF b0] show_starts [OF e(3), of "'')''" ?r 0] by (simp_all add: symbols_def)
  obtain c s' where c: "parseline m b (s + 2) = Ok (c, s')" "before b s' ?r" "sliced b c = t"
    using e(1) [unfolded lines_def, rule_format, of b "s + 2" ?r m] g(2) a(4) n before_length [OF b0] by auto
  have w: "concat (map show_redir rs) @ r \<noteq> [] \<longrightarrow> \<not> is_ws (hd (concat (map show_redir rs) @ r))"
    by (rule follows_ws [OF hd_show_redirs [OF a(3)]]) (auto simp: symbols_def)
  have g': "gettoken b s' = (CHR '')'', s', s' + 1, s' + 2)" "before b (s' + 2) (concat (map show_redir rs) @ r)"
    using gettoken_symbol [OF c(2) w] by (simp_all add: symbols_def)
  have p: "peek b s ''('' = (True, s)" "peek b s' '')'' = (True, s')" using peek_before [OF b0] peek_before [OF c(2)] by simp_all
  obtain c' s'' where r: "parseredirs b c (s' + 2) = Ok (c', s'')" "before b s'' r" "sliced b c' = redirects t rs"
    using parse_shown_redirs [OF a(2,3) g'(2), of c] c(3) by auto
  show "\<exists>c s'. parseexec n b s = Ok (c, s') \<and> before b s' r \<and> sliced b c = redirects t rs"
    using n p g(1) g'(1) c(1) r by simp
qed

lemma grammar_shown: "printable t \<Longrightarrow> execs t \<and> pipes t \<and> backs t \<and> lines t"
proof (induction t)
  case (Run ws)
  have "execs (Run ws)"
    unfolding execs_def
  proof (intro allI impI)
    fix b s r rs n
    assume a: "before b s (show_cmd 3 (Run ws) @ concat (map show_redir rs) @ r)" "list_all is_redir rs" "follows ''|)&;'' r" "4 * (length b - s) + 2 \<le> n"
    obtain m where n: "n = Suc m" using a(4) by (cases n) auto
    have "peek b s ''('' = (False, s)"
    proof (cases ws)
      case Nil
      then show ?thesis using a(1) peek_follows [OF _ hd_show_redirs [OF a(3)], of b s rs "''(''"] by (simp add: show_words_def)
    next
      case (Cons w vs)
      then show ?thesis using peek_before [OF a(1)] Run.prems by (cases w) (auto simp: show_words_def is_word_def word_char_def symbols_def)
    qed
    then show "\<exists>c s'. parseexec n b s = Ok (c, s') \<and> before b s' r \<and> sliced b c = redirects (Run ws) rs"
      using parse_shown_words [of ws rs r 0 b s "[]"] Run.prems a n by simp
  qed
  then show ?case using execs_pipes pipes_backs backs_lines by simp
next
  case (Redirect c f mode fd)
  have "execs (Redirect c f mode fd)"
    unfolding execs_def
  proof (intro allI impI)
    fix b s r rs n
    assume a: "before b s (show_cmd 3 (Redirect c f mode fd) @ concat (map show_redir rs) @ r)" "list_all is_redir rs" "follows ''|)&;'' r" "4 * (length b - s) + 2 \<le> n"
    have "execs c" using Redirect by simp
    from this [unfolded execs_def, rule_format, of b s "(f, mode, fd) # rs" r n]
    show "\<exists>c' s'. parseexec n b s = Ok (c', s') \<and> before b s' r \<and> sliced b c' = redirects (Redirect c f mode fd) rs"
      using Redirect.prems a by simp
  qed
  then show ?case using execs_pipes pipes_backs backs_lines by simp
next
  case (Pipeline x y)
  have ex: "execs x" and py: "pipes y" using Pipeline by simp_all
  have "pipes (Pipeline x y)"
    unfolding pipes_def [of "Pipeline x y"]
  proof (intro allI impI)
    fix b s r n
    assume a: "before b s (show_cmd 2 (Pipeline x y) @ r)" "follows '')&;'' r" "4 * (length b - s) + 3 \<le> n"
    let ?r = "show_cmd 2 y @ r"
    have b0: "before b s (show_cmd 3 x @ concat (map show_redir []) @ CHR ''|'' # CHR '' '' # ?r)" using a(1) by (simp add: in_parens_def)
    obtain m where n: "n = Suc m" using a(3) by (cases n) auto
    obtain c s' where c: "parseexec m b s = Ok (c, s')" "before b s' (CHR ''|'' # CHR '' '' # ?r)" "sliced b c = x"
      using ex [unfolded execs_def, rule_format, of b s "[]" "CHR ''|'' # CHR '' '' # ?r" m] b0 a(3) n by auto
    have w: "?r \<noteq> [] \<longrightarrow> \<not> is_ws (hd ?r)" using show_starts [OF _ a(2), of y 2] Pipeline.prems by (simp add: symbols_def)
    have g: "gettoken b s' = (CHR ''|'', s', s' + 1, s' + 2)" "before b (s' + 2) ?r" using gettoken_symbol [OF c(2) w] by (simp_all add: symbols_def)
    have "4 * (length b - (s' + 2)) + 3 \<le> m" using a(3) n before_length [OF c(2)] before_length [OF b0] by simp
    then obtain c' s'' where c': "parsepipe m b (s' + 2) = Ok (c', s'')" "before b s'' r" "sliced b c' = y"
      using py [unfolded pipes_def, rule_format, OF g(2) a(2)] by blast
    have "peek b s' ''|'' = (True, s')" using peek_before [OF c(2)] by simp
    then show "\<exists>c s'. parsepipe n b s = Ok (c, s') \<and> before b s' r \<and> sliced b c = Pipeline x y" using n c g(1) c' by simp
  qed
  then show ?case using pipes_backs backs_lines lines_execs Pipeline.prems by (simp add: in_parens_def)
next
  case (Background c)
  have bc: "backs c" using Background by simp
  have "backs (Background c)"
    unfolding backs_def [of "Background c"]
  proof (intro allI impI)
    fix b s r n
    assume a: "before b s (show_cmd 1 (Background c) @ r)" "follows '')&;'' r" "4 * (length b - s) + 3 \<le> n"
    have b0: "before b s (show_cmd 1 c @ CHR ''&'' # CHR '' '' # r)" using a(1) by (simp add: in_parens_def)
    obtain c1 s1 c2 s2 where c: "parsepipe n b s = Ok (c1, s1)" "parsebacks b c1 s1 = parsebacks b c2 s2" "before b s2 (CHR ''&'' # CHR '' '' # r)" "sliced b c2 = c"
      using bc [unfolded backs_def, rule_format, OF b0 _ a(3)] by auto
    have g: "gettoken b s2 = (CHR ''&'', s2, s2 + 1, s2 + 2)" "before b (s2 + 2) r"
      using gettoken_symbol [OF c(3) follows_ws [OF a(2)]] by (simp_all add: symbols_def)
    have "peek b s2 ''&'' = (True, s2)" using peek_before [OF c(3)] by simp
    from parsebacks_more [OF this, of c2] g have "parsebacks b c1 s1 = parsebacks b (BACK c2) (s2 + 2)" using c(2) by simp
    then show "\<exists>c1 s' c2 s2. parsepipe n b s = Ok (c1, s') \<and> parsebacks b c1 s' = parsebacks b c2 s2 \<and> before b s2 r \<and> sliced b c2 = Background c"
      using c(1,4) g(2) by (metis sliced.simps(5))
  qed
  then show ?case using backs_lines lines_execs execs_pipes Background.prems by (simp add: in_parens_def)
next
  case (Sequence x y)
  have bx: "backs x" and ly: "lines y" using Sequence by simp_all
  have "lines (Sequence x y)"
    unfolding lines_def [of "Sequence x y"]
  proof (intro allI impI)
    fix b s r n
    assume a: "before b s (show_cmd 0 (Sequence x y) @ r)" "follows '')'' r" "4 * (length b - s) + 4 \<le> n"
    let ?r = "show_cmd 0 y @ r"
    have b0: "before b s (show_cmd 1 x @ CHR '';'' # CHR '' '' # ?r)" using a(1) by (simp add: in_parens_def)
    obtain m where n: "n = Suc m" using a(3) by (cases n) auto
    obtain c s' c2 s2 where c: "parsepipe m b s = Ok (c, s')" "parsebacks b c s' = parsebacks b c2 s2" "before b s2 (CHR '';'' # CHR '' '' # ?r)" "sliced b c2 = x"
      using bx [unfolded backs_def, rule_format, OF b0, of m] a(3) n by auto
    have w: "?r \<noteq> [] \<longrightarrow> \<not> is_ws (hd ?r)" using show_starts [OF _ a(2), of y 0] Sequence.prems by (simp add: symbols_def)
    have g: "gettoken b s2 = (CHR '';'', s2, s2 + 1, s2 + 2)" "before b (s2 + 2) ?r" using gettoken_symbol [OF c(3) w] by (simp_all add: symbols_def)
    have "4 * (length b - (s2 + 2)) + 4 \<le> m" using a(3) n before_length [OF c(3)] before_length [OF b0] by simp
    then obtain c' s'' where c': "parseline m b (s2 + 2) = Ok (c', s'')" "before b s'' r" "sliced b c' = y"
      using ly [unfolded lines_def, rule_format, OF g(2) a(2)] by blast
    have p: "peek b s2 ''&'' = (False, s2)" "peek b s2 '';'' = (True, s2)" using peek_before [OF c(3)] by simp_all
    then show "\<exists>c s'. parseline n b s = Ok (c, s') \<and> before b s' r \<and> sliced b c = Sequence x y"
      using n c g(1) c' parsebacks_stop [OF p(1), of c2] by simp
  qed
  then show ?case using lines_execs execs_pipes pipes_backs Sequence.prems by (simp add: in_parens_def)
qed

lemma seen_sliced:
  assumes "\<forall>a \<in> set (tokens d). is_token b a" "set (tokens c) \<subseteq> set (tokens d)"
  shows "seen (nulterminate d (b @ [NUL])) c = sliced b c"
  using assms(2) by (induction c) (auto simp: nulterminate_text [OF assms(1)])

lemma show_cmd_NUL: "printable t \<Longrightarrow> NUL \<notin> set (show_cmd l t)"
proof (induction t arbitrary: l)
  case (Run ws)
  then show ?case by (auto simp: show_words_def list_all_iff is_word_def word_char_def)
next
  case (Redirect c f mode fd)
  then show ?case by (auto simp: show_redir_def is_redir_def list_all_iff is_word_def word_char_def)
qed (auto simp: in_parens_def)

section \<open>The descriptors of the processes\<close>

text \<open>Running a tree of system calls when they all succeed, as far as the programs it starts are concerned.  The table of open
  files maps a descriptor to what is open there; \<^verbatim>\<open>open\<close>, \<^verbatim>\<open>dup\<close> and \<^verbatim>\<open>pipe\<close> take the lowest free descriptors, and a child starts with a
  copy of the table.  A pipe is named by the branches that led to it (\<open>True\<close> into a child).\<close>

datatype ofile = Inherited nat | Named string int | Read_End "bool list" | Write_End "bool list"

type_synonym fds = "ofile option list"

definition fd_alloc :: "fds \<Rightarrow> ofile \<Rightarrow> (nat \<times> fds) option" where
  "fd_alloc t f = (case find_from (\<lambda>x. x = None) t 0 of None \<Rightarrow> None | Some d \<Rightarrow> Some (d, t[d := Some f]))"

text \<open>A start of a program: its path and arguments, and the open files it is given.\<close>

type_synonym start = "string \<times> string list \<times> fds"

primrec starts :: "prog \<Rightarrow> bool list \<Rightarrow> fds \<Rightarrow> start list" where
  "starts Exit w t = []"
| "starts (Exec path argv k) w t = [(path, argv, t)]"
| "starts (Open f mode k) w t =
     (case fd_alloc t (Named f mode) of None \<Rightarrow> starts (k (-1)) w t | Some (d, t) \<Rightarrow> starts (k (int d)) w t)"
| "starts (Close d k) w t = starts k w (t[nat d := None])"
| "starts (Dup d k) w t =
     (case t ! nat d of None \<Rightarrow> starts k w t | Some f \<Rightarrow> (case fd_alloc t f of None \<Rightarrow> starts k w t | Some (_, t) \<Rightarrow> starts k w t))"
| "starts (Mkpipe k) w t =
     (case fd_alloc t (Read_End w) of None \<Rightarrow> starts (k None) w t
      | Some (p0, t') \<Rightarrow> (case fd_alloc t' (Write_End w) of None \<Rightarrow> starts (k None) w t
        | Some (p1, t'') \<Rightarrow> starts (k (Some (int p0, int p1))) w t''))"
| "starts (Fork c p e) w t = starts c (w @ [True]) t @ starts p (w @ [False]) t"
| "starts (Wait k) w t = starts k w t"
| "starts (Chdir d k) w t = starts (k 0) w t"
| "starts (Print m k) w t = starts k w t"

text \<open>What a command means: the programs it starts, with standard input and output replaced where it says so.\<close>

primrec plumbing :: "shcmd \<Rightarrow> bool list \<Rightarrow> fds \<Rightarrow> start list" where
  "plumbing (Run ws) w t = (case ws of [] \<Rightarrow> [] | p # _ \<Rightarrow> [(p, ws, t)])"
| "plumbing (Redirect c f mode fd) w t = plumbing c w (t[nat fd := Some (Named f mode)])"
| "plumbing (Pipeline x y) w t =
     plumbing x (w @ [True]) (t[1 := Some (Write_End w)]) @ plumbing y (w @ [False, True]) (t[0 := Some (Read_End w)])"
| "plumbing (Sequence x y) w t = plumbing x (w @ [True]) t @ plumbing y (w @ [False]) t"
| "plumbing (Background c) w t = plumbing c (w @ [True]) t"

text \<open>Standard input and output are open, and two descriptors are free.\<close>

definition roomy :: "fds \<Rightarrow> bool" where
  "roomy t \<longleftrightarrow> 2 \<le> length t \<and> t ! 0 \<noteq> None \<and> t ! 1 \<noteq> None \<and> (\<exists>i j. i < j \<and> j < length t \<and> t ! i = None \<and> t ! j = None)"

lemma fd_alloc_lowest:
  assumes "d < length t" "t ! d = None" "\<And>k. k < d \<Longrightarrow> t ! k \<noteq> None"
  shows "fd_alloc t f = Some (d, t[d := Some f])"
proof -
  have "find_from (\<lambda>x. x = None) t 0 = Some d" using assms by (simp add: find_from_0)
  then show ?thesis by (simp add: fd_alloc_def)
qed

lemma roomy_free:
  assumes "roomy t"
  obtains i j where "2 \<le> i" "i < j" "j < length t" "t ! i = None" "t ! j = None" "\<And>k. k < j \<Longrightarrow> k \<noteq> i \<Longrightarrow> t ! k \<noteq> None"
proof -
  have t: "t ! 0 \<noteq> None" "t ! 1 \<noteq> None" using assms by (simp_all add: roomy_def)
  obtain i j where ij: "i < j" "j < length t" "t ! i = None" "t ! j = None" using assms by (auto simp: roomy_def)
  define i' where "i' = (LEAST i. t ! i = None)"
  have i': "t ! i' = None" "i' \<le> i" unfolding i'_def by (rule LeastI [of "\<lambda>i. t ! i = None"] Least_le [of "\<lambda>i. t ! i = None"], rule ij(3))+
  have less_i: "t ! k \<noteq> None" if "k < i'" for k using that unfolding i'_def by (rule not_less_Least)
  define j' where "j' = (LEAST j. i' < j \<and> t ! j = None)"
  have ex: "i' < j \<and> t ! j = None" using i'(2) ij by simp
  have j': "i' < j' \<and> t ! j' = None" "j' \<le> j"
    unfolding j'_def by (rule LeastI [of "\<lambda>j. i' < j \<and> t ! j = None"] Least_le [of "\<lambda>j. i' < j \<and> t ! j = None"], rule ex)+
  have less_j: "\<not> (i' < k \<and> t ! k = None)" if "k < j'" for k using that unfolding j'_def by (rule not_less_Least)
  have "i' \<noteq> 0" "i' \<noteq> 1" using i'(1) t by metis+
  then have "2 \<le> i'" by simp
  moreover have "t ! k \<noteq> None" if "k < j'" "k \<noteq> i'" for k using less_i [of k] less_j [of k] that by (cases "k < i'") auto
  ultimately show ?thesis using that [of i' j'] i'(1) j' ij(2) by simp
qed

lemma roomy_std: "roomy t \<Longrightarrow> d < 2 \<Longrightarrow> roomy (t[d := Some f])"
proof -
  assume t: "roomy t" "d < 2"
  obtain i j where ij: "2 \<le> i" "i < j" "j < length t" "t ! i = None" "t ! j = None" using t(1) by (rule roomy_free)
  have "t[d := Some f] ! i = None" "t[d := Some f] ! j = None" using ij t(2) by auto
  moreover have "t[d := Some f] ! k \<noteq> None" if "k < 2" for k
  proof (cases "k = d")
    case True
    then show ?thesis using t that ij by simp
  next
    case False
    then show ?thesis using t that by (auto simp: roomy_def less_2_cases_iff)
  qed
  ultimately show ?thesis using t(1) ij by (auto simp: roomy_def)
qed

lemma starts_runcmd:
  assumes "roomy t" "well_formed b' c"
  shows "starts (runcmd b c) w t = plumbing (seen b c) w t"
  using assms
proof (induction c arbitrary: w t)
  case (EXEC args)
  then show ?case by (cases args) auto
next
  case (REDIR c f ef mode fd)
  have fd: "fd = 0 \<or> fd = 1" using REDIR.prems(2) by auto
  have t: "t ! 0 \<noteq> None" "2 \<le> length t" using REDIR.prems(1) by (simp_all add: roomy_def)
  have "fd_alloc (t[nat fd := None]) g = Some (nat fd, t[nat fd := Some g])" for g
  proof -
    have "nat fd < length t" "\<And>k. k < nat fd \<Longrightarrow> t[nat fd := None] ! k \<noteq> None" using fd t by auto
    then show ?thesis using fd_alloc_lowest [of "nat fd" "t[nat fd := None]" g] by simp
  qed
  then show ?case using REDIR.IH [OF roomy_std [OF REDIR.prems(1)]] REDIR.prems(2) fd by auto
next
  case (PIPE l r)
  obtain i j where ij: "2 \<le> i" "i < j" "j < length t" "t ! i = None" "t ! j = None" "\<And>k. k < j \<Longrightarrow> k \<noteq> i \<Longrightarrow> t ! k \<noteq> None"
    using PIPE.prems(1) by (rule roomy_free) blast
  let ?r = "Some (Read_End w)" and ?w = "Some (Write_End w)"
  let ?t = "t[i := ?r, j := ?w]"
  have a: "fd_alloc t (Read_End w) = Some (i, t[i := ?r])" using ij by (intro fd_alloc_lowest) auto
  have b: "fd_alloc (t[i := ?r]) (Write_End w) = Some (j, ?t)"
    using ij by (intro fd_alloc_lowest) (auto simp: nth_list_update)
  have std: "t ! 0 \<noteq> None" "t ! 1 \<noteq> None" "t \<noteq> []" using PIPE.prems(1) by (auto simp: roomy_def)
  have l: "fd_alloc (?t[1 := None]) (Write_End w) = Some (1, ?t[1 := ?w])"
    using ij std fd_alloc_lowest [of 1 "?t[1 := None]" "Write_End w"] by (auto simp: nth_list_update)
  have r: "fd_alloc (?t[0 := None]) (Read_End w) = Some (0, ?t[0 := ?r])"
    using ij std fd_alloc_lowest [of 0 "?t[0 := None]" "Read_End w"] by (auto simp: nth_list_update)
  have clean: "?t[d := x, i := None, j := None] = t[d := x]" if "d < 2" for d x
    using that ij by (intro nth_equalityI) (auto simp: nth_list_update)
  have ends: "?t[1 := None] ! j = ?w" "?t[0 := None] ! i = ?r" using ij by (auto simp: nth_list_update)
  note IH = PIPE.IH(1) [OF roomy_std [OF PIPE.prems(1)], of 1] PIPE.IH(2) [OF roomy_std [OF PIPE.prems(1)], of 0]
  show ?case using PIPE.prems(2) a b l r ends clean IH by (simp add: fork1_def sh_panic_def)
next
  case (LIST l r)
  then show ?case by (simp add: fork1_def)
next
  case (BACK c)
  then show ?case by (simp add: fork1_def)
qed

text \<open>Before the first command the standard descriptors are open, and the others are as they were.\<close>

lemma open_console_starts:
  "starts (sh_main reads) w (a # b # c # None # t) =
     (let con = Some (Named ''console'' O_RDWR); std = (\<lambda>x. if x = None then con else x)
      in starts (sh_loop reads) w (std a # std b # std c # None # t))"
  by (cases a; cases b; cases c; simp add: sh_main_def fd_alloc_def Let_def eval_nat_numeral)

section \<open>Properties\<close>

text \<open>C37: The parser of the shell returns on every line: the recursion of \<^verbatim>\<open>parseline\<close>, \<^verbatim>\<open>parsepipe\<close>, \<^verbatim>\<open>parseexec\<close> and
  \<^verbatim>\<open>parseblock\<close> is never deeper than four calls for each character and four more, so \<^verbatim>\<open>parsecmd\<close> yields a command or panics.\<close>

theorem parsecmd_returns: "parsecmd b \<noteq> No_Fuel"
proof -
  have "returns_from 0 (parseline (4 * length b + 4) b 0)" using grammar_returns [of b 0 "4 * length b + 4"] by simp
  then show ?thesis
    by (cases "parseline (4 * length b + 4) b 0") (auto simp: parsecmd_def returns_from_def Let_def split: prod.splits)
qed

text \<open>C36: What \<^verbatim>\<open>parsecmd\<close> returns is well formed: every \<^verbatim>\<open>execcmd\<close> has fewer than \<^verbatim>\<open>MAXARGS\<close> arguments, every argument and file name is a
  non-empty token without white space or symbols, and a redirection is one of the two kinds the shell knows.  In the
  buffer it returns, the pointer to each token points to a string that is exactly the token.\<close>

theorem parsecmd_well_formed:
  assumes "NUL \<notin> set b" "parsecmd b = Ok (c, b')"
  shows "well_formed b c \<and> seen b' c = sliced b c \<and> length b' = length b + 1"
proof -
  obtain s where p: "parseline (4 * length b + 4) b 0 = Ok (c, s)" and b': "b' = nulterminate c (b @ [NUL])"
    using assms(2) by (cases "parseline (4 * length b + 4) b 0") (auto simp: parsecmd_def Let_def split: prod.splits if_splits)
  have w: "well_formed b c" using grammar_good [OF assms(1), of 0 "4 * length b + 4"] p by (auto simp: good_res_def)
  then have "\<forall>a \<in> set (tokens c). is_token b a" using well_formed_tokens by blast
  then have "seen b' c = sliced b c" unfolding b' by (rule seen_sliced) simp
  then show ?thesis using w by (simp add: b' nulterminate_foldl foldl_nul(1))
qed

theorem parsecmd_well_formed_witness:
  "\<exists>c b'. parsecmd ''ls<in|wc'' = Ok (c, b') \<and> well_formed ''ls<in|wc'' c \<and> seen b' c = Pipeline (Redirect (Run [''ls'']) ''in'' 0 0) (Run [''wc''])"
proof -
  have "parsecmd ''ls<in|wc'' = Ok (PIPE (REDIR (EXEC [(0, 2)]) 3 5 0 0) (EXEC [(6, 8)]), ''ls'' @ [NUL] @ ''in'' @ [NUL] @ ''wc'' @ [NUL])" by code_simp
  then show ?thesis
    using parsecmd_well_formed [of "''ls<in|wc''" "PIPE (REDIR (EXEC [(0, 2)]) 3 5 0 0) (EXEC [(6, 8)])"] by simp
qed

text \<open>C34: Parsing undoes printing: every command with fewer than \<^verbatim>\<open>MAXARGS\<close> words in each simple command, written as a line with
  parentheses where the grammar needs them, is parsed to the same command, with the same words as the process that runs it sees
  them.\<close>

theorem parse_show:
  assumes "printable t"
  shows "\<exists>c b'. parsecmd (show_cmd 0 t) = Ok (c, b') \<and> seen b' c = t"
proof -
  let ?b = "show_cmd 0 t"
  have n: "NUL \<notin> set ?b" by (rule show_cmd_NUL [OF assms])
  have "before ?b 0 (?b @ [])" using n show_starts [OF assms, of "[]" "[]" 0] by (auto simp: before_def follows_def)
  then obtain c s where c: "parseline (4 * length ?b + 4) ?b 0 = Ok (c, s)" "before ?b s []" "sliced ?b c = t"
    using grammar_shown [OF assms] unfolding lines_def follows_def by fastforce
  have "peek ?b s [] = (False, s)" "s = length ?b" using peek_before [OF c(2)] before_length [OF c(2)] by simp_all
  then have p: "parsecmd ?b = Ok (c, nulterminate c (?b @ [NUL]))" using c(1) by (simp add: parsecmd_def)
  have "well_formed ?b c" using grammar_good [OF n, of 0 "4 * length ?b + 4"] c(1) by (auto simp: good_res_def)
  then have "seen (nulterminate c (?b @ [NUL])) c = sliced ?b c" using well_formed_tokens by (intro seen_sliced) blast+
  then show ?thesis using p c(3) by simp
qed

theorem parse_show_witness:
  "\<exists>c b'. parsecmd (show_cmd 0 (Background (Sequence (Run [''a'']) (Run [''b'', ''c''])))) = Ok (c, b') \<and>
     seen b' c = Background (Sequence (Run [''a'']) (Run [''b'', ''c'']))"
  by (rule parse_show) (simp add: is_word_def word_char_def whitespace_def symbols_def)

text \<open>C35: The plumbing of a command: with standard input and output open and two descriptors free, the processes the shell forks
  start exactly the programs of the command, in order, each with the open files the command asks for: the two sides of a pipe get its write end as
  standard output and its read end as standard input, a redirection replaces one descriptor, and no other descriptor changes.\<close>

theorem runcmd_plumbing:
  assumes "NUL \<notin> set b" "parsecmd b = Ok (c, b')" "roomy t"
  shows "starts (run_line b) w t = plumbing (sliced b c) w t"
proof -
  obtain s where p: "parseline (4 * length b + 4) b 0 = Ok (c, s)" and b': "b' = nulterminate c (b @ [NUL])"
    using assms(2) by (cases "parseline (4 * length b + 4) b 0") (auto simp: parsecmd_def Let_def split: prod.splits if_splits)
  have w: "well_formed b c" using grammar_good [OF assms(1), of 0 "4 * length b + 4"] p by (auto simp: good_res_def)
  have "seen b' c = sliced b c" unfolding b' using well_formed_tokens [OF w] by (intro seen_sliced) blast+
  then show ?thesis using starts_runcmd [OF assms(3) w, of b'] assms(2) by (simp add: run_line_def)
qed

theorem runcmd_plumbing_witness:
  "starts (run_line ''ls<in|wc'') [] [Some (Inherited 0), Some (Inherited 1), Some (Inherited 2), None, None, None] =
     [(''ls'', [''ls''], [Some (Named ''in'' 0), Some (Write_End []), Some (Inherited 2), None, None, None]),
      (''wc'', [''wc''], [Some (Read_End []), Some (Inherited 1), Some (Inherited 2), None, None, None])]"
proof -
  have "parsecmd ''ls<in|wc'' = Ok (PIPE (REDIR (EXEC [(0, 2)]) 3 5 0 0) (EXEC [(6, 8)]), ''ls'' @ [NUL] @ ''in'' @ [NUL] @ ''wc'' @ [NUL])" by code_simp
  moreover have "roomy [Some (Inherited 0), Some (Inherited 1), Some (Inherited 2), None, None, None]"
    unfolding roomy_def by (intro conjI exI [of _ 3] exI [of _ 4]) simp_all
  ultimately show ?thesis
    using runcmd_plumbing [of "''ls<in|wc''" "PIPE (REDIR (EXEC [(0, 2)]) 3 5 0 0) (EXEC [(6, 8)])"] by simp
qed

end
