(* ===== verification/User_Prog.thy ===== *)
theory User_Prog
  imports User_Lib
begin

text \<open>
  User programs: \<^verbatim>\<open>grep.c\<close> with its matcher, \<^verbatim>\<open>wc.c\<close>, \<^verbatim>\<open>cat.c\<close>, \<^verbatim>\<open>cpt.c\<close> and \<^verbatim>\<open>fmtname\<close> of \<^verbatim>\<open>ls.c\<close>.  A loop over \<^verbatim>\<open>read\<close> runs
  over the list of what the successive calls return: the chunks of data, and, after the last of them, either the end of
  the file or an error.  What a program writes is its result.
\<close>

datatype input_end = Eof | Read_Error

section \<open>grep.c\<close>

subsection \<open>The matcher\<close>

text \<open>A pattern and a text are strings; \<^verbatim>\<open>re[1]\<close> of a pattern of one character is the terminating zero.\<close>

function (sequential) matchhere :: "string \<Rightarrow> string \<Rightarrow> bool"
  and matchstar :: "char \<Rightarrow> string \<Rightarrow> string \<Rightarrow> bool" where
  "matchhere re text =
     (if re = [] then True
      else if ch (tl re) = CHR ''*'' then matchstar (ch re) (tl (tl re)) text
      else if ch re = CHR ''$'' \<and> tl re = [] then text = []
      else if text \<noteq> [] \<and> (ch re = CHR ''.'' \<or> ch re = ch text) then matchhere (tl re) (tl text)
      else False)"
| "matchstar c re text =
     (if matchhere re text then True
      else if text \<noteq> [] \<and> (ch text = c \<or> c = CHR ''.'') then matchstar c re (tl text)
      else False)"
  by pat_completeness auto
termination
  by (relation "measures [\<lambda>x. case x of Inl (re, t) \<Rightarrow> length re | Inr (c, re, t) \<Rightarrow> length re,
      \<lambda>x. case x of Inl (re, t) \<Rightarrow> 2 * length t | Inr (c, re, t) \<Rightarrow> 2 * length t + 1]")
    (auto simp: ch_def split: list.splits)

declare matchhere.simps [simp del] matchstar.simps [simp del]

primrec match_loop :: "string \<Rightarrow> string \<Rightarrow> bool" where
  "match_loop re [] = matchhere re []"
| "match_loop re (c # text) = (if matchhere re (c # text) then True else match_loop re text)"

definition match :: "string \<Rightarrow> string \<Rightarrow> bool" where
  "match re text = (if ch re = CHR ''^'' then matchhere (tl re) text else match_loop re text)"

subsection \<open>The lines\<close>

text \<open>The inner loop: \<open>p\<close> is the part of the buffer that starts at the pointer \<^verbatim>\<open>p\<close>; a line ends at a newline that comes
  before any zero byte.  The result is what is printed, and the rest.\<close>

definition newline_at :: "string \<Rightarrow> nat option" where
  "newline_at p = find_from (\<lambda>c. c = CHR 0x0A) (takeWhile (\<lambda>c. c \<noteq> NUL) p) 0"

function grep_lines :: "string \<Rightarrow> string \<Rightarrow> string list \<times> string" where
  "grep_lines pattern p =
     (case newline_at p of
        None \<Rightarrow> ([], p)
      | Some q \<Rightarrow>
          (case grep_lines pattern (drop (q + 1) p) of (out, rest) \<Rightarrow>
             ((if match pattern (take q p) then [take (q + 1) p] else []) @ out, rest)))"
  by pat_completeness auto
termination
proof (relation "measure (\<lambda>(pattern, p). length p)")
  fix pattern p q assume "newline_at p = Some q"
  then have "q < length p" using length_takeWhile_le [of _ p] by (auto simp: newline_at_def find_from_0 intro: less_le_trans)
  then show "((pattern, drop (q + 1) p), pattern, p) \<in> measure (\<lambda>(pattern, p). length p)" by simp
qed simp

declare grep_lines.simps [simp del]

text \<open>The outer loop, with the \<^verbatim>\<open>m\<close> bytes kept in the buffer.  Where no line ended, the whole buffer is dropped.\<close>

primrec grep_loop :: "string \<Rightarrow> string \<Rightarrow> string list \<Rightarrow> string list" where
  "grep_loop pattern buf [] = []"
| "grep_loop pattern buf (chunk # reads) =
     (let buf = buf @ chunk;
          (out, p) = grep_lines pattern buf
      in out @ grep_loop pattern (if length p = length buf then [] else p) reads)"

definition grep :: "string \<Rightarrow> string list \<Rightarrow> string list" where
  "grep pattern reads = grep_loop pattern [] reads"

section \<open>wc.c\<close>

record wc_state =
  wc_l :: int
  wc_w :: int
  wc_c :: int
  inword :: bool

definition wc_char :: "wc_state \<Rightarrow> char \<Rightarrow> wc_state" where
  "wc_char s x =
     (let s = s\<lparr>wc_c := wc_c s + 1\<rparr>;
          s = (if x = CHR 0x0A then s\<lparr>wc_l := wc_l s + 1\<rparr> else s)
      in if strchr [CHR '' '', CHR 0x0D, CHR 0x09, CHR 0x0A, CHR 0x0B] x \<noteq> None then s\<lparr>inword := False\<rparr>
         else if \<not> inword s then s\<lparr>wc_w := wc_w s + 1, inword := True\<rparr>
         else s)"

definition wc :: "string list \<Rightarrow> input_end \<Rightarrow> string \<Rightarrow> string" where
  "wc reads e name =
     (let s = foldl (\<lambda>s buf. foldl wc_char s buf) \<lparr>wc_l = 0, wc_w = 0, wc_c = 0, inword = False\<rparr> reads
      in if e = Read_Error then printf ''wc: read error\<newline>'' []
         else printf ''%d %d %d %s\<newline>'' [cint (wc_l s), cint (wc_w s), cint (wc_c s), cstr 1 name])"

section \<open>cat.c and cpt.c\<close>

text \<open>\<open>accept\<close> is the number of bytes each \<^verbatim>\<open>write\<close> takes.  The result is the data handed to \<^verbatim>\<open>write\<close> and the message.\<close>

primrec cat :: "(string \<Rightarrow> int) \<Rightarrow> string list \<Rightarrow> input_end \<Rightarrow> string list \<times> string" where
  "cat accept [] e = ([], if e = Read_Error then ''cat: read error\<newline>'' else [])"
| "cat accept (buf # reads) e =
     (if accept buf \<noteq> int (length buf) then ([buf], ''cat: write error\<newline>'')
      else case cat accept reads e of (out, m) \<Rightarrow> (buf # out, m))"

primrec cpt :: "(string \<Rightarrow> int) \<Rightarrow> string list \<Rightarrow> input_end \<Rightarrow> string list \<times> string" where
  "cpt accept [] e = ([], if e = Read_Error then ''cpt: read error\<newline>'' else [])"
| "cpt accept (buf # reads) e =
     (if accept buf \<noteq> int (length buf) then ([buf], ''cpt: write error\<newline>'')
      else if last buf = CHR 0x0A then ([buf], [])
      else case cpt accept reads e of (out, m) \<Rightarrow> (buf # out, m))"

section \<open>ls.c\<close>

text \<open>\<^verbatim>\<open>fmtname\<close>: the part of the path after the last slash, blank-padded to the length of a directory name.\<close>

definition fmtname :: "string \<Rightarrow> string" where
  "fmtname path =
     (let p = rev (takeWhile (\<lambda>c. c \<noteq> CHR ''/'') (rev path))
      in if length p \<ge> 14 then p else p @ replicate (14 - length p) (CHR '' ''))"

section \<open>What the matcher accepts\<close>

text \<open>\<open>c\<close> in a pattern stands for \<open>t\<close>.\<close>

definition stands_for :: "char \<Rightarrow> char \<Rightarrow> bool" where
  "stands_for c t \<longleftrightarrow> c = CHR ''.'' \<or> c = t"

text \<open>\<open>denotes re u v\<close>: the pattern matches \<open>u\<close> where \<open>v\<close> follows.\<close>

inductive denotes :: "string \<Rightarrow> string \<Rightarrow> string \<Rightarrow> bool" where
  empty: "denotes [] [] v"
| star: "list_all (stands_for c) u \<Longrightarrow> denotes re w v \<Longrightarrow> denotes (c # CHR ''*'' # re) (u @ w) v"
| dollar: "denotes ''$'' [] []"
| char: "ch re \<noteq> CHR ''*'' \<Longrightarrow> \<not> (c = CHR ''$'' \<and> re = []) \<Longrightarrow> stands_for c t \<Longrightarrow> denotes re u v \<Longrightarrow> denotes (c # re) (t # u) v"

inductive_cases denotes_empty: "denotes [] u v"
inductive_cases denotes_cons: "denotes (c # re) u v"

lemma matchhere_cases:
  "matchhere [] tx"
  "matchhere (c # CHR ''*'' # re) tx = matchstar c re tx"
  "ch re \<noteq> CHR ''*'' \<Longrightarrow> matchhere (c # re) tx =
     (if c = CHR ''$'' \<and> re = [] then tx = [] else tx \<noteq> [] \<and> stands_for c (hd tx) \<and> matchhere re (tl tx))"
  by (subst matchhere.simps; auto simp: ch_def stands_for_def split: list.splits)+

lemma matchstar_iff:
  "matchstar c re tx \<longleftrightarrow> (\<exists>u w. tx = u @ w \<and> list_all (stands_for c) u \<and> matchhere re w)"
proof (induction tx)
  case Nil
  then show ?case by (subst matchstar.simps) auto
next
  case (Cons t tx)
  have "matchstar c re (t # tx) \<longleftrightarrow> matchhere re (t # tx) \<or> stands_for c t \<and> matchstar c re tx"
    by (subst matchstar.simps) (auto simp: ch_def stands_for_def)
  also have "\<dots> \<longleftrightarrow> (\<exists>u w. t # tx = u @ w \<and> list_all (stands_for c) u \<and> matchhere re w)"
  proof
    assume "matchhere re (t # tx) \<or> stands_for c t \<and> matchstar c re tx"
    then show "\<exists>u w. t # tx = u @ w \<and> list_all (stands_for c) u \<and> matchhere re w"
    proof
      assume "matchhere re (t # tx)"
      then show ?thesis by (intro exI [of _ "[]"] exI [of _ "t # tx"]) simp
    next
      assume *: "stands_for c t \<and> matchstar c re tx"
      then obtain u w where "tx = u @ w" "list_all (stands_for c) u" "matchhere re w" unfolding Cons.IH by blast
      then show ?thesis using * by (intro exI [of _ "t # u"] exI [of _ w]) simp
    qed
  next
    assume "\<exists>u w. t # tx = u @ w \<and> list_all (stands_for c) u \<and> matchhere re w"
    then obtain u w where u: "t # tx = u @ w" "list_all (stands_for c) u" "matchhere re w" by blast
    then show "matchhere re (t # tx) \<or> stands_for c t \<and> matchstar c re tx" unfolding Cons.IH by (cases u) auto
  qed
  finally show ?case .
qed

lemma matchhere_iff: "matchhere re tx \<longleftrightarrow> (\<exists>u v. tx = u @ v \<and> denotes re u v)"
proof (induction re arbitrary: tx rule: length_induct)
  case (1 re)
  show ?case
  proof (cases re)
    case Nil
    then show ?thesis using matchhere_cases(1) [of tx] denotes.empty by (auto elim: denotes_empty)
  next
    case (Cons c re')
    show ?thesis
    proof (cases "ch re' = CHR ''*''")
      case True
      then obtain re'' where re': "re' = CHR ''*'' # re''" by (cases re') (auto simp: ch_def)
      have "matchhere re'' w \<longleftrightarrow> (\<exists>u v. w = u @ v \<and> denotes re'' u v)" for w using 1 Cons re' by simp
      then have "matchhere re tx \<longleftrightarrow> (\<exists>u w v. tx = u @ w @ v \<and> list_all (stands_for c) u \<and> denotes re'' w v)"
        unfolding Cons re' matchhere_cases(2) matchstar_iff by blast
      also have "\<dots> \<longleftrightarrow> (\<exists>u v. tx = u @ v \<and> denotes re u v)"
      proof
        assume "\<exists>u w v. tx = u @ w @ v \<and> list_all (stands_for c) u \<and> denotes re'' w v"
        then show "\<exists>u v. tx = u @ v \<and> denotes re u v" unfolding Cons re' by (metis append.assoc denotes.star)
      next
        assume "\<exists>u v. tx = u @ v \<and> denotes re u v"
        then obtain u v where u: "tx = u @ v" "denotes (c # CHR ''*'' # re'') u v" unfolding Cons re' by blast
        from u(2) obtain u1 w where "u = u1 @ w" "list_all (stands_for c) u1" "denotes re'' w v"
          by (rule denotes_cons) (auto simp: ch_def)
        then show "\<exists>u w v. tx = u @ w @ v \<and> list_all (stands_for c) u \<and> denotes re'' w v" using u(1) by fastforce
      qed
      finally show ?thesis .
    next
      case False
      have IH: "matchhere re' w \<longleftrightarrow> (\<exists>u v. w = u @ v \<and> denotes re' u v)" for w using 1 Cons by simp
      show ?thesis
      proof (cases "c = CHR ''$'' \<and> re' = []")
        case True
        then show ?thesis using matchhere_cases(3) [OF False, of c tx] Cons by (auto elim!: denotes_cons intro: denotes.dollar)
      next
        case no: False
        have "(\<exists>u v. tx = u @ v \<and> denotes re u v) \<longleftrightarrow> (\<exists>t u v. tx = t # u @ v \<and> stands_for c t \<and> denotes re' u v)"
        proof
          assume "\<exists>u v. tx = u @ v \<and> denotes re u v"
          then obtain u v where u: "tx = u @ v" "denotes (c # re') u v" unfolding Cons by blast
          from u(2) obtain t w where "u = t # w" "stands_for c t" "denotes re' w v"
            using False no by cases (auto simp: ch_def)
          then show "\<exists>t u v. tx = t # u @ v \<and> stands_for c t \<and> denotes re' u v" using u(1) by auto
        next
          assume "\<exists>t u v. tx = t # u @ v \<and> stands_for c t \<and> denotes re' u v"
          then show "\<exists>u v. tx = u @ v \<and> denotes re u v" unfolding Cons using denotes.char [OF False no] by (metis append_Cons)
        qed
        also have "\<dots> \<longleftrightarrow> (\<exists>t w. tx = t # w \<and> stands_for c t \<and> matchhere re' w)" unfolding IH by blast
        also have "\<dots> \<longleftrightarrow> matchhere re tx"
          unfolding Cons matchhere_cases(3) [OF False] using no by (cases tx) auto
        finally show ?thesis by blast
      qed
    qed
  qed
qed

lemma match_loop_iff: "match_loop re tx \<longleftrightarrow> (\<exists>p w. tx = p @ w \<and> matchhere re w)"
proof (induction tx)
  case (Cons c tx)
  have "(\<exists>p w. c # tx = p @ w \<and> matchhere re w) \<longleftrightarrow> matchhere re (c # tx) \<or> (\<exists>p w. tx = p @ w \<and> matchhere re w)"
    unfolding Cons_eq_append_conv by blast
  then show ?case using Cons by simp
qed simp

section \<open>The lines of a text\<close>

primrec lines_from :: "string \<Rightarrow> string \<Rightarrow> string list" where
  "lines_from acc [] = []"
| "lines_from acc (c # s) = (if c = CHR 0x0A then acc # lines_from [] s else lines_from (acc @ [c]) s)"

primrec tail_from :: "string \<Rightarrow> string \<Rightarrow> string" where
  "tail_from acc [] = acc"
| "tail_from acc (c # s) = (if c = CHR 0x0A then tail_from [] s else tail_from (acc @ [c]) s)"

lemma lines_from_append: "lines_from acc (x @ y) = lines_from acc x @ lines_from (tail_from acc x) y"
  by (induction x arbitrary: acc) simp_all

lemma tail_from_append: "tail_from acc (x @ y) = tail_from (tail_from acc x) y"
  by (induction x arbitrary: acc) simp_all

lemma from_line: "CHR 0x0A \<notin> set x \<Longrightarrow> lines_from acc x = [] \<and> tail_from acc x = acc @ x"
  by (induction x arbitrary: acc) auto

lemma tail_from_clean: "CHR 0x0A \<notin> set acc \<Longrightarrow> CHR 0x0A \<notin> set (tail_from acc x)"
  by (induction x arbitrary: acc) auto

lemma tail_from_length: "length (tail_from acc x) \<le> length acc + length x \<and> (CHR 0x0A \<in> set x \<longrightarrow> length (tail_from acc x) < length acc + length x)"
proof (induction x arbitrary: acc)
  case (Cons c x)
  show ?case using Cons [of "[]"] Cons [of "acc @ [c]"] by auto
qed simp

definition printed :: "string \<Rightarrow> string list \<Rightarrow> string list" where
  "printed pattern ls = map (\<lambda>l. l @ [CHR 0x0A]) (filter (match pattern) ls)"

lemma printed_append: "printed pattern (ls @ ls') = printed pattern ls @ printed pattern ls'"
  by (simp add: printed_def)

lemma grep_lines_spec:
  "NUL \<notin> set p \<Longrightarrow> grep_lines pattern p = (printed pattern (lines_from [] p), tail_from [] p)"
proof (induction "length p" arbitrary: p rule: less_induct)
  case less
  have tw: "takeWhile (\<lambda>c. c \<noteq> NUL) p = p" using less.prems by (auto simp: takeWhile_eq_all_conv)
  show ?case
  proof (cases "newline_at p")
    case None
    then have "CHR 0x0A \<notin> set p" by (auto simp: newline_at_def tw find_from_None)
    then show ?thesis using None from_line [of p "[]"] by (subst grep_lines.simps) (simp add: printed_def)
  next
    case (Some q)
    then have q: "q < length p" "p ! q = CHR 0x0A" "\<forall>j < q. p ! j \<noteq> CHR 0x0A" by (auto simp: newline_at_def tw find_from_0)
    let ?x = "take q p" and ?r = "drop (q + 1) p"
    have p: "p = ?x @ [CHR 0x0A] @ ?r" using q(1,2) by (metis Cons_nth_drop_Suc Suc_eq_plus1 append_Cons append_Nil append_take_drop_id)
    have x: "CHR 0x0A \<notin> set ?x" using q by (auto simp: in_set_conv_nth)
    have t: "take (q + 1) p = ?x @ [CHR 0x0A]" using q(1,2) by (simp add: take_Suc_conv_app_nth)
    have "lines_from [] p = ?x # lines_from [] ?r" "tail_from [] p = tail_from [] ?r"
      using from_line [OF x, of "[]"] by (subst p, simp add: lines_from_append tail_from_append)+
    moreover have "NUL \<notin> set ?r" using less.prems in_set_dropD by fast
    moreover have "grep_lines pattern ?r = (printed pattern (lines_from [] ?r), tail_from [] ?r)"
      by (rule less.hyps) (use q(1) calculation(3) in auto)
    ultimately show ?thesis using Some t by (subst grep_lines.simps) (simp add: printed_def)
  qed
qed

lemma grep_loop_spec:
  "NUL \<notin> set (buf @ concat reads) \<Longrightarrow> CHR 0x0A \<notin> set buf \<Longrightarrow> \<forall>chunk \<in> set reads. CHR 0x0A \<in> set chunk \<Longrightarrow>
     grep_loop pattern buf reads = printed pattern (lines_from buf (concat reads))"
proof (induction reads arbitrary: buf)
  case Nil
  then show ?case by (simp add: printed_def)
next
  case (Cons chunk reads)
  let ?p = "tail_from buf chunk"
  have b: "lines_from [] (buf @ chunk) = lines_from buf chunk" "tail_from [] (buf @ chunk) = ?p"
    using from_line [OF Cons.prems(2), of "[]"] by (simp_all add: lines_from_append tail_from_append)
  have g: "grep_lines pattern (buf @ chunk) = (printed pattern (lines_from buf chunk), ?p)"
    using grep_lines_spec [of "buf @ chunk" pattern] Cons.prems(1) b by simp
  have "length ?p \<noteq> length (buf @ chunk)" using tail_from_length [of buf chunk] Cons.prems(3) by simp
  moreover have "set ?p \<subseteq> set (buf @ chunk)"
    by (induction chunk arbitrary: buf) (auto, fastforce+)
  then have "grep_loop pattern ?p reads = printed pattern (lines_from ?p (concat reads))"
    using Cons.prems tail_from_clean [OF Cons.prems(2)] by (intro Cons.IH) auto
  ultimately show ?case using g by (simp add: lines_from_append printed_append Let_def)
qed

section \<open>Properties\<close>

text \<open>C38: The matcher of \<^verbatim>\<open>grep\<close> decides what its patterns denote: with a leading caret the rest of the pattern matches a prefix of the text,
  without one the pattern matches somewhere in the text, where a character stands for itself, a dot for any character, a star for
  any number of repetitions of what precedes it and a final dollar for the end of the text.\<close>

theorem match_denotes:
  "match re tx \<longleftrightarrow>
     (if ch re = CHR ''^'' then \<exists>u v. tx = u @ v \<and> denotes (tl re) u v
      else \<exists>p u v. tx = p @ u @ v \<and> denotes re u v)"
  unfolding match_def match_loop_iff matchhere_iff by auto

text \<open>C39: \<^verbatim>\<open>grep\<close> on a text that arrives in pieces: if every piece that \<^verbatim>\<open>read\<close> returns contains a newline (and no zero byte), the program writes exactly the
  complete lines of the text that match, in order and once each, wherever the pieces are cut.\<close>

theorem grep_writes_matching_lines:
  assumes "NUL \<notin> set (concat reads)" "\<forall>chunk \<in> set reads. CHR 0x0A \<in> set chunk"
  shows "grep pattern reads = map (\<lambda>l. l @ [CHR 0x0A]) (filter (match pattern) (lines_from [] (concat reads)))"
  using grep_loop_spec [of "[]" reads pattern] assms by (simp add: grep_def printed_def)

theorem grep_writes_matching_lines_witness:
  "grep ''^a'' [''ab'' @ [CHR 0x0A] @ ''b'', ''a'' @ [CHR 0x0A] @ ''ac'' @ [CHR 0x0A]] = [''ab'' @ [CHR 0x0A], ''ac'' @ [CHR 0x0A]]"
  using grep_writes_matching_lines [of "[''ab'' @ [CHR 0x0A] @ ''b'', ''a'' @ [CHR 0x0A] @ ''ac'' @ [CHR 0x0A]]" "''^a''"]
  by (simp add: match_def ch_def matchhere_cases stands_for_def)

text \<open>Where a piece contains no newline, its bytes are lost: the line \<open>abc\<close> is missed when it arrives as \<open>ab\<close> and \<open>c\<close>.\<close>

lemma grep_loses_partial_line:
  "grep ''b'' [''ab'', ''c'' @ [CHR 0x0A]] = []" "grep ''b'' [''abc'' @ [CHR 0x0A]] = [''abc'' @ [CHR 0x0A]]"
  by code_simp+

text \<open>\<^verbatim>\<open>cpt\<close> stops after the first piece that ends in a newline, whatever follows.\<close>

lemma cpt_stops_at_newline:
  "accept buf = int (length buf) \<Longrightarrow> buf \<noteq> [] \<Longrightarrow> last buf = CHR 0x0A \<Longrightarrow> cpt accept (buf # reads) e = ([buf], [])"
  by simp

end
