(* ===== verification/Spec2Isabelle.thy ===== *)
theory Spec2Isabelle
  imports Trap Shell User_Prog
begin

text \<open>
  \<^bold>\<open>A verification library for the xv6 kernel of the operating systems laboratory.\<close>

  The program is the teaching kernel xv6 for the i386 with the extensions of the course: three scheduling levels, re-entrant
  locks, a barrier, queries on processes, a search path, an editable console line, and its shell and user programs.  The sources are the C
  files under \<^verbatim>\<open>src/\<close>.  The kernel is built for one processor (\<^verbatim>\<open>NCPU\<close> is 1).

  \<^bold>\<open>How the code is modelled.\<close>  Kernel code is written in the monad of \<^theory_text>\<open>Prelude\<close>: a function from the state and a schedule to
  an outcome, which is a result, a \<^verbatim>\<open>panic\<close>, being blocked, or spinning for ever.  The state is a chain of extensible records, one
  extension for each component, in the order in which the components build on each other.  The schedule is a list of state
  transformers; each time the running thread gives up the processor in \<^verbatim>\<open>sched\<close>, the next of them is what the rest of the
  machine does before the thread is resumed.  A thread that waits for a lock held on the only processor spins for ever,
  which is an outcome of its own.  Machine words that may wrap are words of their width (addresses, page-table entries, the
  counters of pipes, \<^verbatim>\<open>ticks\<close>); memory is a function from 32-bit addresses to bytes where the code keeps structures inside
  pages (free lists, page tables, stacks), and pointers to elements of the kernel's static arrays are indices.  User code is modelled
  by functions on strings and by trees of system calls.

  \<^bold>\<open>The theories.\<close>
  \<^item> \<^theory_text>\<open>Prelude\<close>: the monad, its loops, the calculi \<open>wp\<close> (returns without giving up the processor, with the given postcondition) and
    \<open>wpb\<close> (under every schedule of given steps it neither panics nor spins, and satisfies one condition when it returns and another while it is blocked).
    \<open>handed\<close> relates a run to the state in which it was last given the processor.
  \<^item> \<^theory_text>\<open>Mem_String\<close> (\<^verbatim>\<open>string.c\<close>): correctness of \<^verbatim>\<open>memmove\<close> on overlapping areas and of \<^verbatim>\<open>safestrcpy\<close>.
  \<^item> \<^theory_text>\<open>Machine\<close>, \<^theory_text>\<open>Spinlock\<close> (\<^verbatim>\<open>mmu.h\<close>, \<^verbatim>\<open>x86.h\<close>, \<^verbatim>\<open>spinlock.c\<close>): interrupts, processors, locks; nested critical sections restore the
    interrupt flag (locale \<open>critical_sections\<close>); acquiring a lock twice and releasing one not held panic, and acquiring one that is taken spins.
  \<^item> \<^theory_text>\<open>Kalloc\<close> (\<^verbatim>\<open>kalloc.c\<close>): the free list inside the free pages refines a stack (locale \<open>page_allocator\<close>); pages handed out are distinct.
  \<^item> \<^theory_text>\<open>Vm\<close> (\<^verbatim>\<open>vm.c\<close>): two-level page tables; \<^verbatim>\<open>mappages\<close> maps exactly its range.
  \<^item> \<^theory_text>\<open>Proc_Data\<close>, \<^theory_text>\<open>Proc\<close>, \<^theory_text>\<open>Sched\<close>, \<^theory_text>\<open>Proc_Info\<close>, \<^theory_text>\<open>Proc_Life\<close> (\<^verbatim>\<open>proc.c\<close>, \<^verbatim>\<open>proc.h\<close>): the process table, sleeping and waking (a process gives up the condition's lock only
    when it is marked as sleeping under the table's lock), allocation, killing, the choice of each scheduling level and that a round dispatches it, and the
    numbers of the listing.  \<^verbatim>\<open>fork\<close>, \<^verbatim>\<open>exit\<close>, \<^verbatim>\<open>wait\<close> and the barrier are definitions only.
  \<^item> \<^theory_text>\<open>Sleeplock\<close> (\<^verbatim>\<open>sleeplock.c\<close>): under every schedule the lock is given only to a process that finds it free in the state in which it is
    last given the processor, without panic or spinning.
  \<^item> \<^theory_text>\<open>Block\<close>, \<^theory_text>\<open>Bio\<close> (\<^verbatim>\<open>bio.c\<close>, \<^verbatim>\<open>memide.c\<close>): the buffer cache over the memory disk.  The doubly linked list refines a recency list; reading returns the
    current contents of a block; a written block is read back.  The disk keeps the history of its contents.
  \<^item> \<^theory_text>\<open>Log\<close> (\<^verbatim>\<open>log.c\<close>): the write-ahead log.  \<^verbatim>\<open>begin_op\<close> reserves room, \<^verbatim>\<open>log_write\<close> keeps the listed blocks equal to the dirty ones, the
    closing \<^verbatim>\<open>end_op\<close> commits atomically whatever disk of the history a crash leaves, and recovery restores it and may itself be interrupted.
  \<^item> \<^theory_text>\<open>Inode\<close>, \<^theory_text>\<open>Content\<close>, \<^theory_text>\<open>File\<close>, \<^theory_text>\<open>Pipe\<close> (\<^verbatim>\<open>fs.c\<close>, \<^verbatim>\<open>file.c\<close>, \<^verbatim>\<open>pipe.c\<close>): the file system above the log and open files are definitions only; the ring of a pipe with its wrapping counters
    refines a bounded queue (locale \<open>bounded_queue\<close>) and carries a stream under every schedule: what the
    readers receive and what the pipe holds is what was written.
  \<^item> \<^theory_text>\<open>Console_Out\<close>, \<^theory_text>\<open>Console_In\<close>, \<^theory_text>\<open>Device\<close> (\<^verbatim>\<open>console.c\<close>, \<^verbatim>\<open>uart.c\<close>, \<^verbatim>\<open>kbd.c\<close>, \<^verbatim>\<open>lapic.c\<close>): the screen, formatted output, the line editor (definitions only), the
    keyboard decoder, which refines a model of a keyboard with modifiers, and the clock, whose readings are a parameter.
  \<^item> \<^theory_text>\<open>Exec\<close>, \<^theory_text>\<open>Syscall\<close>, \<^theory_text>\<open>Trap\<close> (\<^verbatim>\<open>exec.c\<close>, \<^verbatim>\<open>syscall.c\<close>, \<^verbatim>\<open>sysfile.c\<close>, \<^verbatim>\<open>sysproc.c\<close>, \<^verbatim>\<open>trap.c\<close>): loading programs, fetching arguments through the
    user's page table, every system call, and the trap handler that composes them; definitions only.
  \<^item> \<^theory_text>\<open>User_Lib\<close> (\<^verbatim>\<open>ulib.c\<close>, \<^verbatim>\<open>printf.c\<close>), \<^theory_text>\<open>Shell\<close> (\<^verbatim>\<open>sh.c\<close>), \<^theory_text>\<open>User_Prog\<close> (\<^verbatim>\<open>grep.c\<close>, \<^verbatim>\<open>wc.c\<close>, \<^verbatim>\<open>cat.c\<close>, \<^verbatim>\<open>cpt.c\<close>, \<^verbatim>\<open>ls.c\<close>): non-negative numbers that are printed are read back; the
    shell's parser returns, yields well-formed commands and inverts a printer, and the processes it forks get exactly the open files the
    command asks for; the matcher of \<^verbatim>\<open>grep\<close> decides an inductively defined language, and \<^verbatim>\<open>grep\<close> writes the
    matching lines if each piece it reads contains a newline (a lemma shows a line lost otherwise).

  \<^bold>\<open>Bounds and fuel.\<close>  Loops over the address space have fuel for all of its \<open>2 ^ 20\<close> pages; running out of it is the outcome of
  spinning for ever, never a normal result.  Loops that wait are unfolded along the schedule, which each round consumes.  The clock's loop,
  the kernel's \<^verbatim>\<open>strlen\<close> and the user's \<^verbatim>\<open>strcpy\<close> are partial functions into an option; the clock's loop returns once the clock holds still for 26 readings, and
  \<^verbatim>\<open>strlen\<close> returns on terminated strings.  The search of \<^verbatim>\<open>sys_get_children\<close> has its fuel as an argument, since nothing in the code bounds it.  The recursion of the shell's parser has fuel for four calls for
  each character and four more, and that this suffices is proved; opening the console has fuel for four rounds, which the lowest-free rule of the
  kernel makes enough.

  \<^bold>\<open>Definitions without properties.\<close>  \<^theory_text>\<open>Inode\<close>, \<^theory_text>\<open>Content\<close>, \<^theory_text>\<open>File\<close>, \<^theory_text>\<open>Proc_Life\<close>, \<^theory_text>\<open>Exec\<close>, \<^theory_text>\<open>Syscall\<close>, \<^theory_text>\<open>Trap\<close> and \<^theory_text>\<open>Console_In\<close> translate their sources, and
  nothing is proved about them beyond the termination of their recursions.

  \<^bold>\<open>What the hypotheses say.\<close>  The properties of the buffer cache and the log assume that the calling process is the one using them meanwhile
  (every buffer it does not hold is free) and that the layout of the disk is that of a log of \<^verbatim>\<open>LOGSIZE\<close> blocks.  A \<^verbatim>\<open>double\<close> is a rational number, infinity or no number; the roundings of the floating-point
  unit and the readings of the clock are parameters.

  \<^bold>\<open>Not modelled.\<close>  Assembly (\<^verbatim>\<open>swtch.S\<close>, \<^verbatim>\<open>trapasm.S\<close>, \<^verbatim>\<open>entry.S\<close>, \<^verbatim>\<open>bootasm.S\<close>, \<^verbatim>\<open>initcode.S\<close>, \<^verbatim>\<open>usys.S\<close>) and the boot loader; \<^verbatim>\<open>main.c\<close> and \<^verbatim>\<open>mp.c\<close>, which run once and program
  hardware; the interrupt controllers beyond acknowledging an interrupt; the IDE driver \<^verbatim>\<open>ide.c\<close>, in whose place the model has the memory disk of the other
  build; the image builder \<^verbatim>\<open>mkfs.c\<close>, a program of the host; the user allocator \<^verbatim>\<open>umalloc.c\<close> (the shell's model allocates tree nodes without failure); test and
  demonstration programs (\<^verbatim>\<open>usertests.c\<close>, \<^verbatim>\<open>zhi.c\<close>, \<^verbatim>\<open>foo.c\<close> and the like), which only issue system calls.
\<close>

end
